(* ===== verification/Hord_Prelude.thy ===== *)
theory Hord_Prelude
  imports Main "HOL-Library.Word"
begin

text \<open>
  Shared vocabulary of the HORD development: the machine integer types of the Rust
  sources, the faults a Rust function can end in (an \<open>io::Error\<close> value or a panic), the
  sequencing of fallible state transformers (the \<open>?\<close> operator), byte-addressed memory,
  and big-endian integer encodings, with the lemmas the components share.
\<close>

unbundle bit_operations_syntax

type_synonym u8 = "8 word"
type_synonym u16 = "16 word"
type_synonym u32 = "32 word"
type_synonym u64 = "64 word"
type_synonym bytes = "u8 list"

named_theorems mem_simps \<open>rewriting reads of a written memory\<close>
named_theorems frame_simps \<open>fields that an operation leaves unchanged\<close>

section \<open>Faults and sequencing\<close>

text \<open>
  The kinds of \<open>std::io::ErrorKind\<close> the sources construct or match on. Message texts are
  not modelled: every caller matches the kind and discards the text. The inner marker
  types of \<open>hord-core\<close> (\<open>DeviceRemoved\<close>, \<open>ConnectionSetupFailed\<close>) are matched on, so
  they are kept.
\<close>

datatype error_kind =
    ErrOther | InvalidData | InvalidInput | BrokenPipe | WouldBlock | TimedOut
  | UnexpectedEof | Unsupported | WriteZero

datatype inner_error = NoInner | DeviceRemoved | ConnectionSetupFailed

datatype fault = IoError error_kind inner_error | Panic

abbreviation io_err :: "error_kind \<Rightarrow> fault" where
  "io_err k \<equiv> IoError k NoInner"

type_synonym 'a res = "fault + 'a"

text \<open>
  A Rust method on \<open>&mut self\<close> that returns \<open>io::Result<T>\<close> is a function from the state
  to the result \<^emph>\<open>and\<close> the state it leaves, on the error path too: an \<open>Err\<close> does not
  undo what was mutated. \<open>and_then\<close> is the \<open>?\<close> operator between two such calls.
\<close>

definition and_then :: "'a res \<times> 's \<Rightarrow> ('a \<Rightarrow> 's \<Rightarrow> 'b res \<times> 's) \<Rightarrow> 'b res \<times> 's" where
  "and_then r f = (case r of (Inl e, s) \<Rightarrow> (Inl e, s) | (Inr a, s) \<Rightarrow> f a s)"

lemma and_then_simps [simp]:
  "and_then (Inl e, s) f = (Inl e, s)"
  "and_then (Inr a, s) f = f a s"
  by (simp_all add: and_then_def)

lemma fst_and_then:
  "fst (and_then r f) = (case fst r of Inl e \<Rightarrow> Inl e | Inr a \<Rightarrow> fst (f a (snd r)))"
  by (simp add: and_then_def split: prod.split sum.split)

lemma snd_and_then:
  "snd (and_then r f) = (case fst r of Inl e \<Rightarrow> snd r | Inr a \<Rightarrow> snd (f a (snd r)))"
  by (simp add: and_then_def split: prod.split sum.split)

lemma and_then_split:
  "P (and_then r f) \<longleftrightarrow>
     (\<forall>e s. r = (Inl e, s) \<longrightarrow> P (Inl e, s)) \<and> (\<forall>a s. r = (Inr a, s) \<longrightarrow> P (f a s))"
  by (cases r; cases "fst r") auto

lemma and_then_split_asm:
  "P (and_then r f) \<longleftrightarrow>
     \<not> ((\<exists>e s. r = (Inl e, s) \<and> \<not> P (Inl e, s)) \<or> (\<exists>a s. r = (Inr a, s) \<and> \<not> P (f a s)))"
  by (subst and_then_split) blast

lemmas and_then_splits = and_then_split and_then_split_asm

lemma and_then_InrD:
  assumes "and_then r f = (Inr b, s')"
  obtains a s where "r = (Inr a, s)" and "f a s = (Inr b, s')"
  using assms by (auto split: and_then_splits)

text \<open>A property of the state that both halves keep is kept by the sequence.\<close>

lemma and_then_pres:
  assumes "P (snd r)" and "\<And>a s. r = (Inr a, s) \<Longrightarrow> P s \<Longrightarrow> P (snd (f a s))"
  shows "P (snd (and_then r f))"
  using assms by (auto split: and_then_splits)

section \<open>Fixed-width counters\<close>

text \<open>
  The \<open>u32\<close> counters of the stream state are natural numbers below \<open>2 ^ 32\<close> with the
  width written out: \<open>saturating_add\<close> and \<open>saturating_sub\<close> stop at the ends of the range,
  \<open>+= 1\<close> and \<open>-= k\<close> wrap as they do in a release build.
\<close>

definition u32_max :: nat where
  "u32_max = 2 ^ 32 - 1"

definition sat_add32 :: "nat \<Rightarrow> nat \<Rightarrow> nat" where
  "sat_add32 a b = min (a + b) u32_max"

definition wrap_add32 :: "nat \<Rightarrow> nat \<Rightarrow> nat" where
  "wrap_add32 a b = (a + b) mod 2 ^ 32"

definition wrap_sub32 :: "nat \<Rightarrow> nat \<Rightarrow> nat" where
  "wrap_sub32 a b = (a + (2 ^ 32 - b mod 2 ^ 32)) mod 2 ^ 32"

lemma wrap_add32_small [simp]: "a + b \<le> u32_max \<Longrightarrow> wrap_add32 a b = a + b"
  by (simp add: wrap_add32_def u32_max_def)

lemma sat_add32_small [simp]: "a + b \<le> u32_max \<Longrightarrow> sat_add32 a b = a + b"
  by (simp add: sat_add32_def)

lemma wrap_sub32_small [simp]:
  assumes "b \<le> a" and "a \<le> u32_max"
  shows "wrap_sub32 a b = a - b"
proof -
  have "b mod 2 ^ 32 = b" using assms by (simp add: u32_max_def)
  moreover have "a + (2 ^ 32 - b) = (a - b) + 2 ^ 32" using assms by (simp add: u32_max_def)
  ultimately have "wrap_sub32 a b = ((a - b) + 2 ^ 32) mod 2 ^ 32"
    by (simp only: wrap_sub32_def)
  also have "\<dots> = (a - b) mod 2 ^ 32" by (rule mod_add_self2)
  also have "\<dots> = a - b" using assms by (simp add: u32_max_def)
  finally show ?thesis .
qed

section \<open>Byte-addressed memory\<close>

text \<open>
  Registered memory is reached by raw pointers only (\<open>copy_in\<close>, \<open>copy_out\<close>, the NIC's
  DMA), and slots of one allocation are in use by different agents at once. So memory is
  an explicit store from addresses to bytes.
\<close>

type_synonym memory = "nat \<Rightarrow> u8"

definition read_mem :: "memory \<Rightarrow> nat \<Rightarrow> nat \<Rightarrow> bytes" where
  "read_mem m a n = map m [a..<a + n]"

definition write_mem :: "memory \<Rightarrow> nat \<Rightarrow> bytes \<Rightarrow> memory" where
  "write_mem m a bs = (\<lambda>x. if a \<le> x \<and> x < a + length bs then bs ! (x - a) else m x)"

lemma length_read_mem [simp]: "length (read_mem m a n) = n"
  by (simp add: read_mem_def)

lemma read_mem_0 [simp]: "read_mem m a 0 = []"
  by (simp add: read_mem_def)

lemma nth_read_mem [simp]: "i < n \<Longrightarrow> read_mem m a n ! i = m (a + i)"
  by (simp add: read_mem_def)

lemma write_mem_Nil [simp]: "write_mem m a [] = m"
  by (rule ext) (auto simp: write_mem_def)

lemma read_mem_append: "read_mem m a (n + k) = read_mem m a n @ read_mem m (a + n) k"
  by (rule nth_equalityI) (auto simp: nth_append)

lemma take_read_mem: "k \<le> n \<Longrightarrow> take k (read_mem m a n) = read_mem m a k"
  by (rule nth_equalityI) auto

lemma drop_read_mem: "k \<le> n \<Longrightarrow> drop k (read_mem m a n) = read_mem m (a + k) (n - k)"
  by (rule nth_equalityI) (auto simp: add.assoc)

lemma read_write_same [mem_simps]: "read_mem (write_mem m a bs) a (length bs) = bs"
  by (rule nth_equalityI) (auto simp: write_mem_def)

lemma read_write_other [mem_simps]:
  "b + n \<le> a \<or> a + length bs \<le> b \<Longrightarrow> read_mem (write_mem m a bs) b n = read_mem m b n"
  by (rule nth_equalityI) (auto simp: write_mem_def)

lemma write_mem_outside:
  "x < a \<or> a + length bs \<le> x \<Longrightarrow> write_mem m a bs x = m x"
  by (auto simp: write_mem_def)

lemma write_mem_append:
  "write_mem (write_mem m a xs) (a + length xs) ys = write_mem m a (xs @ ys)"
  by (rule ext) (auto simp: write_mem_def nth_append)

text \<open>Slots of one array of equal-sized buffers do not overlap.\<close>

lemma slot_disjoint:
  fixes i j sz :: nat
  assumes "i \<noteq> j"
  shows "i * sz + sz \<le> j * sz \<or> j * sz + sz \<le> i * sz"
proof (cases "i < j")
  case True
  then have "Suc i * sz \<le> j * sz" by (intro mult_le_mono) auto
  then show ?thesis by simp
next
  case False
  with assms have "Suc j * sz \<le> i * sz" by (intro mult_le_mono) auto
  then show ?thesis by simp
qed

lemma slot_in_range:
  fixes i n sz :: nat
  assumes "i < n"
  shows "i * sz + sz \<le> n * sz"
proof -
  have "Suc i * sz \<le> n * sz" using assms by (intro mult_le_mono) auto
  then show ?thesis by simp
qed

section \<open>Slices and big-endian integers\<close>

text \<open>The Rust slice \<open>b[i..j]\<close>, for \<open>i \<le> j \<le> b.len()\<close>.\<close>

definition subslice :: "'a list \<Rightarrow> nat \<Rightarrow> nat \<Rightarrow> 'a list" where
  "subslice xs i j = take (j - i) (drop i xs)"

lemma length_subslice [simp]: "j \<le> length xs \<Longrightarrow> length (subslice xs i j) = j - i"
  by (simp add: subslice_def)

lemma subslice_append_left: "length xs = i \<Longrightarrow> subslice (xs @ ys) i j = take (j - i) ys"
  by (simp add: subslice_def)

lemma take_subslice: "i \<le> j \<Longrightarrow> take j xs = take i xs @ subslice xs i j"
  by (metis subslice_def le_add_diff_inverse take_add)

definition u16_to_be_bytes :: "u16 \<Rightarrow> bytes" where
  "u16_to_be_bytes w = [ucast (drop_bit 8 w), ucast w]"

definition u32_to_be_bytes :: "u32 \<Rightarrow> bytes" where
  "u32_to_be_bytes w =
     [ucast (drop_bit 24 w), ucast (drop_bit 16 w), ucast (drop_bit 8 w), ucast w]"

text \<open>\<open>from_be_bytes\<close> takes an array of exactly the type's size; the model reads the first bytes.\<close>

fun u16_from_be_bytes :: "bytes \<Rightarrow> u16" where
  "u16_from_be_bytes (a # b # _) = push_bit 8 (ucast a) OR ucast b"
| "u16_from_be_bytes _ = 0"

fun u32_from_be_bytes :: "bytes \<Rightarrow> u32" where
  "u32_from_be_bytes (a # b # c # d # _) =
     push_bit 24 (ucast a) OR push_bit 16 (ucast b) OR push_bit 8 (ucast c) OR ucast d"
| "u32_from_be_bytes _ = 0"

lemma length_to_be_bytes [simp]:
  "length (u16_to_be_bytes w) = 2" "length (u32_to_be_bytes v) = 4"
  by (simp_all add: u16_to_be_bytes_def u32_to_be_bytes_def)

lemma u16_be_round_trip [simp]: "u16_from_be_bytes (u16_to_be_bytes w @ rest) = w"
  by (rule bit_word_eqI) (auto simp: u16_to_be_bytes_def bit_simps)

lemma u32_be_round_trip [simp]: "u32_from_be_bytes (u32_to_be_bytes w @ rest) = w"
proof (rule bit_word_eqI)
  fix n assume "n < LENGTH(32)"
  then consider "n < 8" | "8 \<le> n" "n < 16" | "16 \<le> n" "n < 24" | "24 \<le> n" "n < 32"
    by force
  then show "bit (u32_from_be_bytes (u32_to_be_bytes w @ rest)) n = bit w n"
    by cases (auto simp: u32_to_be_bytes_def bit_simps)
qed

lemma u16_to_from_be_bytes: "u16_to_be_bytes (u16_from_be_bytes [a, b]) = [a, b]"
  by (simp add: u16_to_be_bytes_def)
     (intro conjI; rule bit_word_eqI; auto simp: bit_simps dest: bit_imp_le_length)

lemma u32_to_from_be_bytes: "u32_to_be_bytes (u32_from_be_bytes [a, b, c, d]) = [a, b, c, d]"
  by (simp add: u32_to_be_bytes_def) 
     (intro conjI; rule bit_word_eqI; auto simp: bit_simps dest: bit_imp_le_length)

lemma u16_be_round_trip' [simp]: "u16_from_be_bytes (u16_to_be_bytes w) = w"
  using u16_be_round_trip [of w "[]"] by simp

lemma u32_be_round_trip' [simp]: "u32_from_be_bytes (u32_to_be_bytes w) = w"
  using u32_be_round_trip [of w "[]"] by simp

lemma length_2_conv: "length xs = 2 \<longleftrightarrow> (\<exists>a b. xs = [a, b])"
  by (auto simp: numeral_2_eq_2 length_Suc_conv)

lemma length_4_conv: "length xs = 4 \<longleftrightarrow> (\<exists>a b c d. xs = [a, b, c, d])"
  by (auto simp: numeral_eq_Suc length_Suc_conv)

lemma u16_be_inverse [simp]: "length xs = 2 \<Longrightarrow> u16_to_be_bytes (u16_from_be_bytes xs) = xs"
  by (auto simp: length_2_conv u16_to_from_be_bytes simp del: u16_from_be_bytes.simps)

lemma u32_be_inverse [simp]: "length xs = 4 \<Longrightarrow> u32_to_be_bytes (u32_from_be_bytes xs) = xs"
  by (auto simp: length_4_conv u32_to_from_be_bytes simp del: u32_from_be_bytes.simps)

text \<open>\<open>u32::to_be\<close> and \<open>u32::from_be\<close> on a little-endian host swap the four bytes.\<close>

definition bswap32 :: "u32 \<Rightarrow> u32" where
  "bswap32 w = u32_from_be_bytes (rev (u32_to_be_bytes w))"

lemma bswap32_bswap32 [simp]: "bswap32 (bswap32 w) = w"
proof -
  obtain a b c d where w: "u32_to_be_bytes w = [a, b, c, d]"
    by (simp add: u32_to_be_bytes_def)
  then have "u32_to_be_bytes (bswap32 w) = [d, c, b, a]"
    by (simp only: bswap32_def rev.simps append.simps u32_to_from_be_bytes)
  then have "bswap32 (bswap32 w) = u32_from_be_bytes (u32_to_be_bytes w)"
    by (simp only: bswap32_def [of "bswap32 w"] w rev.simps append.simps)
  then show ?thesis by (simp only: u32_be_round_trip')
qed

end
