(* ===== verification/Transport.thy ===== *)
theory Transport
  imports Hord_Prelude
begin

text \<open>
  The RDMA transport, \<open>hord-core/src/lib.rs\<close>: registered memory, the queue pair with its
  posting operations, the completion queue, the connection-manager channel, connection
  set-up and teardown.

  What is below the crate (\<open>libibverbs\<close>, \<open>librdmacm\<close>, the NIC) is the environment of the
  model: a \<open>connection\<close> carries, next to the fields of the Rust struct, the queues the NIC
  works on (\<open>sq\<close>, \<open>rq\<close>, \<open>cq\<close>), the machine's memory, and scripts that say what the
  environment will do next: what the NIC will do before each later poll
  (\<open>arrivals\<close>), the events on the CM channel, and which verbs or CM calls will fail. Every
  theorem that does not constrain a script holds for all behaviours of the device.
\<close>

section \<open>Constants and small types\<close>

definition ACCESS_LOCAL_WRITE :: nat where "ACCESS_LOCAL_WRITE = 1"
definition ACCESS_REMOTE_WRITE :: nat where "ACCESS_REMOTE_WRITE = 2"
definition MAX_WRITE_SGE :: nat where "MAX_WRITE_SGE = 16"

text \<open>Milliseconds.\<close>
definition ESTABLISH_TIMEOUT :: nat where "ESTABLISH_TIMEOUT = 10000"

datatype access_flag = LocalWrite | RemoteWrite

definition access_flags :: "nat \<Rightarrow> access_flag set" where
  "access_flags access =
     (if access AND ACCESS_REMOTE_WRITE \<noteq> 0 then {LocalWrite, RemoteWrite} else {LocalWrite})"

record sge =
  sge_addr :: nat
  sge_length :: nat
  sge_lkey :: u32

record cm_params =
  retry_count :: nat
  rnr_retry_count :: nat
  resolve_timeout_ms :: int

definition cm_params_default :: cm_params where
  "cm_params_default = \<lparr>retry_count = 7, rnr_retry_count = 7, resolve_timeout_ms = 2000\<rparr>"

definition is_device_removed :: "fault \<Rightarrow> bool" where
  "is_device_removed e \<longleftrightarrow> (case e of IoError _ i \<Rightarrow> i = DeviceRemoved | Panic \<Rightarrow> False)"

definition is_connection_setup_failure :: "fault \<Rightarrow> bool" where
  "is_connection_setup_failure e \<longleftrightarrow>
     (case e of IoError _ i \<Rightarrow> i = ConnectionSetupFailed | Panic \<Rightarrow> False)"

datatype opcode = OpSend | OpRdmaWrite | OpRecv | OpRecvRdmaWithImm | OpOther u32

definition opcode_from_raw :: "u32 \<Rightarrow> opcode" where
  "opcode_from_raw v =
     (if v = 0 then OpSend else if v = 1 then OpRdmaWrite
      else if v = 128 then OpRecv else if v = 129 then OpRecvRdmaWithImm else OpOther v)"

record completion =
  wc_wr_id :: u64
  wc_byte_len :: u32
  wc_opcode :: opcode
  wc_status :: u32
  wc_imm_data :: u32

definition is_success :: "completion \<Rightarrow> bool" where
  "is_success wc \<longleftrightarrow> wc_status wc = 0"

section \<open>What the NIC reads and writes\<close>

text \<open>A completion as the NIC reports it: a raw opcode and a network-order immediate.\<close>

record raw_wc =
  raw_wr_id :: u64
  raw_byte_len :: u32
  raw_opcode :: u32
  raw_status :: u32
  raw_imm :: u32

datatype cq_entry = CqWc raw_wc | CqFault

record recv_wr =
  rw_id :: u64
  rw_addr :: nat
  rw_len :: nat
  rw_lkey :: u32

datatype send_op = SendOp | WriteOp nat u32 | WriteImmOp nat u32 u32

record send_wr =
  sw_id :: u64
  sw_op :: send_op
  sw_sges :: "sge list"

text \<open>
  What the NIC can do on its own between two calls: place a SEND of the peer in the receive
  buffer at the head of the receive queue, place a one-sided write of the peer (with or
  without immediate data) under a remote key, fail the receive at the head of the queue,
  complete the send-queue head, or make the next poll fail.
\<close>

datatype nic_event =
    NicRecv bytes
  | NicWrite nat u32 bytes
  | NicRecvImm nat u32 bytes u32
  | NicRecvFail u32 u32
  | NicSendDone u32 u32
  | NicCqFault

record mem_region =
  reg_addr :: nat
  reg_len :: nat
  reg_key :: u32
  reg_access :: "access_flag set"

datatype event_type =
    AddressResolved | RouteResolved | ConnectRequest | ConnectResponse | Established
  | Disconnected | DeviceRemoval | ConnectError | OtherEvent

record cm_event =
  ev_type :: event_type
  ev_ack_ok :: bool

datatype cm_poll = CmEvent cm_event | CmNoEvent | CmFail

text \<open>
  One \<open>poll(2)\<close> on the CM fd: it returns after some milliseconds, a signal interrupts it
  after some milliseconds, or it fails.
\<close>

datatype park = Parked nat | Interrupted nat | ParkFail

datatype role = Server | Client

datatype qp_state = Reset | Init | ReadyToReceive | ReadyToSend

record connection =
  qp :: "qp_state option"
  role :: role
  max_send_sge :: nat
  dev_max_sge :: int
  disconnected :: bool
  disconnects_sent :: nat
  sq :: "send_wr list"
  rq :: "recv_wr list"
  cq :: "cq_entry list"
  mem :: memory
  brk :: nat
  next_key :: nat
  regions :: "mem_region list"
  arrivals :: "nic_event list list"
  cm_events :: "cm_poll list"
  parks :: "park list"
  post_faults :: "bool list"
  reg_faults :: "bool list"
  cm_faults :: "bool list"
  id_peer_addr :: "nat option"

text \<open>The next scripted outcome of a fallible call; beyond the script calls succeed.\<close>

definition next_fault :: "bool list \<Rightarrow> bool \<times> bool list" where
  "next_fault fs = (case fs of [] \<Rightarrow> (False, []) | f # fs' \<Rightarrow> (f, fs'))"

section \<open>Registered memory\<close>

record registered_buffer =
  rb_addr :: nat
  rb_len :: nat
  rb_lkey :: u32
  rb_rkey :: u32

record mr =
  mr_addr :: nat
  mr_len :: nat
  mr_lkey :: u32
  mr_rkey :: u32

definition copy_out :: "registered_buffer \<Rightarrow> nat \<Rightarrow> nat \<Rightarrow> memory \<Rightarrow> bytes res" where
  "copy_out b off n m =
     (if n \<le> rb_len b \<and> off \<le> rb_len b - n then Inr (read_mem m (rb_addr b + off) n)
      else Inl Panic)"

definition copy_in :: "registered_buffer \<Rightarrow> nat \<Rightarrow> bytes \<Rightarrow> memory \<Rightarrow> memory res" where
  "copy_in b off src m =
     (if length src \<le> rb_len b \<and> off \<le> rb_len b - length src
      then Inr (write_mem m (rb_addr b + off) src) else Inl Panic)"

text \<open>
  \<open>register_buffer\<close>: \<open>len\<close> fresh zeroed bytes, then \<open>ibv_reg_mr\<close>. Allocation is modelled by
  a bump pointer, so storage never overlaps earlier storage.
\<close>

definition register_buffer ::
  "nat \<Rightarrow> nat \<Rightarrow> connection \<Rightarrow> registered_buffer res \<times> connection" where
  "register_buffer len access c =
     (let a = brk c;
          (bad, fs) = next_fault (reg_faults c);
          c1 = c\<lparr>mem := write_mem (mem c) a (replicate len 0), brk := a + len, reg_faults := fs\<rparr>;
          k = of_nat (next_key c)
      in if bad then (Inl (io_err ErrOther), c1)
         else (Inr \<lparr>rb_addr = a, rb_len = len, rb_lkey = k, rb_rkey = k\<rparr>,
               c1\<lparr>next_key := Suc (next_key c),
                  regions := regions c @ [\<lparr>reg_addr = a, reg_len = len, reg_key = k,
                                            reg_access = access_flags access\<rparr>]\<rparr>))"

text \<open>\<open>Mr::new\<close> over memory the caller owns: registration only, no allocation.\<close>

definition register_external ::
  "nat \<Rightarrow> nat \<Rightarrow> nat \<Rightarrow> connection \<Rightarrow> mr res \<times> connection" where
  "register_external ptr len access c =
     (let (bad, fs) = next_fault (reg_faults c);
          c1 = c\<lparr>reg_faults := fs\<rparr>;
          k = of_nat (next_key c)
      in if bad then (Inl (io_err ErrOther), c1)
         else (Inr \<lparr>mr_addr = ptr, mr_len = len, mr_lkey = k, mr_rkey = k\<rparr>,
               c1\<lparr>next_key := Suc (next_key c),
                  regions := regions c @ [\<lparr>reg_addr = ptr, reg_len = len, reg_key = k,
                                            reg_access = access_flags access\<rparr>]\<rparr>))"

section \<open>Posting work requests\<close>

text \<open>\<open>with_qp\<close>: run on the live queue pair, or fail once the connection is shut down.\<close>

definition with_qp ::
  "(connection \<Rightarrow> 'a res \<times> connection) \<Rightarrow> connection \<Rightarrow> 'a res \<times> connection" where
  "with_qp f c = (case qp c of None \<Rightarrow> (Inl (io_err ErrOther), c) | Some _ \<Rightarrow> f c)"

text \<open>\<open>guard.post()\<close>: the device accepts the work request or refuses it.\<close>

definition guard_post :: "(connection \<Rightarrow> connection) \<Rightarrow> connection \<Rightarrow> unit res \<times> connection" where
  "guard_post enqueue c =
     (let (bad, fs) = next_fault (post_faults c); c1 = c\<lparr>post_faults := fs\<rparr>
      in if bad then (Inl (io_err ErrOther), c1) else (Inr (), enqueue c1))"

definition post_recv ::
  "u64 \<Rightarrow> nat \<Rightarrow> nat \<Rightarrow> u32 \<Rightarrow> connection \<Rightarrow> unit res \<times> connection" where
  "post_recv wr_id addr len lkey =
     with_qp (guard_post (\<lambda>c. c\<lparr>rq := rq c @ [\<lparr>rw_id = wr_id, rw_addr = addr, rw_len = len,
                                                rw_lkey = lkey\<rparr>]\<rparr>))"

definition post_send ::
  "u64 \<Rightarrow> nat \<Rightarrow> nat \<Rightarrow> u32 \<Rightarrow> connection \<Rightarrow> unit res \<times> connection" where
  "post_send wr_id addr len lkey =
     with_qp (guard_post (\<lambda>c. c\<lparr>sq := sq c @ [\<lparr>sw_id = wr_id, sw_op = SendOp,
        sw_sges = [\<lparr>sge_addr = addr, sge_length = len, sge_lkey = lkey\<rparr>]\<rparr>]\<rparr>))"

definition post_write_gather ::
  "u64 \<Rightarrow> sge list \<Rightarrow> nat \<Rightarrow> u32 \<Rightarrow> u32 option \<Rightarrow> connection \<Rightarrow> unit res \<times> connection" where
  "post_write_gather wr_id sg_list remote_addr rkey imm c =
     (if \<not> length sg_list \<le> MAX_WRITE_SGE then (Inl Panic, c)
      else if sg_list = [] \<and> imm = None then (Inl Panic, c)
      else with_qp (guard_post (\<lambda>c. c\<lparr>sq := sq c @ [\<lparr>sw_id = wr_id,
             sw_op = (case imm of Some i \<Rightarrow> WriteImmOp remote_addr rkey (bswap32 i)
                                | None \<Rightarrow> WriteOp remote_addr rkey),
             sw_sges = sg_list\<rparr>]\<rparr>)) c)"

definition post_write ::
  "u64 \<Rightarrow> nat \<Rightarrow> nat \<Rightarrow> u32 \<Rightarrow> nat \<Rightarrow> u32 \<Rightarrow> connection \<Rightarrow> unit res \<times> connection" where
  "post_write wr_id addr len lkey remote_addr rkey =
     post_write_gather wr_id [\<lparr>sge_addr = addr, sge_length = len, sge_lkey = lkey\<rparr>]
       remote_addr rkey None"

definition post_write_with_imm ::
  "u64 \<Rightarrow> nat \<Rightarrow> nat \<Rightarrow> u32 \<Rightarrow> nat \<Rightarrow> u32 \<Rightarrow> u32 \<Rightarrow> connection \<Rightarrow> unit res \<times> connection" where
  "post_write_with_imm wr_id addr len lkey remote_addr rkey imm =
     post_write_gather wr_id [\<lparr>sge_addr = addr, sge_length = len, sge_lkey = lkey\<rparr>]
       remote_addr rkey (Some imm)"

section \<open>Polling completions\<close>

text \<open>
  Between two polls the NIC works on the queues. A receive or send work request is consumed
  in posting order and reported once. A SEND longer than the posted buffer fails the receive
  with a length error; a SEND that finds no receive posted is not accepted (RNR); a
  one-sided write needs a region registered for remote writing that covers it. On failure the opcode
  of the report is unspecified, so the event supplies it. After \<open>ibv_destroy_qp\<close> the NIC
  does nothing.
\<close>

definition remote_writable :: "connection \<Rightarrow> nat \<Rightarrow> u32 \<Rightarrow> nat \<Rightarrow> bool" where
  "remote_writable c a k n \<longleftrightarrow>
     list_ex (\<lambda>r. reg_key r = k \<and> RemoteWrite \<in> reg_access r
                  \<and> reg_addr r \<le> a \<and> a + n \<le> reg_addr r + reg_len r) (regions c)"

definition report :: "u64 \<Rightarrow> nat \<Rightarrow> u32 \<Rightarrow> u32 \<Rightarrow> u32 \<Rightarrow> connection \<Rightarrow> connection" where
  "report i n opc st imm c =
     c\<lparr>cq := cq c @ [CqWc \<lparr>raw_wr_id = i, raw_byte_len = of_nat n, raw_opcode = opc,
                             raw_status = st, raw_imm = imm\<rparr>]\<rparr>"

definition op_code :: "send_op \<Rightarrow> u32" where
  "op_code oper = (case oper of SendOp \<Rightarrow> 0 | _ \<Rightarrow> 1)"

fun nic_step :: "nic_event \<Rightarrow> connection \<Rightarrow> connection" where
  "nic_step (NicRecv bs) c =
     (case rq c of [] \<Rightarrow> c
      | w # ws \<Rightarrow>
          if length bs \<le> rw_len w
          then report (rw_id w) (length bs) 128 0 0
                 (c\<lparr>rq := ws, mem := write_mem (mem c) (rw_addr w) bs\<rparr>)
          else report (rw_id w) 0 128 1 0 (c\<lparr>rq := ws\<rparr>))"
| "nic_step (NicWrite a k bs) c =
     (if remote_writable c a k (length bs) then c\<lparr>mem := write_mem (mem c) a bs\<rparr> else c)"
| "nic_step (NicRecvImm a k bs imm) c =
     (case rq c of [] \<Rightarrow> c
      | w # ws \<Rightarrow>
          if bs = [] \<or> remote_writable c a k (length bs)
          then report (rw_id w) (length bs) 129 0 imm
                 (c\<lparr>rq := ws, mem := write_mem (mem c) a bs\<rparr>)
          else c)"
| "nic_step (NicRecvFail st opc) c =
     (case rq c of [] \<Rightarrow> c
      | w # ws \<Rightarrow> if st = 0 then c else report (rw_id w) 0 opc st 0 (c\<lparr>rq := ws\<rparr>))"
| "nic_step (NicSendDone st opc) c =
     (case sq c of [] \<Rightarrow> c
      | w # ws \<Rightarrow>
          report (sw_id w) 0 (if st = 0 then op_code (sw_op w) else opc) st 0 (c\<lparr>sq := ws\<rparr>))"
| "nic_step NicCqFault c = c\<lparr>cq := cq c @ [CqFault]\<rparr>"

lemma nic_step_backlog:
  "length (cq (nic_step ev c)) \<le> Suc (length (cq c))" "arrivals (nic_step ev c) = arrivals c"
  by (cases ev; simp add: report_def split: list.split)+

definition settle :: "connection \<Rightarrow> connection" where
  "settle c =
     (case arrivals c of [] \<Rightarrow> c
      | as # rest \<Rightarrow> (if qp c = None then c else fold nic_step as c)\<lparr>arrivals := rest\<rparr>)"

definition completion_of_raw :: "raw_wc \<Rightarrow> completion" where
  "completion_of_raw r =
     (let opc = opcode_from_raw (raw_opcode r)
      in \<lparr>wc_wr_id = raw_wr_id r, wc_byte_len = raw_byte_len r, wc_opcode = opc,
          wc_status = raw_status r,
          wc_imm_data = (if opc = OpRecvRdmaWithImm then bswap32 (raw_imm r) else 0)\<rparr>)"

definition poll :: "connection \<Rightarrow> completion option res \<times> connection" where
  "poll c0 =
     (let c = settle c0
      in case cq c of
           [] \<Rightarrow> (Inr None, c)
         | CqFault # rest \<Rightarrow> (Inl (io_err ErrOther), c\<lparr>cq := rest\<rparr>)
         | CqWc r # rest \<Rightarrow> (Inr (Some (completion_of_raw r)), c\<lparr>cq := rest\<rparr>))"

section \<open>The CM channel\<close>

definition get_cm_event :: "connection \<Rightarrow> cm_poll \<times> connection" where
  "get_cm_event c =
     (case cm_events c of [] \<Rightarrow> (CmNoEvent, c) | e # es \<Rightarrow> (e, c\<lparr>cm_events := es\<rparr>))"

definition cm_call :: "connection \<Rightarrow> unit res \<times> connection" where
  "cm_call c =
     (let (bad, fs) = next_fault (cm_faults c)
      in (if bad then Inl (io_err ErrOther) else Inr (), c\<lparr>cm_faults := fs\<rparr>))"

definition set_cm_nonblock :: "connection \<Rightarrow> unit res \<times> connection" where
  "set_cm_nonblock = cm_call"

definition check_disconnect :: "connection \<Rightarrow> bool res \<times> connection" where
  "check_disconnect c =
     (case get_cm_event c of
        (CmEvent e, c') \<Rightarrow>
          (Inr (ev_type e = Disconnected \<or> ev_type e = DeviceRemoval \<or> ev_type e = ConnectError), c')
      | (CmNoEvent, c') \<Rightarrow> (Inr False, c')
      | (CmFail, c') \<Rightarrow> (Inl (io_err ErrOther), c'))"

definition try_wait_event :: "event_type \<Rightarrow> connection \<Rightarrow> bool res \<times> connection" where
  "try_wait_event want c =
     (case get_cm_event c of
        (CmEvent e, c') \<Rightarrow>
          if \<not> ev_ack_ok e then (Inl (io_err ErrOther), c')
          else if ev_type e = want then (Inr True, c')
          else (Inl (io_err ErrOther), c')
      | (CmNoEvent, c') \<Rightarrow> (Inr False, c')
      | (CmFail, c') \<Rightarrow> (Inl (io_err ErrOther), c'))"

text \<open>
  \<open>poll_readable\<close>: park at most \<open>remaining\<close> milliseconds, retrying after a signal within the
  same deadline; the result is the time that passed. The argument of \<open>poll(2)\<close> is a \<open>c_int\<close>,
  and a remainder below one millisecond is rounded up. Beyond the script a park times out.
\<close>

definition poll_ms :: "nat \<Rightarrow> nat" where
  "poll_ms remaining = (if remaining = 0 then 1 else min remaining (2 ^ 31 - 1))"

fun poll_readable_loop :: "nat \<Rightarrow> nat \<Rightarrow> park list \<Rightarrow> nat res \<times> park list" where
  "poll_readable_loop passed remaining [] = (Inr (passed + poll_ms remaining), [])"
| "poll_readable_loop passed remaining (Parked d # ps) = (Inr (passed + min d (poll_ms remaining)), ps)"
| "poll_readable_loop passed remaining (Interrupted d # ps) =
     (let e = min d (poll_ms remaining) in poll_readable_loop (passed + e) (remaining - e) ps)"
| "poll_readable_loop passed remaining (ParkFail # ps) = (Inl (io_err ErrOther), ps)"

definition poll_readable :: "nat \<Rightarrow> connection \<Rightarrow> nat res \<times> connection" where
  "poll_readable remaining c =
     (let r = poll_readable_loop 0 remaining (parks c) in (fst r, c\<lparr>parks := snd r\<rparr>))"

lemma try_wait_event_parks [simp]: "parks (snd (try_wait_event want c)) = parks c"
  by (simp add: try_wait_event_def get_cm_event_def split: list.split cm_poll.split)

lemma poll_ms_pos: "0 < poll_ms n" "poll_ms n \<noteq> 0"
  by (simp_all add: poll_ms_def)

lemma poll_readable_loop_progress:
  "fst (poll_readable_loop e n ps) = Inr d \<Longrightarrow>
     length (snd (poll_readable_loop e n ps)) < length ps \<or> (ps = [] \<and> 0 < d)"
  by (induction e n ps rule: poll_readable_loop.induct)
     (auto simp: Let_def poll_ms_pos less_Suc_eq)

lemma poll_readable_progress:
  assumes "fst (poll_readable remaining c) = Inr d" and "0 < remaining"
  shows "length (parks (snd (poll_readable remaining c))) + (remaining - d)
         < length (parks c) + remaining"
  using poll_readable_loop_progress [of 0 remaining "parks c" d] assms
  by (cases "parks c") (auto simp: poll_readable_def Let_def)

function wait_event_loop :: "event_type \<Rightarrow> nat \<Rightarrow> connection \<Rightarrow> unit res \<times> connection" where
  "wait_event_loop want remaining c =
     (let r = try_wait_event want c; c1 = snd r in
      case fst r of
        Inl e \<Rightarrow> (Inl e, c1)
      | Inr True \<Rightarrow> (Inr (), c1)
      | Inr False \<Rightarrow>
          if remaining = 0 then (Inl (io_err TimedOut), c1)
          else (let p = poll_readable remaining c1 in
                case fst p of
                  Inl e \<Rightarrow> (Inl e, snd p)
                | Inr d \<Rightarrow> wait_event_loop want (remaining - d) (snd p)))"
  by pat_completeness auto
termination
  by (relation "measure (\<lambda>(w, n, c). length (parks c) + n)")
     (auto dest!: poll_readable_progress)

declare wait_event_loop.simps [simp del]

definition wait_event :: "event_type \<Rightarrow> nat \<Rightarrow> connection \<Rightarrow> unit res \<times> connection" where
  "wait_event want timeout c =
     and_then (cm_call c) (\<lambda>_. wait_event_loop want timeout)"

section \<open>Establishment and teardown\<close>

definition do_disconnect :: "connection \<Rightarrow> connection" where
  "do_disconnect c =
     (if disconnected c then c
      else c\<lparr>disconnected := True, disconnects_sent := Suc (disconnects_sent c)\<rparr>)"

definition disconnect :: "connection \<Rightarrow> connection" where
  "disconnect = do_disconnect"

definition shutdown :: "connection \<Rightarrow> connection" where
  "shutdown c = (do_disconnect c)\<lparr>qp := None\<rparr>"

text \<open>\<open>get_qp_attr\<close>, then \<open>qp.modify\<close> on the live queue pair; either may fail.\<close>

definition modify_qp :: "qp_state \<Rightarrow> connection \<Rightarrow> unit res \<times> connection" where
  "modify_qp st c =
     and_then (cm_call c) (\<lambda>_ c.
       with_qp (\<lambda>c. and_then (cm_call c) (\<lambda>_ c. (Inr (), c\<lparr>qp := Some st\<rparr>))) c)"

definition accept_establish_begin :: "connection \<Rightarrow> unit res \<times> connection" where
  "accept_establish_begin c =
     and_then (with_qp (\<lambda>c. (Inr (), c)) c) (\<lambda>_ c.
     and_then (modify_qp ReadyToReceive c) (\<lambda>_ c.
     and_then (modify_qp ReadyToSend c) (\<lambda>_ c.
     and_then (cm_call c) (\<lambda>_ c. cm_call c))))"

definition accept_finish :: "connection \<Rightarrow> unit res \<times> connection" where
  "accept_finish c =
     and_then (accept_establish_begin c) (\<lambda>_. wait_event Established ESTABLISH_TIMEOUT)"

definition poll_established :: "connection \<Rightarrow> bool res \<times> connection" where
  "poll_established = try_wait_event Established"

definition connect_finish :: "connection \<Rightarrow> unit res \<times> connection" where
  "connect_finish c =
     and_then (with_qp (\<lambda>c. (Inr (), c)) c) (\<lambda>_ c.
     and_then (cm_call c) (\<lambda>_ c.
     and_then (wait_event ConnectResponse ESTABLISH_TIMEOUT c) (\<lambda>_ c.
     and_then (modify_qp ReadyToReceive c) (\<lambda>_ c.
     and_then (modify_qp ReadyToSend c) (\<lambda>_ c. cm_call c)))))"

section \<open>Building an endpoint\<close>

text \<open>
  \<open>Endpoint::build\<close>: device context, protection domain, completion channel, completion
  queue, device query, queue pair, each of which may fail. The queue pair is left in
  RESET with \<open>max_send_sge\<close> clamped to what the device permits.
\<close>

definition endpoint_max_sge :: "int \<Rightarrow> nat" where
  "endpoint_max_sge dev = min (nat (max dev 1)) MAX_WRITE_SGE"

definition endpoint_build :: "connection \<Rightarrow> unit res \<times> connection" where
  "endpoint_build c =
     and_then (cm_call c) (\<lambda>_ c.
     and_then (cm_call c) (\<lambda>_ c.
     and_then (cm_call c) (\<lambda>_ c.
     and_then (cm_call c) (\<lambda>_ c.
     and_then (cm_call c) (\<lambda>_ c.
     and_then (cm_call c) (\<lambda>_ c.
     and_then (cm_call c) (\<lambda>_ c.
       (Inr (), c\<lparr>qp := Some Reset, max_send_sge := endpoint_max_sge (dev_max_sge c)\<rparr>))))))))"

text \<open>
  \<open>Connection::connect\<close> on a fresh endpoint record: the address parses or not, then channel,
  id, address and route resolution under twice the resolve timeout (at least
  \<open>ESTABLISH_TIMEOUT\<close>), the endpoint, and INIT.
\<close>

definition resolve_wait :: "cm_params \<Rightarrow> nat" where
  "resolve_wait p = max (2 * nat (resolve_timeout_ms p)) ESTABLISH_TIMEOUT"

definition connection_connect ::
  "bool \<Rightarrow> cm_params \<Rightarrow> connection \<Rightarrow> unit res \<times> connection" where
  "connection_connect addr_ok p c =
     (if \<not> addr_ok then (Inl (io_err InvalidInput), c)
      else
        and_then (cm_call c) (\<lambda>_ c.
        and_then (cm_call c) (\<lambda>_ c.
        and_then (cm_call c) (\<lambda>_ c.
        and_then (wait_event AddressResolved (resolve_wait p) c) (\<lambda>_ c.
        and_then (cm_call c) (\<lambda>_ c.
        and_then (wait_event RouteResolved (resolve_wait p) c) (\<lambda>_ c.
        and_then (endpoint_build (c\<lparr>role := Client, disconnected := False\<rparr>)) (\<lambda>_ c.
          modify_qp Init c))))))))"

section \<open>What a wait reports\<close>

text \<open>The first thing the channel has to say: the awaited event, anything else, or nothing yet.\<close>

fun wait_outcome :: "event_type \<Rightarrow> cm_poll list \<Rightarrow> bool option" where
  "wait_outcome want [] = None"
| "wait_outcome want (CmNoEvent # es) = wait_outcome want es"
| "wait_outcome want (CmFail # es) = Some False"
| "wait_outcome want (CmEvent e # es) = Some (ev_ack_ok e \<and> ev_type e = want)"

lemma wait_event_loop_success:
  "fst (wait_event_loop want n c) = Inr u \<Longrightarrow> wait_outcome want (cm_events c) = Some True"
proof (induction want n c rule: wait_event_loop.induct)
  case (1 want n c)
  have parks: "cm_events (snd (poll_readable n c)) = cm_events c" for n c
    by (simp add: poll_readable_def Let_def)
  show ?case
  proof (cases "cm_events c")
    case Nil
    then show ?thesis
      using 1(1) [OF refl refl _ refl _ refl] 1(2)
      by (auto simp: wait_event_loop.simps [of want n c] try_wait_event_def get_cm_event_def Let_def parks
          split: if_splits sum.splits)
  next
    case (Cons e es)
    then show ?thesis
      using 1(1) [OF refl refl _ refl _ refl] 1(2)
      by (cases e)
         (auto simp: wait_event_loop.simps [of want n c] try_wait_event_def get_cm_event_def Let_def parks
          split: if_splits sum.splits)
  qed
qed

end
