(* ===== verification/Wire_Codec.thy ===== *)
theory Wire_Codec
  imports Hord_Prelude
begin

text \<open>
  The contract every fixed-size HORD wire structure keeps, stated once: encoding gives
  a fixed number of bytes, decoding looks at those bytes only, and decoding an encoded
  value gives the value back. The message envelope and the connection handshake are the
  two interpretations.
\<close>

locale wire_codec =
  fixes enc :: "'a \<Rightarrow> bytes"
    and dec :: "bytes \<Rightarrow> 'a res"
    and wire_len :: nat
    and valid :: "'a \<Rightarrow> bool"
  assumes enc_length: "length (enc x) = wire_len"
    and dec_enc_append: "valid x \<Longrightarrow> dec (enc x @ rest) = Inr x"
    and dec_valid: "dec bs = Inr x \<Longrightarrow> valid x"
    and enc_dec: "wire_len \<le> length bs \<Longrightarrow> dec bs = Inr x \<Longrightarrow> enc x = take wire_len bs"
begin

lemma dec_enc: "valid x \<Longrightarrow> dec (enc x) = Inr x"
  using dec_enc_append [of x "[]"] by simp

lemma enc_inj: "valid x \<Longrightarrow> valid y \<Longrightarrow> enc x = enc y \<Longrightarrow> x = y"
  by (metis dec_enc sum.inject(2))

text \<open>A decoder that accepts a full frame accepts exactly the encodings.\<close>

lemma dec_iff_enc:
  assumes "length bs = wire_len"
  shows "dec bs = Inr x \<longleftrightarrow> valid x \<and> bs = enc x"
proof
  assume "dec bs = Inr x"
  with assms show "valid x \<and> bs = enc x"
    using enc_dec [of bs x] dec_valid [of bs x] by simp
next
  assume "valid x \<and> bs = enc x"
  then show "dec bs = Inr x" by (simp add: dec_enc)
qed

text \<open>A frame followed by its payload splits back into both.\<close>

lemma frame_split:
  "valid x \<Longrightarrow> dec (take wire_len (enc x @ payload)) = Inr x \<and> drop wire_len (enc x @ payload) = payload"
  by (simp add: enc_length dec_enc)

end

end
