(* ===== verification/Envelope.thy ===== *)
theory Envelope
  imports Wire_Codec
begin

text \<open>
  The message envelope, \<open>hord-stream/src/envelope.rs\<close>: the 8-byte header in front of
  every message on the stream path (payload length, credits granted, flags), with its
  encoder and decoder.
\<close>

definition ENVELOPE_LEN :: nat where
  "ENVELOPE_LEN = 8"

definition CREDIT_ONLY :: u16 where
  "CREDIT_ONLY = 1"

record envelope =
  env_length :: u32
  env_credits :: u16
  env_flags :: u16

definition is_credit_only :: "envelope \<Rightarrow> bool" where
  "is_credit_only e \<longleftrightarrow> env_flags e AND CREDIT_ONLY \<noteq> 0"

definition envelope_bytes :: "envelope \<Rightarrow> bytes" where
  "envelope_bytes e =
     u32_to_be_bytes (env_length e) @ u16_to_be_bytes (env_credits e) @ u16_to_be_bytes (env_flags e)"

text \<open>\<open>encode\<close> overwrites the first eight bytes of \<open>out\<close>; a shorter slice panics.\<close>

definition envelope_encode :: "envelope \<Rightarrow> bytes \<Rightarrow> bytes res" where
  "envelope_encode e out =
     (if length out < ENVELOPE_LEN then Inl Panic
      else Inr (envelope_bytes e @ drop ENVELOPE_LEN out))"

text \<open>\<open>decode\<close> indexes \<open>buf[0..4]\<close>, \<open>buf[4..6]\<close> and \<open>buf[6..8]\<close>: a shorter slice panics.\<close>

definition envelope_decode :: "bytes \<Rightarrow> envelope res" where
  "envelope_decode buf =
     (if length buf < ENVELOPE_LEN then Inl Panic
      else Inr \<lparr>env_length = u32_from_be_bytes (subslice buf 0 4),
                env_credits = u16_from_be_bytes (subslice buf 4 6),
                env_flags = u16_from_be_bytes (subslice buf 6 8)\<rparr>)"

lemma length_envelope_bytes [simp]: "length (envelope_bytes e) = ENVELOPE_LEN"
  by (simp add: envelope_bytes_def ENVELOPE_LEN_def)

lemma envelope_decode_bytes_append: "envelope_decode (envelope_bytes e @ rest) = Inr e"
  by (simp add: envelope_decode_def envelope_bytes_def ENVELOPE_LEN_def subslice_def)

lemma envelope_bytes_decode:
  assumes "ENVELOPE_LEN \<le> length bs" and "envelope_decode bs = Inr e"
  shows "envelope_bytes e = take ENVELOPE_LEN bs"
proof -
  have "take 8 bs = subslice bs 0 4 @ subslice bs 4 6 @ subslice bs 6 8"
    using take_subslice [of 6 8 bs] take_subslice [of 4 6 bs] by (simp add: subslice_def)
  with assms show ?thesis
    by (auto simp: envelope_decode_def envelope_bytes_def ENVELOPE_LEN_def)
qed

interpretation env: wire_codec envelope_bytes envelope_decode ENVELOPE_LEN "\<lambda>_. True"
  by unfold_locales
     (auto simp: envelope_decode_bytes_append envelope_bytes_decode)

lemma envelope_encode_ok:
  "ENVELOPE_LEN \<le> length out \<Longrightarrow>
     envelope_encode e out = Inr (envelope_bytes e @ drop ENVELOPE_LEN out)"
  by (simp add: envelope_encode_def)

end
