(* ===== verification/Handshake.thy ===== *)
theory Handshake
  imports Wire_Codec
begin

text \<open>
  The connection handshake, \<open>hord-stream/src/handshake.rs\<close>: the 16-byte first message of
  each side, its capability flags, and the decoder with its validation.
\<close>

definition MAGIC :: u32 where
  "MAGIC = 0x484F5244"

definition VERSION :: u16 where
  "VERSION = 1"

definition HANDSHAKE_LEN :: nat where
  "HANDSHAKE_LEN = 16"

definition ZERO_COPY_CAPABLE :: u16 where
  "ZERO_COPY_CAPABLE = 1"

definition SPLIT_MODE_CAPABLE :: u16 where
  "SPLIT_MODE_CAPABLE = 2"

record handshake =
  hs_version :: u16
  hs_flags :: u16
  hs_max_message_size :: u32
  hs_max_recv_buffers :: u16
  hs_split_credits :: u16

definition handshake_new :: "u32 \<Rightarrow> u16 \<Rightarrow> handshake" where
  "handshake_new mms mrb =
     \<lparr>hs_version = VERSION, hs_flags = 0, hs_max_message_size = mms,
      hs_max_recv_buffers = mrb, hs_split_credits = 0\<rparr>"

definition with_zero_copy :: "bool \<Rightarrow> handshake \<Rightarrow> handshake" where
  "with_zero_copy on h =
     (if on then h\<lparr>hs_flags := hs_flags h OR ZERO_COPY_CAPABLE\<rparr>
      else h\<lparr>hs_flags := hs_flags h AND NOT ZERO_COPY_CAPABLE\<rparr>)"

definition zero_copy_capable :: "handshake \<Rightarrow> bool" where
  "zero_copy_capable h \<longleftrightarrow> hs_flags h AND ZERO_COPY_CAPABLE \<noteq> 0"

definition with_split_mode :: "bool \<Rightarrow> handshake \<Rightarrow> handshake" where
  "with_split_mode on h =
     (if on then h\<lparr>hs_flags := hs_flags h OR SPLIT_MODE_CAPABLE\<rparr>
      else h\<lparr>hs_flags := hs_flags h AND NOT SPLIT_MODE_CAPABLE\<rparr>)"

definition split_mode_capable :: "handshake \<Rightarrow> bool" where
  "split_mode_capable h \<longleftrightarrow> hs_flags h AND SPLIT_MODE_CAPABLE \<noteq> 0"

definition with_split_credits :: "u16 \<Rightarrow> handshake \<Rightarrow> handshake" where
  "with_split_credits c h = h\<lparr>hs_split_credits := c\<rparr>"

definition handshake_encode :: "handshake \<Rightarrow> bytes" where
  "handshake_encode h =
     u32_to_be_bytes MAGIC @ u16_to_be_bytes (hs_version h) @ u16_to_be_bytes (hs_flags h)
     @ u32_to_be_bytes (hs_max_message_size h) @ u16_to_be_bytes (hs_max_recv_buffers h)
     @ u16_to_be_bytes (hs_split_credits h)"

definition handshake_decode :: "bytes \<Rightarrow> handshake res" where
  "handshake_decode buf =
     (if length buf < 14 then Inl (io_err InvalidData)
      else if u32_from_be_bytes (subslice buf 0 4) \<noteq> MAGIC then Inl (io_err InvalidData)
      else if u16_from_be_bytes (subslice buf 4 6) \<noteq> VERSION then Inl (io_err InvalidData)
      else Inr \<lparr>hs_version = u16_from_be_bytes (subslice buf 4 6),
                hs_flags = u16_from_be_bytes (subslice buf 6 8),
                hs_max_message_size = u32_from_be_bytes (subslice buf 8 12),
                hs_max_recv_buffers = u16_from_be_bytes (subslice buf 12 14),
                hs_split_credits =
                  (if 16 \<le> length buf then u16_from_be_bytes (subslice buf 14 16) else 0)\<rparr>)"

section \<open>Wire round trips\<close>

lemma length_handshake_encode [simp]: "length (handshake_encode h) = HANDSHAKE_LEN"
  by (simp add: handshake_encode_def HANDSHAKE_LEN_def)

lemma handshake_decode_encode_append:
  assumes "hs_version h = VERSION"
  shows "handshake_decode (handshake_encode h @ rest) = Inr h"
  using assms by (simp add: handshake_decode_def handshake_encode_def subslice_def)

lemma handshake_subslices:
  "take 16 bs = subslice bs 0 4 @ subslice bs 4 6 @ subslice bs 6 8 @ subslice bs 8 12
                @ subslice bs 12 14 @ subslice bs 14 16"
  using take_subslice [of 14 16 bs] take_subslice [of 12 14 bs] take_subslice [of 8 12 bs]
    take_subslice [of 6 8 bs] take_subslice [of 4 6 bs]
  by (simp add: subslice_def)

lemma handshake_encode_decode:
  assumes "HANDSHAKE_LEN \<le> length bs" and "handshake_decode bs = Inr h"
  shows "handshake_encode h = take HANDSHAKE_LEN bs"
proof -
  have "u32_to_be_bytes MAGIC = subslice bs 0 4"
    using assms u32_be_inverse [of "subslice bs 0 4"]
    by (simp add: handshake_decode_def HANDSHAKE_LEN_def del: u32_be_inverse split: if_splits)
  moreover have "u16_to_be_bytes VERSION = subslice bs 4 6"
    using assms u16_be_inverse [of "subslice bs 4 6"]
    by (simp add: handshake_decode_def HANDSHAKE_LEN_def del: u16_be_inverse split: if_splits)
  ultimately show ?thesis using assms
    by (auto simp: handshake_decode_def handshake_encode_def HANDSHAKE_LEN_def
          handshake_subslices split: if_splits)
qed

lemma handshake_decode_version: "handshake_decode bs = Inr h \<Longrightarrow> hs_version h = VERSION"
  by (auto simp: handshake_decode_def split: if_splits)

interpretation hs: wire_codec handshake_encode handshake_decode HANDSHAKE_LEN
  "\<lambda>h. hs_version h = VERSION"
  by unfold_locales
     (simp_all add: handshake_decode_encode_append handshake_encode_decode
       handshake_decode_version)

section \<open>Capability flags\<close>

lemma flag_bits:
  "w AND ZERO_COPY_CAPABLE \<noteq> 0 \<longleftrightarrow> bit w 0"
  "w AND SPLIT_MODE_CAPABLE \<noteq> 0 \<longleftrightarrow> bit w 1"
proof -
  have "w AND 1 \<noteq> 0 \<longleftrightarrow> bit w 0"
    by (simp add: and_one_eq bit_0 odd_iff_mod_2_eq_one)
  moreover have "w AND 2 ^ 1 \<noteq> 0 \<longleftrightarrow> bit w 1"
    by (simp only: and_exp_eq_0_iff_not_bit not_not)
  ultimately show "w AND ZERO_COPY_CAPABLE \<noteq> 0 \<longleftrightarrow> bit w 0"
    and "w AND SPLIT_MODE_CAPABLE \<noteq> 0 \<longleftrightarrow> bit w 1"
    by (simp_all add: ZERO_COPY_CAPABLE_def SPLIT_MODE_CAPABLE_def)
qed

lemma capable_with [simp]:
  "zero_copy_capable (with_zero_copy on h) = on"
  "split_mode_capable (with_split_mode on h) = on"
  "split_mode_capable (with_zero_copy on h) = split_mode_capable h"
  "zero_copy_capable (with_split_mode on h) = zero_copy_capable h"
  "zero_copy_capable (with_split_credits c h) = zero_copy_capable h"
  "split_mode_capable (with_split_credits c h) = split_mode_capable h"
  unfolding zero_copy_capable_def split_mode_capable_def flag_bits
  by (auto simp: with_zero_copy_def with_split_mode_def with_split_credits_def
        ZERO_COPY_CAPABLE_def SPLIT_MODE_CAPABLE_def bit_simps bit_1_iff)

lemma handshake_new_caps [simp]:
  "\<not> zero_copy_capable (handshake_new m r)"
  "\<not> split_mode_capable (handshake_new m r)"
  by (simp_all add: zero_copy_capable_def split_mode_capable_def handshake_new_def)

lemma with_frame [simp]:
  "hs_version (with_zero_copy on h) = hs_version h"
  "hs_max_message_size (with_zero_copy on h) = hs_max_message_size h"
  "hs_max_recv_buffers (with_zero_copy on h) = hs_max_recv_buffers h"
  "hs_split_credits (with_zero_copy on h) = hs_split_credits h"
  "hs_version (with_split_mode on h) = hs_version h"
  "hs_max_message_size (with_split_mode on h) = hs_max_message_size h"
  "hs_max_recv_buffers (with_split_mode on h) = hs_max_recv_buffers h"
  "hs_split_credits (with_split_mode on h) = hs_split_credits h"
  "hs_version (with_split_credits c h) = hs_version h"
  "hs_max_message_size (with_split_credits c h) = hs_max_message_size h"
  "hs_max_recv_buffers (with_split_credits c h) = hs_max_recv_buffers h"
  "hs_split_credits (with_split_credits c h) = c"
  by (auto simp: with_zero_copy_def with_split_mode_def with_split_credits_def)

end
