(* ===== verification/Work_Request.thy ===== *)
theory Work_Request
  imports Hord_Prelude
begin

text \<open>
  Work-request identifiers, \<open>hord-stream/src/stream.rs\<close>: one 64-bit \<open>wr_id\<close> tags every
  posted work request with its lane (receive, data send, control send, one-sided write,
  write-with-immediate) and its slot or chunk index.
\<close>

definition SEND_FLAG :: u64 where "SEND_FLAG = push_bit 63 1"
definition CTRL_FLAG :: u64 where "CTRL_FLAG = push_bit 62 1"
definition WRITE_FLAG :: u64 where "WRITE_FLAG = push_bit 61 1"
definition IMM_FLAG :: u64 where "IMM_FLAG = push_bit 60 1"

definition recv_wr_id :: "nat \<Rightarrow> u64" where
  "recv_wr_id slot = of_nat slot"

definition send_wr_id :: "nat \<Rightarrow> u64" where
  "send_wr_id slot = SEND_FLAG OR of_nat slot"

definition ctrl_send_wr_id :: "nat \<Rightarrow> u64" where
  "ctrl_send_wr_id slot = SEND_FLAG OR CTRL_FLAG OR of_nat slot"

definition write_wr_id :: "nat \<Rightarrow> u64" where
  "write_wr_id chunk = WRITE_FLAG OR of_nat chunk"

definition imm_write_wr_id :: "nat \<Rightarrow> u64" where
  "imm_write_wr_id chunk = WRITE_FLAG OR IMM_FLAG OR of_nat chunk"

definition is_send :: "u64 \<Rightarrow> bool" where
  "is_send w \<longleftrightarrow> w AND SEND_FLAG \<noteq> 0"

definition is_ctrl_send :: "u64 \<Rightarrow> bool" where
  "is_ctrl_send w \<longleftrightarrow> w AND CTRL_FLAG \<noteq> 0"

definition is_write :: "u64 \<Rightarrow> bool" where
  "is_write w \<longleftrightarrow> w AND WRITE_FLAG \<noteq> 0"

definition is_imm_write :: "u64 \<Rightarrow> bool" where
  "is_imm_write w \<longleftrightarrow> w AND IMM_FLAG \<noteq> 0"

definition slot_of :: "u64 \<Rightarrow> nat" where
  "slot_of w = unat (w AND NOT (SEND_FLAG OR CTRL_FLAG OR WRITE_FLAG OR IMM_FLAG))"

definition HS_RECV_WR_ID :: u64 where "HS_RECV_WR_ID = - 1"
definition HS_SEND_WR_ID :: u64 where "HS_SEND_WR_ID = - 1 - 1"

section \<open>Lanes are told apart\<close>

text \<open>
  Indices stay below \<open>2 ^ 60\<close>: a larger pool could not be allocated. Under that bound an
  identifier decodes to exactly the lane and index it was built from.
\<close>

definition slot_bound :: nat where
  "slot_bound = 2 ^ 60"

lemma flag_and_iff: "w AND push_bit k 1 \<noteq> (0 :: u64) \<longleftrightarrow> bit w k"
  by (simp only: push_bit_of_1 and_exp_eq_0_iff_not_bit not_not)

lemmas lane_bits =
  is_send_def is_ctrl_send_def is_write_def is_imm_write_def
  SEND_FLAG_def CTRL_FLAG_def WRITE_FLAG_def IMM_FLAG_def

lemma is_bits:
  "is_send w \<longleftrightarrow> bit w 63" "is_ctrl_send w \<longleftrightarrow> bit w 62"
  "is_write w \<longleftrightarrow> bit w 61" "is_imm_write w \<longleftrightarrow> bit w 60"
  unfolding lane_bits flag_and_iff by (rule refl)+

lemma bit_small_index:
  assumes "i < slot_bound" and "60 \<le> n"
  shows "\<not> bit (of_nat i :: u64) n"
proof -
  have "i < 2 ^ 60" using assms(1) by (simp only: slot_bound_def)
  also have "(2 ^ 60 :: nat) \<le> 2 ^ n" using assms(2) by (intro power_increasing) simp_all
  finally have "i < 2 ^ n" .
  then have "\<not> bit i n"
    by (simp add: bit_iff_odd)
  then show ?thesis by (simp add: bit_of_nat_iff)
qed

lemma bit_flag: "bit (push_bit k 1 :: u64) n \<longleftrightarrow> n = k \<and> k < 64"
  by (auto simp: bit_simps)

lemmas wr_id_defs =
  recv_wr_id_def send_wr_id_def ctrl_send_wr_id_def write_wr_id_def imm_write_wr_id_def

lemma wr_id_lanes:
  assumes "i < slot_bound"
  shows "\<not> is_send (recv_wr_id i)" "\<not> is_write (recv_wr_id i)"
    "is_send (send_wr_id i)" "\<not> is_ctrl_send (send_wr_id i)" "\<not> is_write (send_wr_id i)"
    "is_send (ctrl_send_wr_id i)" "is_ctrl_send (ctrl_send_wr_id i)"
    "\<not> is_write (ctrl_send_wr_id i)"
    "is_write (write_wr_id i)" "\<not> is_imm_write (write_wr_id i)" "\<not> is_send (write_wr_id i)"
    "is_write (imm_write_wr_id i)" "is_imm_write (imm_write_wr_id i)"
    "\<not> is_send (imm_write_wr_id i)"
  unfolding is_bits wr_id_defs SEND_FLAG_def CTRL_FLAG_def WRITE_FLAG_def IMM_FLAG_def
  by (simp_all add: bit_or_iff bit_flag bit_small_index assms del: push_bit_of_1)

lemma slot_of_flags:
  assumes "i < slot_bound" and "\<And>n. bit f n \<Longrightarrow> 60 \<le> n"
  shows "slot_of (f OR of_nat i) = i"
proof -
  have "(f OR of_nat i) AND NOT (SEND_FLAG OR CTRL_FLAG OR WRITE_FLAG OR IMM_FLAG)
        = (of_nat i :: u64)"
  proof (rule bit_word_eqI)
    fix n assume n: "n < LENGTH(64)"
    show "bit ((f OR of_nat i) AND NOT (SEND_FLAG OR CTRL_FLAG OR WRITE_FLAG OR IMM_FLAG)) n
          = bit (of_nat i :: u64) n"
    proof (cases "60 \<le> n")
      case True
      with n have "n = 60 \<or> n = 61 \<or> n = 62 \<or> n = 63" by auto
      then have "bit (SEND_FLAG OR CTRL_FLAG OR WRITE_FLAG OR IMM_FLAG) n"
        unfolding SEND_FLAG_def CTRL_FLAG_def WRITE_FLAG_def IMM_FLAG_def
        by (auto simp: bit_or_iff bit_flag simp del: push_bit_of_1)
      then show ?thesis
        using bit_small_index [OF assms(1) True] by (simp add: bit_and_iff bit_not_iff bit_or_iff)
    next
      case False
      then have "\<not> bit f n" using assms(2) by blast
      moreover have "\<not> bit (SEND_FLAG OR CTRL_FLAG OR WRITE_FLAG OR IMM_FLAG) n"
        unfolding SEND_FLAG_def CTRL_FLAG_def WRITE_FLAG_def IMM_FLAG_def
        using False by (auto simp: bit_or_iff bit_flag simp del: push_bit_of_1)
      ultimately show ?thesis
        using n by (simp add: bit_and_iff bit_or_iff bit_not_iff)
    qed
  qed
  moreover have "unat (of_nat i :: u64) = i"
    using assms(1) by (simp add: slot_bound_def unat_of_nat)
  ultimately show ?thesis by (simp add: slot_of_def)
qed

lemma slot_of_wr_id:
  assumes "i < slot_bound"
  shows "slot_of (recv_wr_id i) = i" "slot_of (send_wr_id i) = i"
    "slot_of (ctrl_send_wr_id i) = i" "slot_of (write_wr_id i) = i"
    "slot_of (imm_write_wr_id i) = i"
proof -
  show "slot_of (recv_wr_id i) = i"
    using slot_of_flags [OF assms, of 0] by (simp add: recv_wr_id_def)
  show "slot_of (send_wr_id i) = i"
    unfolding send_wr_id_def SEND_FLAG_def
    by (rule slot_of_flags [OF assms]) (simp add: bit_flag del: push_bit_of_1)
  show "slot_of (ctrl_send_wr_id i) = i"
    unfolding ctrl_send_wr_id_def SEND_FLAG_def CTRL_FLAG_def or.assoc [symmetric]
    by (rule slot_of_flags [OF assms]) (auto simp: bit_or_iff bit_flag simp del: push_bit_of_1)
  show "slot_of (write_wr_id i) = i"
    unfolding write_wr_id_def WRITE_FLAG_def
    by (rule slot_of_flags [OF assms]) (simp add: bit_flag del: push_bit_of_1)
  show "slot_of (imm_write_wr_id i) = i"
    unfolding imm_write_wr_id_def WRITE_FLAG_def IMM_FLAG_def or.assoc [symmetric]
    by (rule slot_of_flags [OF assms]) (auto simp: bit_or_iff bit_flag simp del: push_bit_of_1)
qed

lemmas wr_id_simps = wr_id_lanes slot_of_wr_id

end
