(* ===== verification/Hord_Stream.thy ===== *)
theory Hord_Stream
  imports Transport Envelope Handshake Work_Request
begin

text \<open>
  The HORD byte stream, \<open>hord-stream/src/stream.rs\<close>: configuration and sizing, connection
  set-up with the first-message handshake, completion processing, credit accounting, the
  receive and send pools, and the non-blocking read, write and flush operations.

  \<open>hord_stream\<close> is the Rust struct field by field. Every method is a function to a result
  and the state it leaves. The wall clock enters as an argument: \<open>now\<close> is the time
  \<open>SystemTime::now()\<close> reads, and \<open>budget\<close> is how many polls of a busy-poll loop fit before
  its deadline.
\<close>

section \<open>Configuration and sizing\<close>

record hord_config =
  max_message_size :: nat
  recv_pool_size :: nat
  send_pool_size :: nat
  cfg_cm :: cm_params
  cfg_zero_copy :: bool
  cfg_split_mode :: bool
  cfg_split_credits :: nat

definition hord_config_default :: hord_config where
  "hord_config_default =
     \<lparr>max_message_size = 65536, recv_pool_size = 32, send_pool_size = 16,
      cfg_cm = cm_params_default, cfg_zero_copy = True, cfg_split_mode = True,
      cfg_split_credits = 8\<rparr>"

definition CTRL_RECV_SLACK :: nat where "CTRL_RECV_SLACK = 2"
definition CTRL_SEND_SLOTS :: nat where "CTRL_SEND_SLOTS = 1"
definition HS_SEND_SLOTS :: nat where "HS_SEND_SLOTS = 1"
definition HS_RECV_SLOTS :: nat where "HS_RECV_SLOTS = 1"

definition split_slack :: "hord_config \<Rightarrow> nat" where
  "split_slack cfg = (if cfg_split_mode cfg then cfg_split_credits cfg else 0)"

definition recv_base_count :: "hord_config \<Rightarrow> nat" where
  "recv_base_count cfg = recv_pool_size cfg + CTRL_RECV_SLACK"

definition recv_wr_count :: "hord_config \<Rightarrow> nat" where
  "recv_wr_count cfg = recv_base_count cfg + split_slack cfg"

definition qp_sizing :: "hord_config \<Rightarrow> nat \<times> nat" where
  "qp_sizing cfg =
     (send_pool_size cfg + CTRL_SEND_SLOTS + HS_SEND_SLOTS, recv_wr_count cfg + HS_RECV_SLOTS)"

definition CM_DISCONNECT_POLL_SPINS :: nat where "CM_DISCONNECT_POLL_SPINS = 4096"
definition WRITE_WR_MAX :: nat where "WRITE_WR_MAX = 2 ^ 30"

section \<open>Stream state\<close>

record ready_msg =
  rm_slot :: nat
  rm_start :: nat
  rm_end :: nat

record hord_stream =
  conn :: connection
  recv :: registered_buffer
  split_recv :: "registered_buffer option"
  send :: registered_buffer
  hs_buf :: registered_buffer
  msg_size :: nat
  payload_cap :: nat
  recv_pool :: nat
  split_base :: nat
  split_headroom :: nat
  send_pool :: nat
  send_free :: "nat list"
  send_credits :: nat
  grant_pending :: nat
  ctrl_slot :: nat
  ctrl_send_busy :: bool
  tx_stage :: bytes
  rx_ready :: "ready_msg list"
  peer_closed :: bool
  cm_watch :: bool
  peer_addr :: "nat option"
  established_at :: nat
  zero_copy :: bool
  writes_outstanding :: nat
  split_mode :: bool
  completed_transfers :: "u32 list"
  peer_split_credits :: nat
  imm_outstanding :: nat
  hs_got_send :: bool
  hs_got_recv :: bool
  hs_recv_len :: nat

record conn_meta =
  meta_peer_addr :: "nat option"
  meta_established_at :: nat
  meta_zero_copy :: bool
  meta_split_mode :: bool

abbreviation smem :: "hord_stream \<Rightarrow> memory" where
  "smem s \<equiv> mem (conn s)"

text \<open>Run a connection operation inside the stream.\<close>

definition on_conn ::
  "(connection \<Rightarrow> 'a res \<times> connection) \<Rightarrow> hord_stream \<Rightarrow> 'a res \<times> hord_stream" where
  "on_conn f s = (case f (conn s) of (r, c) \<Rightarrow> (r, s\<lparr>conn := c\<rparr>))"

section \<open>Capability negotiation\<close>

definition negotiate_split :: "bool \<Rightarrow> bool \<Rightarrow> handshake \<Rightarrow> bool" where
  "negotiate_split local_split negotiated_zero_copy peer \<longleftrightarrow>
     local_split \<and> negotiated_zero_copy \<and> split_mode_capable peer \<and> hs_split_credits peer > 0"

text \<open>
  \<open>u16::try_from(split_credits).unwrap_or(u16::MAX)\<close> saturates; the two \<open>as\<close> casts truncate.
\<close>

definition my_handshake :: "hord_config \<Rightarrow> handshake" where
  "my_handshake cfg =
     (let credits = (of_nat (min (cfg_split_credits cfg) 65535) :: u16);
          split = (cfg_split_mode cfg \<and> cfg_zero_copy cfg \<and> credits > 0)
      in with_split_credits (if split then credits else 0)
           (with_split_mode split
             (with_zero_copy (cfg_zero_copy cfg)
               (handshake_new (of_nat (max_message_size cfg)) (of_nat (recv_pool_size cfg))))))"

section \<open>Receive slots\<close>

text \<open>\<open>recv_slot\<close>: a slot's backing buffer and offset; a split slot without its buffer panics.\<close>

definition recv_slot :: "hord_stream \<Rightarrow> nat \<Rightarrow> (registered_buffer \<times> nat) res" where
  "recv_slot s slot =
     (if slot < split_base s then Inr (recv s, slot * msg_size s)
      else case split_recv s of
             None \<Rightarrow> Inl Panic
           | Some buf \<Rightarrow> Inr (buf, (slot - split_base s) * msg_size s))"

definition post_recv_slot :: "nat \<Rightarrow> hord_stream \<Rightarrow> unit res \<times> hord_stream" where
  "post_recv_slot slot s =
     (case recv_slot s slot of
        Inl e \<Rightarrow> (Inl e, s)
      | Inr (buf, off) \<Rightarrow>
          (case on_conn (post_recv (recv_wr_id slot) (rb_addr buf + off) (msg_size s mod 2 ^ 32)
                           (rb_lkey buf)) s of
             (Inl e, s') \<Rightarrow> (Inl e, s'\<lparr>peer_closed := True\<rparr>)
           | (Inr u, s') \<Rightarrow> (Inr u, s')))"

fun post_recv_slots :: "nat list \<Rightarrow> hord_stream \<Rightarrow> unit res \<times> hord_stream" where
  "post_recv_slots [] s = (Inr (), s)"
| "post_recv_slots (slot # slots) s =
     and_then (post_recv_slot slot s) (\<lambda>_. post_recv_slots slots)"

definition post_all_recvs :: "hord_stream \<Rightarrow> unit res \<times> hord_stream" where
  "post_all_recvs s = post_recv_slots [0..<split_base s] s"

definition post_split_recvs :: "hord_stream \<Rightarrow> unit res \<times> hord_stream" where
  "post_split_recvs s =
     and_then (on_conn (register_buffer (split_headroom s * msg_size s) ACCESS_LOCAL_WRITE) s)
       (\<lambda>buf s. post_recv_slots [split_base s..<split_base s + split_headroom s]
                  (s\<lparr>split_recv := Some buf\<rparr>))"

section \<open>Construction\<close>

definition post_handshake_recv :: "hord_stream \<Rightarrow> unit res \<times> hord_stream" where
  "post_handshake_recv s =
     on_conn (post_recv HS_RECV_WR_ID (rb_addr (hs_buf s)) HANDSHAKE_LEN (rb_lkey (hs_buf s))) s"

definition new_common :: "connection \<Rightarrow> hord_config \<Rightarrow> fault + hord_stream" where
  "new_common c0 cfg =
     (let msz = max_message_size cfg; rbase = recv_base_count cfg;
          slots = send_pool_size cfg + CTRL_SEND_SLOTS in
      if \<not> ENVELOPE_LEN < msz then Inl Panic
      else case register_buffer (rbase * msz) ACCESS_LOCAL_WRITE c0 of
        (Inl e, _) \<Rightarrow> Inl e
      | (Inr rbuf, c1) \<Rightarrow>
          (case register_buffer (slots * msz) ACCESS_LOCAL_WRITE c1 of
             (Inl e, _) \<Rightarrow> Inl e
           | (Inr sbuf, c2) \<Rightarrow>
               (case register_buffer (2 * HANDSHAKE_LEN) ACCESS_LOCAL_WRITE c2 of
                  (Inl e, _) \<Rightarrow> Inl e
                | (Inr hbuf, c3) \<Rightarrow>
                    (let s = \<lparr>conn = c3, recv = rbuf, split_recv = None, send = sbuf,
                              hs_buf = hbuf, msg_size = msz, payload_cap = 0,
                              recv_pool = recv_pool_size cfg, split_base = rbase,
                              split_headroom = split_slack cfg, send_pool = send_pool_size cfg,
                              send_free = rev [0..<send_pool_size cfg], send_credits = 0,
                              grant_pending = 0, ctrl_slot = send_pool_size cfg,
                              ctrl_send_busy = False, tx_stage = [], rx_ready = [],
                              peer_closed = False, cm_watch = False, peer_addr = None,
                              established_at = 0, zero_copy = cfg_zero_copy cfg,
                              writes_outstanding = 0, split_mode = cfg_split_mode cfg,
                              completed_transfers = [], peer_split_credits = 0,
                              imm_outstanding = 0, hs_got_send = False, hs_got_recv = False,
                              hs_recv_len = 0\<rparr>
                     in case and_then (post_handshake_recv s) (\<lambda>_. post_all_recvs) of
                          (Inl e, _) \<Rightarrow> Inl e
                        | (Inr _, s') \<Rightarrow> Inr s'))))"

section \<open>The first-message handshake\<close>

definition begin_handshake_send :: "hord_config \<Rightarrow> hord_stream \<Rightarrow> unit res \<times> hord_stream" where
  "begin_handshake_send cfg s =
     (case copy_in (hs_buf s) HANDSHAKE_LEN (handshake_encode (my_handshake cfg)) (smem s) of
        Inl e \<Rightarrow> (Inl e, s)
      | Inr m \<Rightarrow>
          on_conn (post_send HS_SEND_WR_ID (rb_addr (hs_buf s) + HANDSHAKE_LEN) HANDSHAKE_LEN
                     (rb_lkey (hs_buf s)))
            (s\<lparr>conn := (conn s)\<lparr>mem := m\<rparr>\<rparr>))"

text \<open>Completions the connection can still report; every reaped one makes it smaller.\<close>

definition backlog :: "connection \<Rightarrow> nat" where
  "backlog c = length (cq c) + sum_list (map length (arrivals c))"

lemma fold_nic_step_arrivals: "arrivals (fold nic_step as c) = arrivals c"
  by (induction as arbitrary: c) (simp_all add: nic_step_backlog(2))

lemma fold_nic_step_cq: "length (cq (fold nic_step as c)) \<le> length (cq c) + length as"
proof (induction as arbitrary: c)
  case (Cons a as)
  show ?case
    using order_trans [OF Cons.IH, of "nic_step a c" "Suc (length (cq c)) + length as"]
      nic_step_backlog(1) [of a c] by simp
qed simp

lemmas fold_nic_step_backlog = fold_nic_step_cq fold_nic_step_arrivals

lemma backlog_settle: "backlog (settle c) \<le> backlog c"
  by (auto simp: backlog_def settle_def fold_nic_step_backlog split: list.split)

lemma poll_backlog:
  assumes "fst (poll c) = Inr (Some wc)"
  shows "backlog (snd (poll c)) < backlog c"
proof -
  from assms have "backlog (snd (poll c)) < backlog (settle c)"
    by (auto simp: poll_def Let_def backlog_def split: list.splits cq_entry.splits)
  then show ?thesis using backlog_settle [of c] by simp
qed

function poll_handshake_loop :: "hord_stream \<Rightarrow> bool res \<times> hord_stream" where
  "poll_handshake_loop s =
     (if hs_got_recv s \<and> hs_got_send s then (Inr True, s)
      else (let p = poll (conn s); s1 = s\<lparr>conn := snd p\<rparr> in
            case fst p of
              Inl e \<Rightarrow> (Inl e, s1)
            | Inr None \<Rightarrow> (Inr False, s1)
            | Inr (Some wc) \<Rightarrow>
                if \<not> is_success wc then (Inl (io_err ErrOther), s1)
                else if wc_wr_id wc = HS_RECV_WR_ID
                then poll_handshake_loop
                       (s1\<lparr>hs_got_recv := True, hs_recv_len := unat (wc_byte_len wc)\<rparr>)
                else if wc_wr_id wc = HS_SEND_WR_ID
                then poll_handshake_loop (s1\<lparr>hs_got_send := True\<rparr>)
                else (Inl (io_err ErrOther), s1)))"
  by pat_completeness auto
termination
  by (relation "measure (\<lambda>s. backlog (conn s))") (auto simp: poll_backlog)

declare poll_handshake_loop.simps [simp del]

definition poll_handshake :: "hord_stream \<Rightarrow> handshake option res \<times> hord_stream" where
  "poll_handshake s =
     and_then (poll_handshake_loop s) (\<lambda>complete s.
       if \<not> complete then (Inr None, s)
       else let n = min (hs_recv_len s) HANDSHAKE_LEN in
            case copy_out (hs_buf s) 0 HANDSHAKE_LEN (smem s) of
              Inl e \<Rightarrow> (Inl e, s)
            | Inr buf \<Rightarrow> (case handshake_decode (take n buf) of
                            Inl e \<Rightarrow> (Inl e, s) | Inr h \<Rightarrow> (Inr (Some h), s)))"

fun exchange_loop :: "nat \<Rightarrow> hord_stream \<Rightarrow> handshake res \<times> hord_stream" where
  "exchange_loop budget s =
     and_then (poll_handshake s) (\<lambda>peer s.
       case peer of
         Some h \<Rightarrow> (Inr h, s)
       | None \<Rightarrow> (case budget of 0 \<Rightarrow> (Inl (io_err TimedOut), s)
                              | Suc b \<Rightarrow> exchange_loop b s))"

declare exchange_loop.simps [simp del]

definition exchange_handshake ::
  "nat \<Rightarrow> hord_config \<Rightarrow> hord_stream \<Rightarrow> handshake res \<times> hord_stream" where
  "exchange_handshake budget cfg s =
     and_then (begin_handshake_send cfg s) (\<lambda>_. exchange_loop budget)"

definition apply_peer :: "nat \<Rightarrow> handshake \<Rightarrow> hord_stream \<Rightarrow> unit res \<times> hord_stream" where
  "apply_peer now peer s =
     (let effective = min (msg_size s) (unat (hs_max_message_size peer)) in
      if effective \<le> ENVELOPE_LEN then (Inl (io_err InvalidData), s)
      else
        let s1 = s\<lparr>payload_cap := effective - ENVELOPE_LEN,
                   send_credits := unat (hs_max_recv_buffers peer),
                   zero_copy := (zero_copy s \<and> zero_copy_capable peer)\<rparr>;
            s2 = s1\<lparr>split_mode := negotiate_split (split_mode s1) (zero_copy s1) peer,
                    peer_split_credits := unat (hs_split_credits peer)\<rparr>
        in and_then (if split_mode s2 \<and> split_headroom s2 > 0 then post_split_recvs s2
                     else (Inr (), s2)) (\<lambda>_ s3.
             let p = set_cm_nonblock (conn s3)
             in (Inr (), s3\<lparr>conn := snd p, cm_watch := (\<not> isl (fst p)),
                            peer_addr := id_peer_addr (snd p), established_at := now\<rparr>)))"

definition finish_handshake :: "nat \<Rightarrow> handshake \<Rightarrow> hord_stream \<Rightarrow> unit res \<times> hord_stream" where
  "finish_handshake = apply_peer"

definition accept_prepare :: "connection \<Rightarrow> hord_config \<Rightarrow> fault + hord_stream" where
  "accept_prepare c cfg =
     (case new_common c cfg of
        Inl e \<Rightarrow> Inl e
      | Inr s \<Rightarrow> (case on_conn accept_establish_begin s of
                    (Inl e, _) \<Rightarrow> Inl e | (Inr _, s') \<Rightarrow> Inr s'))"

text \<open>\<open>from_accepted\<close> and \<open>connect\<close> differ in the establishment step only.\<close>

definition from_accepted ::
  "nat \<Rightarrow> nat \<Rightarrow> connection \<Rightarrow> hord_config \<Rightarrow> fault + hord_stream" where
  "from_accepted budget now c cfg =
     (case new_common c cfg of
        Inl e \<Rightarrow> Inl e
      | Inr s \<Rightarrow>
          (case and_then (on_conn accept_finish s) (\<lambda>_ s.
                and_then (exchange_handshake budget cfg s) (\<lambda>peer. apply_peer now peer)) of
             (Inl e, _) \<Rightarrow> Inl e | (Inr _, s') \<Rightarrow> Inr s'))"

definition hord_connect ::
  "nat \<Rightarrow> nat \<Rightarrow> bool \<Rightarrow> connection \<Rightarrow> hord_config \<Rightarrow> fault + hord_stream" where
  "hord_connect budget now addr_ok c cfg =
     (case connection_connect addr_ok (cfg_cm cfg) c of
        (Inl e, _) \<Rightarrow> Inl e
      | (Inr _, c1) \<Rightarrow>
          (case new_common c1 cfg of
             Inl e \<Rightarrow> Inl e
           | Inr s \<Rightarrow>
               (case and_then (on_conn connect_finish s) (\<lambda>_ s.
                     and_then (exchange_handshake budget cfg s) (\<lambda>peer. apply_peer now peer)) of
                  (Inl e, _) \<Rightarrow> Inl e | (Inr _, s') \<Rightarrow> Inr s')))"

section \<open>Accessors\<close>

definition payload_capacity :: "hord_stream \<Rightarrow> nat" where
  "payload_capacity = payload_cap"

definition zero_copy_negotiated :: "hord_stream \<Rightarrow> bool" where
  "zero_copy_negotiated = zero_copy"

definition split_mode_negotiated :: "hord_stream \<Rightarrow> bool" where
  "split_mode_negotiated = split_mode"

definition stream_conn_meta :: "hord_stream \<Rightarrow> conn_meta" where
  "stream_conn_meta s =
     \<lparr>meta_peer_addr = peer_addr s, meta_established_at = established_at s,
      meta_zero_copy = zero_copy_negotiated s, meta_split_mode = split_mode_negotiated s\<rparr>"

definition stream_disconnect :: "hord_stream \<Rightarrow> hord_stream" where
  "stream_disconnect s = s\<lparr>conn := disconnect (conn s)\<rparr>"

definition next_completed_transfer :: "hord_stream \<Rightarrow> u32 option \<times> hord_stream" where
  "next_completed_transfer s =
     (case completed_transfers s of
        [] \<Rightarrow> (None, s) | i # ids \<Rightarrow> (Some i, s\<lparr>completed_transfers := ids\<rparr>))"

definition has_completed_transfers :: "hord_stream \<Rightarrow> bool" where
  "has_completed_transfers s \<longleftrightarrow> completed_transfers s \<noteq> []"

definition register_remote_writable ::
  "nat \<Rightarrow> hord_stream \<Rightarrow> registered_buffer res \<times> hord_stream" where
  "register_remote_writable len =
     on_conn (register_buffer len (ACCESS_LOCAL_WRITE OR ACCESS_REMOTE_WRITE))"

definition register_source :: "nat \<Rightarrow> hord_stream \<Rightarrow> registered_buffer res \<times> hord_stream" where
  "register_source len = on_conn (register_buffer len ACCESS_LOCAL_WRITE)"

definition stream_register_external ::
  "nat \<Rightarrow> nat \<Rightarrow> hord_stream \<Rightarrow> mr res \<times> hord_stream" where
  "stream_register_external ptr len = on_conn (register_external ptr len ACCESS_LOCAL_WRITE)"

definition is_closed :: "hord_stream \<Rightarrow> bool" where
  "is_closed = peer_closed"

definition mark_closed :: "hord_stream \<Rightarrow> hord_stream" where
  "mark_closed s = s\<lparr>peer_closed := True\<rparr>"

text \<open>\<open>ConnTeardown::force_teardown\<close> and the stream's \<open>Drop\<close>: shut the connection down.\<close>

definition force_teardown :: "hord_stream \<Rightarrow> hord_stream" where
  "force_teardown s = s\<lparr>conn := shutdown (conn s)\<rparr>"

section \<open>Completion processing\<close>

definition reclaim_send :: "u64 \<Rightarrow> hord_stream \<Rightarrow> hord_stream" where
  "reclaim_send wr_id s =
     (if is_ctrl_send wr_id then s\<lparr>ctrl_send_busy := False\<rparr>
      else s\<lparr>send_free := send_free s @ [slot_of wr_id]\<rparr>)"

definition handle_recv :: "completion \<Rightarrow> hord_stream \<Rightarrow> unit res \<times> hord_stream" where
  "handle_recv wc s =
     (let slot = slot_of (wc_wr_id wc) in
      case recv_slot s slot of
        Inl e \<Rightarrow> (Inl e, s)
      | Inr (buf, off) \<Rightarrow>
          (let n = min (unat (wc_byte_len wc)) (msg_size s) in
           if n < ENVELOPE_LEN then (Inl (io_err InvalidData), s)
           else case copy_out buf off ENVELOPE_LEN (smem s) of
                  Inl e \<Rightarrow> (Inl e, s)
                | Inr hdr \<Rightarrow>
                    (case envelope_decode hdr of
                       Inl e \<Rightarrow> (Inl e, s)
                     | Inr env \<Rightarrow>
                         (let s1 = s\<lparr>send_credits :=
                                       sat_add32 (send_credits s) (unat (env_credits env))\<rparr>;
                              avail = n - ENVELOPE_LEN;
                              plen = (if is_credit_only env then 0
                                      else min (unat (env_length env)) avail);
                              start = off + ENVELOPE_LEN
                          in if plen > 0
                             then (Inr (), s1\<lparr>rx_ready := rx_ready s1 @
                                     [\<lparr>rm_slot = slot, rm_start = start, rm_end = start + plen\<rparr>]\<rparr>)
                             else if is_credit_only env then post_recv_slot slot s1
                             else and_then (post_recv_slot slot s1) (\<lambda>_ s2.
                                    (Inr (), s2\<lparr>grant_pending :=
                                                  wrap_add32 (grant_pending s2) 1\<rparr>))))))"

definition handle_completion :: "completion \<Rightarrow> hord_stream \<Rightarrow> unit res \<times> hord_stream" where
  "handle_completion wc s =
     (if wc_opcode wc = OpRecvRdmaWithImm
      then if \<not> is_success wc then (Inr (), s\<lparr>peer_closed := True\<rparr>)
           else post_recv_slot (slot_of (wc_wr_id wc))
                  (s\<lparr>completed_transfers := completed_transfers s @ [wc_imm_data wc]\<rparr>)
      else if is_write (wc_wr_id wc)
      then (let s1 = s\<lparr>writes_outstanding := writes_outstanding s - 1\<rparr>;
                s2 = (if is_imm_write (wc_wr_id wc)
                      then s1\<lparr>imm_outstanding := imm_outstanding s1 - 1\<rparr> else s1)
            in (Inr (), if is_success wc then s2 else s2\<lparr>peer_closed := True\<rparr>))
      else if \<not> is_success wc
      then (let s1 = s\<lparr>peer_closed := True\<rparr>
            in (Inr (), if is_send (wc_wr_id wc) then reclaim_send (wc_wr_id wc) s1 else s1))
      else if is_send (wc_wr_id wc) then (Inr (), reclaim_send (wc_wr_id wc) s)
      else handle_recv wc s)"

definition poll_cm_disconnect :: "hord_stream \<Rightarrow> bool res \<times> hord_stream" where
  "poll_cm_disconnect s =
     (if \<not> cm_watch s then (Inr False, s)
      else and_then (on_conn check_disconnect s) (\<lambda>gone s.
             if gone then (Inr True, s\<lparr>peer_closed := True\<rparr>) else (Inr False, s)))"

text \<open>\<open>pump(false)\<close>: at most one completion.\<close>

definition pump_nb :: "hord_stream \<Rightarrow> bool res \<times> hord_stream" where
  "pump_nb s =
     and_then (on_conn poll s) (\<lambda>wc s.
       case wc of None \<Rightarrow> (Inr False, s)
       | Some wc \<Rightarrow> and_then (handle_completion wc s) (\<lambda>_ s. (Inr True, s)))"

section \<open>Sending\<close>

definition can_send_data :: "hord_stream \<Rightarrow> bool" where
  "can_send_data s \<longleftrightarrow> \<not> peer_closed s \<and> send_free s \<noteq> [] \<and> send_credits s > 0"

definition post_into ::
  "nat \<Rightarrow> u64 \<Rightarrow> envelope \<Rightarrow> bytes \<Rightarrow> hord_stream \<Rightarrow> unit res \<times> hord_stream" where
  "post_into slot wr_id env payload s =
     (let off = slot * msg_size s in
      case copy_in (send s) off (envelope_bytes env) (smem s) of
        Inl e \<Rightarrow> (Inl e, s)
      | Inr m1 \<Rightarrow>
          (case copy_in (send s) (off + ENVELOPE_LEN) payload m1 of
             Inl e \<Rightarrow> (Inl e, s\<lparr>conn := (conn s)\<lparr>mem := m1\<rparr>\<rparr>)
           | Inr m2 \<Rightarrow>
               on_conn (post_send wr_id (rb_addr (send s) + off)
                          ((ENVELOPE_LEN + length payload) mod 2 ^ 32) (rb_lkey (send s)))
                 (s\<lparr>conn := (conn s)\<lparr>mem := m2\<rparr>\<rparr>)))"

definition post_data_message :: "bytes \<Rightarrow> hord_stream \<Rightarrow> unit res \<times> hord_stream" where
  "post_data_message payload s =
     (if send_free s = [] then (Inl Panic, s)
      else
        let slot = last (send_free s);
            grant = min (grant_pending s) 65535;
            env = \<lparr>env_length = of_nat (length payload), env_credits = of_nat grant,
                   env_flags = 0\<rparr>
        in case post_into slot (send_wr_id slot) env payload
                  (s\<lparr>send_free := butlast (send_free s)\<rparr>) of
             (Inl Panic, s1) \<Rightarrow> (Inl Panic, s1)
           | (Inl e, s1) \<Rightarrow> (Inl e, s1\<lparr>send_free := send_free s1 @ [slot], peer_closed := True\<rparr>)
           | (Inr _, s1) \<Rightarrow> (Inr (), s1\<lparr>send_credits := wrap_sub32 (send_credits s1) 1,
                                       grant_pending := wrap_sub32 (grant_pending s1) grant\<rparr>))"

definition send_credit_return :: "hord_stream \<Rightarrow> unit res \<times> hord_stream" where
  "send_credit_return s =
     (if ctrl_send_busy s \<or> peer_closed s \<or> grant_pending s = 0 then (Inr (), s)
      else
        let grant = min (grant_pending s) 65535;
            env = \<lparr>env_length = 0, env_credits = of_nat grant, env_flags = CREDIT_ONLY\<rparr>
        in case post_into (ctrl_slot s) (ctrl_send_wr_id (ctrl_slot s)) env [] s of
             (Inl Panic, s1) \<Rightarrow> (Inl Panic, s1)
           | (Inl e, s1) \<Rightarrow> (Inl e, s1\<lparr>peer_closed := True\<rparr>)
           | (Inr _, s1) \<Rightarrow> (Inr (), s1\<lparr>ctrl_send_busy := True,
                                       grant_pending := wrap_sub32 (grant_pending s1) grant\<rparr>))"

definition maybe_return_credits :: "nat \<Rightarrow> hord_stream \<Rightarrow> unit res \<times> hord_stream" where
  "maybe_return_credits threshold s =
     (if grant_pending s \<ge> threshold then send_credit_return s else (Inr (), s))"

definition proactive_threshold :: "hord_stream \<Rightarrow> nat" where
  "proactive_threshold s = max ((recv_pool s mod 2 ^ 32) div 4) 1"

definition return_owed_credits :: "bool \<Rightarrow> hord_stream \<Rightarrow> unit res \<times> hord_stream" where
  "return_owed_credits urgent s =
     maybe_return_credits (if urgent then 1 else proactive_threshold s) s"

definition sends_outstanding :: "hord_stream \<Rightarrow> bool" where
  "sends_outstanding s \<longleftrightarrow> length (send_free s) < send_pool s"

definition writes_pending :: "hord_stream \<Rightarrow> bool" where
  "writes_pending s \<longleftrightarrow> writes_outstanding s > 0"

section \<open>What a configuration advertises\<close>


lemma my_handshake_flags:
  "hs_flags (my_handshake cfg) =
     (if cfg_zero_copy cfg then ZERO_COPY_CAPABLE else 0)
     OR (if cfg_split_mode cfg \<and> cfg_zero_copy cfg \<and> 0 < cfg_split_credits cfg then SPLIT_MODE_CAPABLE else 0)"
  "hs_split_credits (my_handshake cfg) =
     (if cfg_split_mode cfg \<and> cfg_zero_copy cfg \<and> 0 < cfg_split_credits cfg
      then of_nat (min (cfg_split_credits cfg) 65535) else 0)"
proof -
  have "(0 < (of_nat (min n 65535) :: u16)) = (0 < n)" for n
    by (simp add: word_less_nat_alt unat_of_nat take_bit_eq_mod min_def)
  then show "hs_flags (my_handshake cfg) =
      (if cfg_zero_copy cfg then ZERO_COPY_CAPABLE else 0)
      OR (if cfg_split_mode cfg \<and> cfg_zero_copy cfg \<and> 0 < cfg_split_credits cfg then SPLIT_MODE_CAPABLE else 0)"
    "hs_split_credits (my_handshake cfg) =
      (if cfg_split_mode cfg \<and> cfg_zero_copy cfg \<and> 0 < cfg_split_credits cfg
       then of_nat (min (cfg_split_credits cfg) 65535) else 0)"
    by (auto simp: my_handshake_def Let_def with_split_credits_def with_split_mode_def with_zero_copy_def
        handshake_new_def ZERO_COPY_CAPABLE_def SPLIT_MODE_CAPABLE_def)
qed

lemma my_handshake_zero_copy: "zero_copy_capable (my_handshake cfg) = cfg_zero_copy cfg"
  by (simp add: zero_copy_capable_def my_handshake_flags ZERO_COPY_CAPABLE_def SPLIT_MODE_CAPABLE_def)

lemma my_handshake_split:
  "split_mode_capable (my_handshake cfg) = (cfg_split_mode cfg \<and> cfg_zero_copy cfg \<and> 0 < cfg_split_credits cfg)"
  "(0 < hs_split_credits (my_handshake cfg)) = (cfg_split_mode cfg \<and> cfg_zero_copy cfg \<and> 0 < cfg_split_credits cfg)"
proof -
  show "split_mode_capable (my_handshake cfg) = (cfg_split_mode cfg \<and> cfg_zero_copy cfg \<and> 0 < cfg_split_credits cfg)"
    by (simp add: split_mode_capable_def my_handshake_flags ZERO_COPY_CAPABLE_def SPLIT_MODE_CAPABLE_def)
  show "(0 < hs_split_credits (my_handshake cfg)) = (cfg_split_mode cfg \<and> cfg_zero_copy cfg \<and> 0 < cfg_split_credits cfg)"
    by (simp add: my_handshake_flags word_less_nat_alt unat_of_nat take_bit_eq_mod min_def)
qed

lemma my_handshake_window: "unat (hs_max_recv_buffers (my_handshake cfg)) = recv_pool_size cfg mod 2 ^ 16"
  by (simp add: my_handshake_def Let_def with_split_credits_def with_split_mode_def with_zero_copy_def
      handshake_new_def unat_of_nat take_bit_eq_mod)

end
