(* ===== verification/Stream_Ops.thy ===== *)
theory Stream_Ops
  imports Hord_Stream
begin

text \<open>
  The looping operations of \<open>hord-stream/src/stream.rs\<close>: draining the completion queue,
  the non-blocking \<open>try_write\<close>, \<open>try_flush_stage\<close> and \<open>try_read\<close>, and the blocking facades
  (\<open>pump(true)\<close>, \<open>Read\<close>, \<open>Write\<close>, \<open>flush\<close>, \<open>poll_completed_transfer\<close>). A loop that ends
  for every behaviour of the device is a terminating function; a busy-wait that may spin
  forever is a \<open>partial_function\<close> whose value \<open>None\<close> means that it does not return.
\<close>

section \<open>What the posting primitives change\<close>

lemma on_conn_eq: "on_conn f s = (fst (f (conn s)), s\<lparr>conn := snd (f (conn s))\<rparr>)"
  by (simp add: on_conn_def split: prod.split)

text \<open>The address and the receive work request of a slot.\<close>

definition slot_buf :: "hord_stream \<Rightarrow> nat \<Rightarrow> registered_buffer" where
  "slot_buf s slot = (if slot < split_base s then recv s else the (split_recv s))"

definition slot_off :: "hord_stream \<Rightarrow> nat \<Rightarrow> nat" where
  "slot_off s slot = (if slot < split_base s then slot else slot - split_base s) * msg_size s"

definition slot_wr :: "hord_stream \<Rightarrow> nat \<Rightarrow> recv_wr" where
  "slot_wr s slot =
     \<lparr>rw_id = recv_wr_id slot, rw_addr = rb_addr (slot_buf s slot) + slot_off s slot,
      rw_len = msg_size s mod 2 ^ 32, rw_lkey = rb_lkey (slot_buf s slot)\<rparr>"

lemma recv_slot_cases:
  "recv_slot s slot =
     (if slot < split_base s \<or> split_recv s \<noteq> None then Inr (slot_buf s slot, slot_off s slot)
      else Inl Panic)"
  by (auto simp: recv_slot_def slot_buf_def slot_off_def)

lemma guard_post_cases:
  obtains (ok) fs where "guard_post enq c = (Inr (), enq (c\<lparr>post_faults := fs\<rparr>))"
  | (refused) fs where "guard_post enq c = (Inl (io_err ErrOther), c\<lparr>post_faults := fs\<rparr>)"
proof -
  obtain bad fs where nf: "next_fault (post_faults c) = (bad, fs)" by fastforce
  show thesis
  proof (cases bad)
    case True
    then have "guard_post enq c = (Inl (io_err ErrOther), c\<lparr>post_faults := fs\<rparr>)"
      by (simp add: guard_post_def nf)
    then show thesis by (rule refused)
  next
    case False
    then have "guard_post enq c = (Inr (), enq (c\<lparr>post_faults := fs\<rparr>))"
      by (simp add: guard_post_def nf)
    then show thesis by (rule ok)
  qed
qed

text \<open>A verb is refused, leaving the queues alone, or its work request is enqueued.\<close>

lemma with_qp_post_cases:
  obtains (ok) fs where "with_qp (guard_post enq) c = (Inr (), enq (c\<lparr>post_faults := fs\<rparr>))"
      "qp c \<noteq> None"
  | (refused) fs where
      "with_qp (guard_post enq) c = (Inl (io_err ErrOther), c\<lparr>post_faults := fs\<rparr>)"
proof (cases "qp c")
  case None
  then have "with_qp (guard_post enq) c = (Inl (io_err ErrOther), c\<lparr>post_faults := post_faults c\<rparr>)"
    by (simp add: with_qp_def)
  then show thesis by (rule refused)
next
  case (Some st)
  then have eq: "with_qp (guard_post enq) c = guard_post enq c" by (simp add: with_qp_def)
  show thesis
  proof (cases rule: guard_post_cases [of enq c, case_names posted rejected])
    case (posted fs)
    then have "with_qp (guard_post enq) c = (Inr (), enq (c\<lparr>post_faults := fs\<rparr>))"
      by (simp only: eq)
    then show thesis by (rule ok) (simp add: Some)
  next
    case (rejected fs)
    then have "with_qp (guard_post enq) c = (Inl (io_err ErrOther), c\<lparr>post_faults := fs\<rparr>)"
      by (simp only: eq)
    then show thesis by (rule refused)
  qed
qed

lemma post_recv_cases:
  obtains (ok) fs where
      "post_recv i a l k c = (Inr (), c\<lparr>post_faults := fs, rq := rq c @
         [\<lparr>rw_id = i, rw_addr = a, rw_len = l, rw_lkey = k\<rparr>]\<rparr>)" "qp c \<noteq> None"
  | (refused) fs where "post_recv i a l k c = (Inl (io_err ErrOther), c\<lparr>post_faults := fs\<rparr>)"
proof (cases rule: with_qp_post_cases [of "\<lambda>c. c\<lparr>rq := rq c @ [\<lparr>rw_id = i, rw_addr = a,
      rw_len = l, rw_lkey = k\<rparr>]\<rparr>" c, case_names posted rejected])
  case (posted fs)
  show thesis by (rule ok [of fs]) (simp_all add: post_recv_def posted)
next
  case (rejected fs)
  show thesis by (rule refused [of fs]) (simp add: post_recv_def rejected)
qed

lemma post_recv_slot_eq:
  assumes "slot < split_base s \<or> split_recv s \<noteq> None"
  shows "post_recv_slot slot s =
     (let p = post_recv (recv_wr_id slot) (rb_addr (slot_buf s slot) + slot_off s slot)
                (msg_size s mod 2 ^ 32) (rb_lkey (slot_buf s slot)) (conn s)
      in case fst p of Inl e \<Rightarrow> (Inl e, s\<lparr>conn := snd p, peer_closed := True\<rparr>)
         | Inr u \<Rightarrow> (Inr u, s\<lparr>conn := snd p\<rparr>))"
  using assms by (simp add: post_recv_slot_def recv_slot_cases on_conn_eq Let_def split: sum.split)

lemma post_recv_slot_cases:
  obtains (ok) fs where
      "post_recv_slot slot s =
         (Inr (), s\<lparr>conn := (conn s)\<lparr>post_faults := fs, rq := rq (conn s) @ [slot_wr s slot]\<rparr>\<rparr>)"
      "slot < split_base s \<or> split_recv s \<noteq> None" "qp (conn s) \<noteq> None"
  | (refused) fs where
      "post_recv_slot slot s =
         (Inl (io_err ErrOther), s\<lparr>conn := (conn s)\<lparr>post_faults := fs\<rparr>, peer_closed := True\<rparr>)"
  | (panic) "post_recv_slot slot s = (Inl Panic, s)" "split_base s \<le> slot" "split_recv s = None"
proof (cases "slot < split_base s \<or> split_recv s \<noteq> None")
  case False
  then show thesis by (intro panic) (auto simp: post_recv_slot_def recv_slot_cases)
next
  case True
  note eq = post_recv_slot_eq [OF True]
  show thesis
  proof (cases rule: post_recv_cases [of "recv_wr_id slot"
        "rb_addr (slot_buf s slot) + slot_off s slot" "msg_size s mod 2 ^ 32"
        "rb_lkey (slot_buf s slot)" "conn s", case_names posted rejected])
    case (posted fs)
    then have "post_recv_slot slot s =
        (Inr (), s\<lparr>conn := (conn s)\<lparr>post_faults := fs, rq := rq (conn s) @ [slot_wr s slot]\<rparr>\<rparr>)"
      by (simp add: eq slot_wr_def)
    then show thesis using True posted(2) by (rule ok)
  next
    case (rejected fs)
    then have "post_recv_slot slot s =
        (Inl (io_err ErrOther), s\<lparr>conn := (conn s)\<lparr>post_faults := fs\<rparr>, peer_closed := True\<rparr>)"
      by (simp add: eq)
    then show thesis by (rule refused)
  qed
qed

lemma post_send_cases:
  obtains (ok) fs where
      "post_send i a l k c = (Inr (), c\<lparr>post_faults := fs, sq := sq c @
         [\<lparr>sw_id = i, sw_op = SendOp,
           sw_sges = [\<lparr>sge_addr = a, sge_length = l, sge_lkey = k\<rparr>]\<rparr>]\<rparr>)" "qp c \<noteq> None"
  | (refused) fs where "post_send i a l k c = (Inl (io_err ErrOther), c\<lparr>post_faults := fs\<rparr>)"
proof (cases rule: with_qp_post_cases [of "\<lambda>c. c\<lparr>sq := sq c @ [\<lparr>sw_id = i, sw_op = SendOp,
      sw_sges = [\<lparr>sge_addr = a, sge_length = l, sge_lkey = k\<rparr>]\<rparr>]\<rparr>" c,
      case_names posted rejected])
  case (posted fs)
  show thesis by (rule ok [of fs]) (simp_all add: post_send_def posted)
next
  case (rejected fs)
  show thesis by (rule refused [of fs]) (simp add: post_send_def rejected)
qed

text \<open>A message of \<open>n\<close> payload bytes fits send slot \<open>slot\<close>.\<close>

definition send_fits :: "hord_stream \<Rightarrow> nat \<Rightarrow> nat \<Rightarrow> bool" where
  "send_fits s slot n \<longleftrightarrow> slot * msg_size s + ENVELOPE_LEN + n \<le> rb_len (send s)"

definition send_addr :: "hord_stream \<Rightarrow> nat \<Rightarrow> nat" where
  "send_addr s slot = rb_addr (send s) + slot * msg_size s"

definition send_wr_of :: "hord_stream \<Rightarrow> nat \<Rightarrow> u64 \<Rightarrow> nat \<Rightarrow> send_wr" where
  "send_wr_of s slot i n =
     \<lparr>sw_id = i, sw_op = SendOp,
      sw_sges = [\<lparr>sge_addr = send_addr s slot, sge_length = (ENVELOPE_LEN + n) mod 2 ^ 32,
                  sge_lkey = rb_lkey (send s)\<rparr>]\<rparr>"

lemma copy_in_two:
  assumes "off + length xs + length ys \<le> rb_len b"
  shows "copy_in b off xs m = Inr (write_mem m (rb_addr b + off) xs)"
    and "copy_in b (off + length xs) ys (write_mem m (rb_addr b + off) xs)
         = Inr (write_mem m (rb_addr b + off) (xs @ ys))"
proof -
  show "copy_in b off xs m = Inr (write_mem m (rb_addr b + off) xs)"
    using assms by (simp add: copy_in_def)
  have "copy_in b (off + length xs) ys (write_mem m (rb_addr b + off) xs)
        = Inr (write_mem (write_mem m (rb_addr b + off) xs) (rb_addr b + off + length xs) ys)"
    using assms by (simp add: copy_in_def add.assoc)
  then show "copy_in b (off + length xs) ys (write_mem m (rb_addr b + off) xs)
         = Inr (write_mem m (rb_addr b + off) (xs @ ys))"
    by (simp only: write_mem_append)
qed

lemma post_into_eq:
  assumes "send_fits s slot (length payload)"
  shows "post_into slot i e payload s =
     on_conn (post_send i (send_addr s slot) ((ENVELOPE_LEN + length payload) mod 2 ^ 32)
                (rb_lkey (send s)))
       (s\<lparr>conn := (conn s)\<lparr>mem := write_mem (smem s) (send_addr s slot)
                                   (envelope_bytes e @ payload)\<rparr>\<rparr>)"
  using assms copy_in_two [of "slot * msg_size s" "envelope_bytes e" payload "send s" "smem s"]
  by (simp add: post_into_def send_fits_def send_addr_def Let_def)

lemma post_into_cases:
  assumes "send_fits s slot (length payload)"
  obtains (ok) fs where
      "post_into slot i e payload s = (Inr (), s\<lparr>conn := (conn s)\<lparr>
         mem := write_mem (smem s) (send_addr s slot) (envelope_bytes e @ payload),
         post_faults := fs, sq := sq (conn s) @ [send_wr_of s slot i (length payload)]\<rparr>\<rparr>)"
  | (refused) fs where
      "post_into slot i e payload s = (Inl (io_err ErrOther), s\<lparr>conn := (conn s)\<lparr>
         mem := write_mem (smem s) (send_addr s slot) (envelope_bytes e @ payload),
         post_faults := fs\<rparr>\<rparr>)"
proof (rule post_send_cases [of i "send_addr s slot" "(ENVELOPE_LEN + length payload) mod 2 ^ 32"
        "rb_lkey (send s)"
        "(conn s)\<lparr>mem := write_mem (smem s) (send_addr s slot) (envelope_bytes e @ payload)\<rparr>"])
  fix fs
  assume "post_send i (send_addr s slot) ((ENVELOPE_LEN + length payload) mod 2 ^ 32)
            (rb_lkey (send s))
            ((conn s)\<lparr>mem := write_mem (smem s) (send_addr s slot) (envelope_bytes e @ payload)\<rparr>) =
          (Inr (), (conn s)\<lparr>mem := write_mem (smem s) (send_addr s slot) (envelope_bytes e @ payload)\<rparr>
            \<lparr>post_faults := fs, sq := sq ((conn s)\<lparr>mem := write_mem (smem s) (send_addr s slot)
               (envelope_bytes e @ payload)\<rparr>) @ [\<lparr>sw_id = i, sw_op = SendOp,
           sw_sges = [\<lparr>sge_addr = send_addr s slot,
             sge_length = (ENVELOPE_LEN + length payload) mod 2 ^ 32,
             sge_lkey = rb_lkey (send s)\<rparr>]\<rparr>]\<rparr>)"
  then show thesis
    using assms by (intro ok [of fs]) (simp add: post_into_eq on_conn_eq send_wr_of_def)
next
  fix fs
  assume "post_send i (send_addr s slot) ((ENVELOPE_LEN + length payload) mod 2 ^ 32)
            (rb_lkey (send s))
            ((conn s)\<lparr>mem := write_mem (smem s) (send_addr s slot) (envelope_bytes e @ payload)\<rparr>) =
          (Inl (io_err ErrOther),
            (conn s)\<lparr>mem := write_mem (smem s) (send_addr s slot) (envelope_bytes e @ payload)\<rparr>
              \<lparr>post_faults := fs\<rparr>)"
  then show thesis
    using assms by (intro refused [of fs]) (simp add: post_into_eq on_conn_eq)
qed

text \<open>Outside the sizing contract a copy panics or the post goes ahead; either way only the
  connection changes.\<close>

lemma post_into_frame:
  "\<exists>c. snd (post_into slot i e payload s) = s\<lparr>conn := c\<rparr>"
proof -
  have "\<exists>c. s = s\<lparr>conn := c\<rparr>" by (rule exI [of _ "conn s"]) simp
  then show ?thesis
    by (auto simp: post_into_def on_conn_eq Let_def split: sum.split)
qed

lemma post_into_frameE:
  obtains c where "snd (post_into slot i e payload s) = s\<lparr>conn := c\<rparr>"
  using post_into_frame by blast

section \<open>Draining the completion queue\<close>

lemma post_recv_slot_queue [frame_simps]:
  "cq (conn (snd (post_recv_slot slot s))) = cq (conn s)"
  "arrivals (conn (snd (post_recv_slot slot s))) = arrivals (conn s)"
  by (cases rule: post_recv_slot_cases [of slot s]; simp)+

text \<open>
  A receive completion ends in one of four ways: it is refused (a runt, or a copy outside
  the buffer), its payload is queued for the reader, it is a credit return whose slot is
  posted again, or it is an empty data message whose slot is posted again and whose credit
  is owed back.
\<close>

lemma handle_recv_cases:
  obtains (fault) f where "handle_recv wc s = (Inl f, s)"
  | (data) off n e cr where "recv_slot s (slot_of (wc_wr_id wc)) = Inr (slot_buf s (slot_of (wc_wr_id wc)), off)"
      "n = min (unat (wc_byte_len wc)) (msg_size s)" "ENVELOPE_LEN \<le> n"
      "copy_out (slot_buf s (slot_of (wc_wr_id wc))) off ENVELOPE_LEN (smem s) = Inr (envelope_bytes e)"
      "\<not> is_credit_only e" "0 < min (unat (env_length e)) (n - ENVELOPE_LEN)"
      "cr = sat_add32 (send_credits s) (unat (env_credits e))"
      "handle_recv wc s = (Inr (), s\<lparr>send_credits := cr, rx_ready := rx_ready s @
         [\<lparr>rm_slot = slot_of (wc_wr_id wc), rm_start = off + ENVELOPE_LEN,
           rm_end = off + ENVELOPE_LEN + min (unat (env_length e)) (n - ENVELOPE_LEN)\<rparr>]\<rparr>)"
  | (credit) off n e cr where "recv_slot s (slot_of (wc_wr_id wc)) = Inr (slot_buf s (slot_of (wc_wr_id wc)), off)"
      "n = min (unat (wc_byte_len wc)) (msg_size s)" "ENVELOPE_LEN \<le> n"
      "copy_out (slot_buf s (slot_of (wc_wr_id wc))) off ENVELOPE_LEN (smem s) = Inr (envelope_bytes e)"
      "is_credit_only e"
      "cr = sat_add32 (send_credits s) (unat (env_credits e))"
      "handle_recv wc s = post_recv_slot (slot_of (wc_wr_id wc)) (s\<lparr>send_credits := cr\<rparr>)"
  | (empty) off n e cr where "recv_slot s (slot_of (wc_wr_id wc)) = Inr (slot_buf s (slot_of (wc_wr_id wc)), off)"
      "n = min (unat (wc_byte_len wc)) (msg_size s)" "ENVELOPE_LEN \<le> n"
      "copy_out (slot_buf s (slot_of (wc_wr_id wc))) off ENVELOPE_LEN (smem s) = Inr (envelope_bytes e)"
      "\<not> is_credit_only e" "min (unat (env_length e)) (n - ENVELOPE_LEN) = 0"
      "cr = sat_add32 (send_credits s) (unat (env_credits e))"
      "handle_recv wc s = and_then (post_recv_slot (slot_of (wc_wr_id wc)) (s\<lparr>send_credits := cr\<rparr>))
         (\<lambda>_ s2. (Inr (), s2\<lparr>grant_pending := wrap_add32 (grant_pending s2) 1\<rparr>))"
proof (cases "recv_slot s (slot_of (wc_wr_id wc))")
  case (Inl f)
  then show thesis by (intro fault [of f]) (simp add: handle_recv_def Let_def)
next
  case (Inr bo)
  let ?sl = "slot_of (wc_wr_id wc)"
  define n where "n = min (unat (wc_byte_len wc)) (msg_size s)"
  obtain off where rs: "recv_slot s ?sl = Inr (slot_buf s ?sl, off)"
    using Inr by (auto simp: recv_slot_cases split: if_splits)
  show thesis
  proof (cases "n < ENVELOPE_LEN")
    case True
    then have "handle_recv wc s = (Inl (io_err InvalidData), s)"
      by (simp add: handle_recv_def Let_def rs n_def [symmetric])
    then show thesis by (rule fault)
  next
    case big: False
    show thesis
    proof (cases "copy_out (slot_buf s ?sl) off ENVELOPE_LEN (smem s)")
      case (Inl f)
      then have "handle_recv wc s = (Inl f, s)"
        using big by (simp add: handle_recv_def Let_def rs n_def [symmetric])
      then show thesis by (rule fault)
    next
      case (Inr hdr)
      then have "length hdr = ENVELOPE_LEN" by (auto simp: copy_out_def split: if_splits)
      then obtain e where e: "envelope_decode hdr = Inr e"
        by (simp add: envelope_decode_def)
      with \<open>length hdr = ENVELOPE_LEN\<close> have hdr: "hdr = envelope_bytes e"
        using env.dec_iff_enc by blast
      define plen where "plen = min (unat (env_length e)) (n - ENVELOPE_LEN)"
      define s1 where "s1 = s\<lparr>send_credits := sat_add32 (send_credits s) (unat (env_credits e))\<rparr>"
      have eq: "handle_recv wc s =
        (if \<not> is_credit_only e \<and> 0 < plen
         then (Inr (), s1\<lparr>rx_ready := rx_ready s1 @ [\<lparr>rm_slot = ?sl, rm_start = off + ENVELOPE_LEN,
                 rm_end = off + ENVELOPE_LEN + plen\<rparr>]\<rparr>)
         else if is_credit_only e then post_recv_slot ?sl s1
         else and_then (post_recv_slot ?sl s1)
           (\<lambda>_ s2. (Inr (), s2\<lparr>grant_pending := wrap_add32 (grant_pending s2) 1\<rparr>)))"
        using big Inr e
        by (simp add: handle_recv_def Let_def rs n_def [symmetric] plen_def s1_def)
      have n: "ENVELOPE_LEN \<le> n" using big by simp
      note pre = rs n_def n Inr [unfolded hdr]
      consider "is_credit_only e" | "\<not> is_credit_only e" "0 < plen" | "\<not> is_credit_only e" "plen = 0"
        by blast
      then show thesis
      proof cases
        case 1
        then show thesis by (intro credit [OF pre]) (simp_all add: eq s1_def)
      next
        case 2
        then show thesis
          by (intro data [OF pre]) (simp_all add: eq s1_def plen_def [symmetric])
      next
        case 3
        then show thesis
          by (intro empty [OF pre]) (simp_all add: eq s1_def plen_def [symmetric])
      qed
    qed
  qed
qed

lemma handle_recv_queue [frame_simps]:
  "cq (conn (snd (handle_recv wc s))) = cq (conn s)"
  "arrivals (conn (snd (handle_recv wc s))) = arrivals (conn s)"
  by (cases rule: handle_recv_cases [of wc s]; simp add: frame_simps snd_and_then split: sum.split)+

lemma handle_completion_queue [frame_simps]:
  "cq (conn (snd (handle_completion wc s))) = cq (conn s)"
  "arrivals (conn (snd (handle_completion wc s))) = arrivals (conn s)"
  by (simp_all add: handle_completion_def Let_def reclaim_send_def frame_simps)

lemma pump_nb_backlog:
  assumes "fst (pump_nb s) = Inr True"
  shows "backlog (conn (snd (pump_nb s))) < backlog (conn s)"
proof -
  from assms obtain wc where wc: "fst (poll (conn s)) = Inr (Some wc)"
    by (auto simp: pump_nb_def on_conn_eq fst_and_then split: sum.splits option.splits)
  then have "backlog (conn (snd (pump_nb s))) = backlog (snd (poll (conn s)))"
    by (simp add: pump_nb_def on_conn_eq snd_and_then backlog_def frame_simps split: sum.split)
  then show ?thesis using poll_backlog [OF wc] by simp
qed

function drain_loop :: "nat \<Rightarrow> hord_stream \<Rightarrow> nat res \<times> hord_stream" where
  "drain_loop n s =
     (let p = pump_nb s in
      case fst p of
        Inl e \<Rightarrow> (Inl e, snd p)
      | Inr again \<Rightarrow> if again then drain_loop (Suc n) (snd p) else (Inr n, snd p))"
  by pat_completeness auto
termination
  by (relation "measure (\<lambda>(n, s). backlog (conn s))") (auto simp: pump_nb_backlog)

declare drain_loop.simps [simp del]

definition drain_completions :: "hord_stream \<Rightarrow> nat res \<times> hord_stream" where
  "drain_completions s = drain_loop 0 s"

section \<open>Non-blocking write and flush\<close>

lemma post_data_message_ok:
  assumes "fst (post_data_message payload s) = Inr u"
  shows "send_free s \<noteq> [] \<and> send_free (snd (post_data_message payload s)) = butlast (send_free s)"
proof -
  from assms have ne: "send_free s \<noteq> []" by (auto simp: post_data_message_def)
  obtain r s1 where pi: "post_into (last (send_free s)) (send_wr_id (last (send_free s)))
      \<lparr>env_length = of_nat (length payload), env_credits = of_nat (min (grant_pending s) 65535),
       env_flags = 0\<rparr> payload (s\<lparr>send_free := butlast (send_free s)\<rparr>) = (r, s1)"
    by fastforce
  then obtain c where "s1 = s\<lparr>send_free := butlast (send_free s), conn := c\<rparr>"
    by (metis post_into_frame snd_conv)
  with assms ne pi show ?thesis
    by (auto simp: post_data_message_def Let_def split: sum.splits fault.splits)
qed

lemma post_data_message_frame [frame_simps]:
  "payload_cap (snd (post_data_message payload s)) = payload_cap s"
  "tx_stage (snd (post_data_message payload s)) = tx_stage s"
  "rx_ready (snd (post_data_message payload s)) = rx_ready s"
proof -
  obtain r s1 where pi: "post_into (last (send_free s)) (send_wr_id (last (send_free s)))
      \<lparr>env_length = of_nat (length payload), env_credits = of_nat (min (grant_pending s) 65535),
       env_flags = 0\<rparr> payload (s\<lparr>send_free := butlast (send_free s)\<rparr>) = (r, s1)"
    by fastforce
  then obtain c where s1: "s1 = s\<lparr>send_free := butlast (send_free s), conn := c\<rparr>"
    by (metis post_into_frame snd_conv)
  show "payload_cap (snd (post_data_message payload s)) = payload_cap s"
    "tx_stage (snd (post_data_message payload s)) = tx_stage s"
    "rx_ready (snd (post_data_message payload s)) = rx_ready s"
    by (simp_all add: post_data_message_def Let_def pi s1 split: sum.split fault.split)
qed

text \<open>
  Step 2 and 3 of \<open>try_write\<close>: whole messages straight from the caller's buffer, then the
  rest into the stage.
\<close>

function try_write_loop ::
  "nat \<Rightarrow> bytes \<Rightarrow> nat \<Rightarrow> hord_stream \<Rightarrow> nat res \<times> hord_stream" where
  "try_write_loop cap input consumed s =
     (if cap \<le> length input
      then if \<not> can_send_data s
           then and_then (maybe_return_credits 1 s) (\<lambda>_ s. (Inr consumed, s))
           else (let p = post_data_message (take cap input) s in
                 case fst p of
                   Inl e \<Rightarrow> (Inl e, snd p)
                 | Inr _ \<Rightarrow> try_write_loop cap (drop cap input) (consumed + cap) (snd p))
      else if input \<noteq> []
      then (Inr (consumed + length input), s\<lparr>tx_stage := tx_stage s @ input\<rparr>)
      else (Inr consumed, s))"
  by pat_completeness auto
termination
proof (relation "measure (\<lambda>(cap, input, consumed, s). length (send_free s))", goal_cases)
  case (2 cap input consumed s p u)
  then have "fst (post_data_message (take cap input) s) = Inr u" by simp
  from post_data_message_ok [OF this] 2 show ?case by simp
qed simp

declare try_write_loop.simps [simp del]

text \<open>
  \<open>cap - self.tx_stage.len()\<close> is an unsigned subtraction: a stage longer than a message
  would panic under overflow checks, and is a panic of the model.
\<close>

definition try_write :: "bytes \<Rightarrow> hord_stream \<Rightarrow> nat res \<times> hord_stream" where
  "try_write buf s =
     (if peer_closed s then (Inl (io_err BrokenPipe), s)
      else if tx_stage s \<noteq> []
      then if payload_cap s < length (tx_stage s) then (Inl Panic, s)
           else
             let need = payload_cap s - length (tx_stage s);
                 tk = min need (length buf)
             in if tk < need
                then (Inr (length buf), s\<lparr>tx_stage := tx_stage s @ buf\<rparr>)
                else if \<not> can_send_data s
                then and_then (maybe_return_credits 1 s) (\<lambda>_ s. (Inr 0, s))
                else and_then (post_data_message (tx_stage s @ take tk buf) (s\<lparr>tx_stage := []\<rparr>))
                       (\<lambda>_. try_write_loop (payload_cap s) (drop tk buf) tk)
      else try_write_loop (payload_cap s) buf 0 s)"

definition try_flush_stage :: "hord_stream \<Rightarrow> bool res \<times> hord_stream" where
  "try_flush_stage s =
     (if tx_stage s = [] then (Inr True, s)
      else if \<not> can_send_data s
      then and_then (maybe_return_credits 1 s) (\<lambda>_ s. (Inr False, s))
      else and_then (post_data_message (tx_stage s) (s\<lparr>tx_stage := []\<rparr>)) (\<lambda>_ s. (Inr True, s)))"

section \<open>Non-blocking read\<close>

text \<open>
  \<open>n\<close> is \<open>out.len()\<close> and \<open>acc\<close> is what has been copied into \<open>out\<close> so far; the bytes copied
  are the result. \<open>end - start\<close> is again an unsigned subtraction.
\<close>

lemma recv_slot_rx_ready [simp]: "recv_slot (s\<lparr>rx_ready := ms\<rparr>) slot = recv_slot s slot"
  by (simp add: recv_slot_def split: option.split)

lemma post_recv_slot_rx [frame_simps]:
  "rx_ready (snd (post_recv_slot slot s)) = rx_ready s"
  by (cases rule: post_recv_slot_cases [of slot s]) simp_all

lemma length_copy_out: "copy_out b off n m = Inr bs \<Longrightarrow> length bs = n"
  by (auto simp: copy_out_def split: if_splits)

function try_read_loop :: "nat \<Rightarrow> bytes \<Rightarrow> hord_stream \<Rightarrow> bytes res \<times> hord_stream" where
  "try_read_loop n acc s =
     (if length acc < n
      then case rx_ready s of
             [] \<Rightarrow> (Inr acc, s)
           | m # ms \<Rightarrow>
               if rm_end m < rm_start m then (Inl Panic, s)
               else
                 let tk = min (rm_end m - rm_start m) (n - length acc) in
                 case recv_slot s (rm_slot m) of
                   Inl e \<Rightarrow> (Inl e, s)
                 | Inr bo \<Rightarrow>
                     (case copy_out (fst bo) (rm_start m) tk (smem s) of
                        Inl e \<Rightarrow> (Inl e, s)
                      | Inr bs \<Rightarrow>
                          if rm_start m + tk = rm_end m
                          then (let p = post_recv_slot (rm_slot m) (s\<lparr>rx_ready := ms\<rparr>) in
                                case fst p of
                                  Inl e \<Rightarrow> (Inl e, snd p)
                                | Inr _ \<Rightarrow> try_read_loop n (acc @ bs)
                                    ((snd p)\<lparr>grant_pending := wrap_add32 (grant_pending (snd p)) 1\<rparr>))
                          else try_read_loop n (acc @ bs)
                                 (s\<lparr>rx_ready := m\<lparr>rm_start := rm_start m + tk\<rparr> # ms\<rparr>))
      else (Inr acc, s))"
  by pat_completeness auto
termination
proof (relation "measure (\<lambda>(n, acc, s). length (rx_ready s) + (n - length acc))", goal_cases)
  case (2 n acc s m ms tk bo bs p u)
  then show ?case by (simp add: frame_simps)
next
  case (3 n acc s m ms tk bo bs)
  then have "length bs = tk" and "0 < tk"
    using length_copy_out [of "fst bo" "rm_start m" tk "smem s" bs] by auto
  with 3 show ?case by simp
qed simp

declare try_read_loop.simps [simp del]

definition try_read :: "nat \<Rightarrow> hord_stream \<Rightarrow> bytes option res \<times> hord_stream" where
  "try_read n s =
     (if n = 0 then (Inr (Some []), s)
      else if rx_ready s = [] then (Inr (if peer_closed s then Some [] else None), s)
      else and_then (try_read_loop n [] s) (\<lambda>bs s.
             and_then (maybe_return_credits (proactive_threshold s) s) (\<lambda>_ s.
               (Inr (Some bs), s))))"

section \<open>The blocking facades\<close>

text \<open>
  \<open>pump(block)\<close>. \<open>None\<close> is a busy-wait that never ends: the completion queue stays empty and
  the CM channel never reports the peer gone.
\<close>

partial_function (option) pump_loop ::
  "bool \<Rightarrow> nat \<Rightarrow> hord_stream \<Rightarrow> (bool res \<times> hord_stream) option" where
  "pump_loop block spins s =
     (let p = on_conn poll s in
      case fst p of
        Inl e \<Rightarrow> Some (Inl e, snd p)
      | Inr (Some wc) \<Rightarrow>
          Some (and_then (handle_completion wc (snd p)) (\<lambda>_ s. (Inr True, s)))
      | Inr None \<Rightarrow>
          if \<not> block then Some (Inr False, snd p)
          else if spins + 1 \<ge> CM_DISCONNECT_POLL_SPINS
          then (let q = poll_cm_disconnect (snd p) in
                case fst q of
                  Inl e \<Rightarrow> Some (Inl e, snd q)
                | Inr gone \<Rightarrow> if gone then Some (Inr False, snd q)
                              else pump_loop block 0 (snd q))
          else pump_loop block (spins + 1) (snd p))"

definition pump :: "bool \<Rightarrow> hord_stream \<Rightarrow> (bool res \<times> hord_stream) option" where
  "pump block s = pump_loop block 0 s"

text \<open>The \<open>?\<close> operator around a call that may not return.\<close>

definition then_loop ::
  "('a res \<times> 's) option \<Rightarrow> ('a \<Rightarrow> 's \<Rightarrow> ('b res \<times> 's) option) \<Rightarrow> ('b res \<times> 's) option" where
  "then_loop r f = Option.bind r (\<lambda>p. case fst p of Inl e \<Rightarrow> Some (Inl e, snd p) | Inr a \<Rightarrow> f a (snd p))"

lemma then_loop_simps [simp]:
  "then_loop None f = None"
  "then_loop (Some (Inl e, s)) f = Some (Inl e, s)"
  "then_loop (Some (Inr a, s)) f = f a s"
  by (simp_all add: then_loop_def)

lemma then_loop_SomeD:
  assumes "then_loop r f = Some (Inr b, s')"
  obtains a s where "r = Some (Inr a, s)" and "f a s = Some (Inr b, s')"
proof -
  from assms obtain z where z: "r = Some z" by (cases r) auto
  with assms that show thesis by (cases z; cases "fst z") auto
qed

lemma then_loop_mono [partial_function_mono]:
  assumes "mono_option B" and "\<And>a s. mono_option (\<lambda>f. C a s f)"
  shows "mono_option (\<lambda>f. then_loop (B f) (\<lambda>a s. C a s f))"
proof -
  have "mono_option (\<lambda>f. case fst p of Inl e \<Rightarrow> Some (Inl e, snd p) | Inr a \<Rightarrow> C a (snd p) f)" for p
    by (cases "fst p") (simp_all add: assms(2) option.const_mono)
  with assms(1) show ?thesis unfolding then_loop_def by (rule bind_mono)
qed

partial_function (option) hord_read :: "nat \<Rightarrow> hord_stream \<Rightarrow> (bytes res \<times> hord_stream) option" where
  "hord_read n s =
     then_loop (Some (try_read n s)) (\<lambda>got s.
       case got of
         Some bs \<Rightarrow> Some (Inr bs, s)
       | None \<Rightarrow> then_loop (Some (return_owed_credits False s)) (\<lambda>_ s.
                  then_loop (pump True s) (\<lambda>_ s. hord_read n s)))"

partial_function (option) write_loop ::
  "bytes \<Rightarrow> nat \<Rightarrow> hord_stream \<Rightarrow> (nat res \<times> hord_stream) option" where
  "write_loop data off s =
     (if off < length data
      then then_loop (Some (try_write (drop off data) s)) (\<lambda>n s.
             if n = 0 then then_loop (pump True s) (\<lambda>_ s. write_loop data off s)
             else write_loop data (off + n) s)
      else Some (Inr (length data), s))"

definition hord_write :: "bytes \<Rightarrow> hord_stream \<Rightarrow> (nat res \<times> hord_stream) option" where
  "hord_write data s =
     (if peer_closed s then Some (Inl (io_err BrokenPipe), s) else write_loop data 0 s)"

partial_function (option) flush_stage_loop :: "hord_stream \<Rightarrow> (unit res \<times> hord_stream) option" where
  "flush_stage_loop s =
     then_loop (Some (try_flush_stage s)) (\<lambda>sent s.
       if sent then Some (Inr (), s)
       else if peer_closed s then Some (Inl (io_err BrokenPipe), s)
       else then_loop (pump True s) (\<lambda>_ s. flush_stage_loop s))"

partial_function (option) flush_drain_loop :: "hord_stream \<Rightarrow> (unit res \<times> hord_stream) option" where
  "flush_drain_loop s =
     (if sends_outstanding s \<or> writes_pending s
      then if peer_closed s then Some (Inl (io_err BrokenPipe), s)
           else then_loop (pump True s) (\<lambda>_ s. flush_drain_loop s)
      else Some (Inr (), s))"

definition hord_flush :: "hord_stream \<Rightarrow> (unit res \<times> hord_stream) option" where
  "hord_flush s = then_loop (flush_stage_loop s) (\<lambda>_ s. flush_drain_loop s)"

partial_function (option) poll_completed_transfer ::
  "hord_stream \<Rightarrow> (u32 option res \<times> hord_stream) option" where
  "poll_completed_transfer s =
     (case next_completed_transfer s of
        (Some i, s') \<Rightarrow> Some (Inr (Some i), s')
      | (None, s') \<Rightarrow>
          if peer_closed s' then Some (Inr None, s')
          else then_loop (pump True s') (\<lambda>_ s. poll_completed_transfer s))"

end
