(* ===== verification/Endpoint.thy ===== *)
theory Endpoint
  imports Stream_Property "HOL-Library.Multiset"
begin

text \<open>
  The invariant of one endpoint, against any peer and any behaviour of its NIC: buffer
  geometry, exclusive ownership of every receive and send slot, the single control message
  in flight, and the bounds of what waits for the reader or in the write stage. Every
  operation keeps it, and no operation panics under it.
\<close>

declare mset_upt [simp del]

section \<open>The invariant\<close>

definition recv_slots :: "hord_stream \<Rightarrow> nat" where
  "recv_slots s = split_base s + (if split_recv s = None then 0 else split_headroom s)"

definition geometry :: "hord_stream \<Rightarrow> bool" where
  "geometry s \<longleftrightarrow>
     ENVELOPE_LEN < msg_size s \<and> msg_size s < 2 ^ 32
     \<and> 0 < payload_cap s \<and> payload_cap s + ENVELOPE_LEN \<le> msg_size s
     \<and> rb_len (recv s) = split_base s * msg_size s
     \<and> pred_option (\<lambda>b. rb_len b = split_headroom s * msg_size s) (split_recv s)
     \<and> rb_len (send s) = (send_pool s + CTRL_SEND_SLOTS) * msg_size s
     \<and> ctrl_slot s = send_pool s
     \<and> split_base s + split_headroom s \<le> slot_bound \<and> send_pool s < slot_bound"

text \<open>The lane of a work-request identifier, as \<open>handle_completion\<close> tells them apart.\<close>

definition recv_lane :: "u64 \<Rightarrow> bool" where
  "recv_lane w \<longleftrightarrow> \<not> is_send w \<and> \<not> is_write w"

definition data_lane :: "u64 \<Rightarrow> bool" where
  "data_lane w \<longleftrightarrow> is_send w \<and> \<not> is_ctrl_send w \<and> \<not> is_write w"

definition ctrl_lane :: "u64 \<Rightarrow> bool" where
  "ctrl_lane w \<longleftrightarrow> is_send w \<and> is_ctrl_send w \<and> \<not> is_write w"

fun cq_ids :: "cq_entry list \<Rightarrow> u64 list" where
  "cq_ids [] = []"
| "cq_ids (CqWc r # es) = raw_wr_id r # cq_ids es"
| "cq_ids (CqFault # es) = cq_ids es"

lemma cq_ids_append [simp]: "cq_ids (xs @ ys) = cq_ids xs @ cq_ids ys"
  by (induction xs rule: cq_ids.induct) simp_all

text \<open>Receive slots in use: posted, reported but not reaped, or holding unread payload.\<close>

definition recv_owned :: "hord_stream \<Rightarrow> nat multiset" where
  "recv_owned s =
     mset (map (\<lambda>w. slot_of (rw_id w)) (rq (conn s)))
     + image_mset slot_of (filter_mset recv_lane (mset (cq_ids (cq (conn s)))))
     + mset (map rm_slot (rx_ready s))"

text \<open>Data send slots: free, posted, or reported but not reaped.\<close>

definition send_ids :: "hord_stream \<Rightarrow> u64 multiset" where
  "send_ids s = mset (map sw_id (sq (conn s))) + mset (cq_ids (cq (conn s)))"

definition send_owned :: "hord_stream \<Rightarrow> nat multiset" where
  "send_owned s = mset (send_free s) + image_mset slot_of (filter_mset data_lane (send_ids s))"

definition ctrl_in_flight :: "hord_stream \<Rightarrow> nat" where
  "ctrl_in_flight s = size (filter_mset ctrl_lane (send_ids s))"

definition recv_posted_ok :: "hord_stream \<Rightarrow> bool" where
  "recv_posted_ok s \<longleftrightarrow>
     list_all (\<lambda>w. slot_of (rw_id w) < recv_slots s \<and> w = slot_wr s (slot_of (rw_id w)))
       (rq (conn s))"

definition cq_ok :: "cq_entry list \<Rightarrow> bool" where
  "cq_ok es \<longleftrightarrow>
     list_all (\<lambda>e. case e of CqFault \<Rightarrow> True
                   | CqWc r \<Rightarrow> raw_status r = 0 \<and> raw_opcode r = 129 \<longrightarrow> recv_lane (raw_wr_id r)) es"

definition ready_ok :: "hord_stream \<Rightarrow> ready_msg \<Rightarrow> bool" where
  "ready_ok s m \<longleftrightarrow>
     rm_start m < rm_end m \<and> rm_slot m < recv_slots s
     \<and> slot_off s (rm_slot m) + ENVELOPE_LEN \<le> rm_start m
     \<and> rm_end m \<le> slot_off s (rm_slot m) + msg_size s"

text \<open>
  A queued send describes a whole message in its own slot; one-sided writes are the other
  entries of the send queue.
\<close>

definition msg_len :: "send_wr \<Rightarrow> nat" where
  "msg_len w = sge_length (hd (sw_sges w)) - ENVELOPE_LEN"

definition sq_entry_ok :: "hord_stream \<Rightarrow> send_wr \<Rightarrow> bool" where
  "sq_entry_ok s w \<longleftrightarrow>
     \<not> recv_lane (sw_id w)
     \<and> (data_lane (sw_id w) \<longrightarrow>
          slot_of (sw_id w) < send_pool s \<and> msg_len w \<le> payload_cap s
          \<and> w = send_wr_of s (slot_of (sw_id w)) (send_wr_id (slot_of (sw_id w))) (msg_len w))
     \<and> (ctrl_lane (sw_id w) \<longrightarrow>
          w = send_wr_of s (ctrl_slot s) (ctrl_send_wr_id (ctrl_slot s)) 0)"

definition stream_ok :: "hord_stream \<Rightarrow> bool" where
  "stream_ok s \<longleftrightarrow>
     geometry s
     \<and> recv_owned s \<subseteq># mset [0..<recv_slots s]
     \<and> send_owned s \<subseteq># mset [0..<send_pool s]
     \<and> ctrl_in_flight s \<le> (if ctrl_send_busy s then 1 else 0)
     \<and> recv_posted_ok s \<and> cq_ok (cq (conn s))
     \<and> list_all (sq_entry_ok s) (sq (conn s))
     \<and> list_all (ready_ok s) (rx_ready s)
     \<and> length (tx_stage s) < payload_cap s
     \<and> send_credits s \<le> u32_max \<and> grant_pending s \<le> u32_max"

section \<open>Slots lie inside their buffers\<close>

lemma slot_off_bound:
  assumes "geometry s" and "slot < recv_slots s"
  shows "recv_slot s slot = Inr (slot_buf s slot, slot_off s slot)"
    and "slot_off s slot + msg_size s \<le> rb_len (slot_buf s slot)"
proof -
  show "recv_slot s slot = Inr (slot_buf s slot, slot_off s slot)"
    using assms by (auto simp: recv_slot_cases recv_slots_def split: if_splits)
  show "slot_off s slot + msg_size s \<le> rb_len (slot_buf s slot)"
  proof (cases "slot < split_base s")
    case True
    then show ?thesis
      using assms slot_in_range [of slot "split_base s" "msg_size s"]
      by (simp add: geometry_def slot_off_def slot_buf_def)
  next
    case False
    with assms obtain b where "split_recv s = Some b" "slot - split_base s < split_headroom s"
      by (auto simp: recv_slots_def split: if_splits)
    then show ?thesis
      using assms False slot_in_range [of "slot - split_base s" "split_headroom s" "msg_size s"]
      by (simp add: geometry_def slot_off_def slot_buf_def)
  qed
qed

lemma slot_small: "geometry s \<Longrightarrow> slot < recv_slots s \<Longrightarrow> slot < slot_bound"
  by (auto simp: geometry_def recv_slots_def split: if_splits)

lemma send_fits_slot:
  assumes "geometry s" and "slot \<le> send_pool s" and "n \<le> payload_cap s"
  shows "send_fits s slot n"
proof -
  have "slot * msg_size s + msg_size s \<le> (send_pool s + CTRL_SEND_SLOTS) * msg_size s"
    using assms(2) by (intro slot_in_range) (simp add: CTRL_SEND_SLOTS_def)
  with assms show ?thesis by (simp add: send_fits_def geometry_def)
qed

lemma in_owned_less: "x \<in># M \<Longrightarrow> M \<subseteq># mset [0..<n] \<Longrightarrow> x < n"
  by (metis atLeastLessThan_iff atLeastLessThan_upt mset_subset_eqD set_mset_mset)

lemma owned_distinct:
  assumes "A + B \<subseteq># mset [0..<n]" and "x \<in># A" and "y \<in># B"
  shows "x \<noteq> y"
proof
  assume "x = y"
  with assms(2,3) have "0 < count A x" "0 < count B x" by simp_all
  then have "2 \<le> count (A + B) x" by (simp only: count_union)
  moreover have "count (A + B) x \<le> count (mset [0..<n]) x"
    using assms(1) by (rule mset_subset_eq_count)
  moreover have "count (mset [0..<n]) x \<le> 1"
    using distinct_count_atmost_1 [of "[0..<n]"] by (simp split: if_splits)
  ultimately show False by simp
qed

lemma slot_wr_simps [simp]:
  "rw_id (slot_wr s slot) = recv_wr_id slot" "rw_len (slot_wr s slot) = msg_size s mod 2 ^ 32"
  by (simp_all add: slot_wr_def)

text \<open>What only depends on the buffers and the sizes.\<close>

definition statics ::
  "hord_stream \<Rightarrow> (registered_buffer \<times> registered_buffer option \<times> registered_buffer \<times> registered_buffer)
     \<times> (nat \<times> nat \<times> nat) \<times> (nat \<times> nat) \<times> (nat \<times> nat)" where
  "statics s =
     ((recv s, split_recv s, send s, hs_buf s), (msg_size s, payload_cap s, recv_pool s),
      (split_base s, split_headroom s), (send_pool s, ctrl_slot s))"

lemma statics_cong:
  assumes "statics t = statics s"
  shows "geometry t = geometry s" "recv_slots t = recv_slots s" "slot_wr t = slot_wr s"
    "slot_off t = slot_off s" "slot_buf t = slot_buf s" "ready_ok t = ready_ok s"
    "recv_slot t = recv_slot s" "send_wr_of t = send_wr_of s" "send_addr t = send_addr s"
    "sq_entry_ok t = sq_entry_ok s" "send_fits t = send_fits s"
  using assms
  by (auto simp: statics_def send_wr_of_def send_addr_def sq_entry_ok_def send_fits_def geometry_def recv_slots_def slot_wr_def slot_off_def slot_buf_def
      ready_ok_def recv_slot_cases fun_eq_iff)

section \<open>Preservation by the primitives\<close>

lemma stream_okD:
  assumes "stream_ok s"
  shows "geometry s" "recv_owned s \<subseteq># mset [0..<recv_slots s]"
    "send_owned s \<subseteq># mset [0..<send_pool s]"
    "ctrl_in_flight s \<le> (if ctrl_send_busy s then 1 else 0)"
    "recv_posted_ok s" "cq_ok (cq (conn s))" "list_all (ready_ok s) (rx_ready s)"
    "length (tx_stage s) < payload_cap s" "send_credits s \<le> u32_max" "grant_pending s \<le> u32_max"
    "list_all (sq_entry_ok s) (sq (conn s))"
  using assms by (simp_all add: stream_ok_def)

lemma sat_add32_le [simp]: "sat_add32 a b \<le> u32_max"
  by (simp add: sat_add32_def)

lemma wrap32_le [simp]: "wrap_add32 a b \<le> u32_max" "wrap_sub32 a b \<le> u32_max"
proof -
  have "x mod 2 ^ 32 < 2 ^ 32" for x :: nat by (rule mod_less_divisor) simp
  from this [of "a + b"] this [of "a + (2 ^ 32 - b mod 2 ^ 32)"]
  show "wrap_add32 a b \<le> u32_max" "wrap_sub32 a b \<le> u32_max"
    by (simp_all add: wrap_add32_def wrap_sub32_def u32_max_def)
qed

lemma statics_simps [simp]:
  "statics (s\<lparr>conn := c\<rparr>) = statics s" "statics (s\<lparr>rx_ready := ms\<rparr>) = statics s"
  "statics (s\<lparr>send_free := fs\<rparr>) = statics s" "statics (s\<lparr>ctrl_send_busy := b\<rparr>) = statics s"
  "statics (s\<lparr>peer_closed := b\<rparr>) = statics s" "statics (s\<lparr>send_credits := k\<rparr>) = statics s"
  "statics (s\<lparr>grant_pending := k\<rparr>) = statics s" "statics (s\<lparr>tx_stage := bs\<rparr>) = statics s"
  "statics (s\<lparr>completed_transfers := ts\<rparr>) = statics s"
  "statics (s\<lparr>writes_outstanding := k\<rparr>) = statics s"
  "statics (s\<lparr>imm_outstanding := k\<rparr>) = statics s"
  by (simp_all add: statics_def)

lemmas statics_upd [simp] =
  statics_simps [THEN statics_cong(1)] statics_simps [THEN statics_cong(2)]
  statics_simps [THEN statics_cong(3)] statics_simps [THEN statics_cong(4)]
  statics_simps [THEN statics_cong(5)] statics_simps [THEN statics_cong(6)]
  statics_simps [THEN statics_cong(7)] statics_simps [THEN statics_cong(8)]
  statics_simps [THEN statics_cong(9)] statics_simps [THEN statics_cong(10)]
  statics_simps [THEN statics_cong(11)]

lemmas owned_defs =
  recv_owned_def send_owned_def ctrl_in_flight_def send_ids_def recv_posted_ok_def

text \<open>Fields the invariant does not constrain.\<close>

lemma stream_ok_irrelevant [simp]:
  "stream_ok (s\<lparr>peer_closed := b\<rparr>) = stream_ok s"
  "stream_ok (s\<lparr>completed_transfers := ts\<rparr>) = stream_ok s"
  "stream_ok (s\<lparr>writes_outstanding := n\<rparr>) = stream_ok s"
  "stream_ok (s\<lparr>imm_outstanding := n\<rparr>) = stream_ok s"
  "stream_ok (s\<lparr>conn := (conn s)\<lparr>arrivals := evs\<rparr>\<rparr>) = stream_ok s"
  "stream_ok (s\<lparr>conn := (conn s)\<lparr>cm_events := es\<rparr>\<rparr>) = stream_ok s"
  "stream_ok (s\<lparr>conn := (conn s)\<lparr>post_faults := fs\<rparr>\<rparr>) = stream_ok s"
  "stream_ok (s\<lparr>conn := (conn s)\<lparr>mem := m\<rparr>\<rparr>) = stream_ok s"
  "k \<le> u32_max \<Longrightarrow> stream_ok s \<Longrightarrow> stream_ok (s\<lparr>send_credits := k\<rparr>)"
  "k \<le> u32_max \<Longrightarrow> stream_ok s \<Longrightarrow> stream_ok (s\<lparr>grant_pending := k\<rparr>)"
  by (simp_all add: stream_ok_def owned_defs)

lemma stream_ok_tx_stage:
  "stream_ok s \<Longrightarrow> length st < payload_cap s \<Longrightarrow> stream_ok (s\<lparr>tx_stage := st\<rparr>)"
  by (simp add: stream_ok_def owned_defs)

lemma posted_recv_lane:
  assumes "stream_ok s" and "w \<in> set (rq (conn s))"
  shows "recv_lane (rw_id w)" "slot_of (rw_id w) < recv_slots s"
    "w = slot_wr s (slot_of (rw_id w))"
proof -
  from assms have w: "slot_of (rw_id w) < recv_slots s" "w = slot_wr s (slot_of (rw_id w))"
    by (auto simp: stream_ok_def recv_posted_ok_def list_all_iff)
  then show "slot_of (rw_id w) < recv_slots s" "w = slot_wr s (slot_of (rw_id w))" by auto
  have "slot_of (rw_id w) < slot_bound"
    using slot_small [OF stream_okD(1) [OF assms(1)] w(1)] .
  moreover have "rw_id w = recv_wr_id (slot_of (rw_id w))"
    using arg_cong [OF w(2), of rw_id] by (simp only: slot_wr_simps)
  ultimately show "recv_lane (rw_id w)"
    by (metis recv_lane_def wr_id_lanes(1,2))
qed

text \<open>A NIC step moves a work request from its queue to the completion queue.\<close>

lemma stream_ok_recv_report:
  assumes ok: "stream_ok s" and rq: "rq (conn s) = w # ws"
  shows "stream_ok (s\<lparr>conn := report (rw_id w) n opc st imm ((conn s)\<lparr>rq := ws, mem := m\<rparr>)\<rparr>)"
    (is "stream_ok ?t")
proof -
  have w: "recv_lane (rw_id w)" using posted_recv_lane [OF ok] rq by simp
  then have nl: "\<not> data_lane (rw_id w)" "\<not> ctrl_lane (rw_id w)"
    by (auto simp: recv_lane_def data_lane_def ctrl_lane_def)
  have "recv_owned ?t = recv_owned s" "send_owned ?t = send_owned s"
    "ctrl_in_flight ?t = ctrl_in_flight s"
    using w nl by (simp_all add: owned_defs report_def rq)
  moreover have "recv_posted_ok ?t"
    using stream_okD(5) [OF ok] by (simp add: recv_posted_ok_def report_def rq)
  moreover have "cq_ok (cq (conn ?t))"
    using stream_okD(6) [OF ok] w by (simp add: cq_ok_def report_def)
  ultimately show ?thesis
    using stream_okD [OF ok] by (simp add: stream_ok_def report_def)
qed

lemma stream_ok_send_report:
  assumes ok: "stream_ok s" and sq: "sq (conn s) = w # ws" and opc: "st = 0 \<Longrightarrow> opc \<noteq> 129"
  shows "stream_ok (s\<lparr>conn := report (sw_id w) n opc st imm ((conn s)\<lparr>sq := ws\<rparr>)\<rparr>)"
    (is "stream_ok ?t")
proof -
  have w: "\<not> recv_lane (sw_id w)" using stream_okD(11) [OF ok] sq by (simp add: sq_entry_ok_def)
  have "recv_owned ?t = recv_owned s" "send_owned ?t = send_owned s"
    "ctrl_in_flight ?t = ctrl_in_flight s"
    using w by (simp_all add: owned_defs report_def sq)
  moreover have "recv_posted_ok ?t"
    using stream_okD(5) [OF ok] by (simp add: recv_posted_ok_def report_def)
  moreover have "cq_ok (cq (conn ?t))"
    using stream_okD(6) [OF ok] opc by (auto simp: cq_ok_def report_def)
  moreover have "list_all (sq_entry_ok s) (sq (conn ?t))"
    using stream_okD(11) [OF ok] sq by (simp add: report_def)
  ultimately show ?thesis
    using stream_okD [OF ok] by (simp add: stream_ok_def report_def)
qed

lemma stream_ok_nic_step:
  assumes ok: "stream_ok s"
  shows "stream_ok (s\<lparr>conn := nic_step ev (conn s)\<rparr>)"
proof -
  have recv: "stream_ok (s\<lparr>conn := report (rw_id w) n opc st imm ((conn s)\<lparr>rq := ws\<rparr>)\<rparr>)"
    if "rq (conn s) = w # ws" for w ws n opc st imm
    using stream_ok_recv_report [OF ok that, of n opc st imm "mem (conn s)"] by simp
  have fault: "stream_ok (s\<lparr>conn := (conn s)\<lparr>cq := cq (conn s) @ [CqFault]\<rparr>\<rparr>)"
    using ok by (simp add: stream_ok_def owned_defs cq_ok_def)
  show ?thesis
    using ok fault
    by (cases ev)
       (auto simp: recv stream_ok_recv_report op_code_def
         intro: stream_ok_send_report split: list.split send_op.split)
qed

text \<open>Taking an entry off the completion queue releases what it stood for.\<close>

lemma reap_releases:
  assumes ok: "stream_ok s" and cq: "cq (conn s) = CqWc r # rest"
  defines "t \<equiv> s\<lparr>conn := (conn s)\<lparr>cq := rest\<rparr>\<rparr>"
  shows "stream_ok t"
    and "recv_lane (raw_wr_id r) \<Longrightarrow>
      add_mset (slot_of (raw_wr_id r)) (recv_owned t) \<subseteq># mset [0..<recv_slots t]"
    and "data_lane (raw_wr_id r) \<Longrightarrow>
      add_mset (slot_of (raw_wr_id r)) (send_owned t) \<subseteq># mset [0..<send_pool t]"
    and "ctrl_lane (raw_wr_id r) \<Longrightarrow> ctrl_in_flight t = 0"
proof -
  let ?i = "raw_wr_id r"
  have r: "recv_owned s = (if recv_lane ?i then {#slot_of ?i#} else {#}) + recv_owned t"
    and d: "send_owned s = (if data_lane ?i then {#slot_of ?i#} else {#}) + send_owned t"
    and c: "ctrl_in_flight s = (if ctrl_lane ?i then 1 else 0) + ctrl_in_flight t"
    by (simp_all add: owned_defs t_def cq)
  note D = stream_okD [OF ok]
  show "stream_ok t"
    using D subset_mset.order_trans [OF _ D(2), of "recv_owned t"]
      subset_mset.order_trans [OF _ D(3), of "send_owned t"] c
    by (auto simp: stream_ok_def t_def [symmetric] r d)
       (auto simp: t_def recv_posted_ok_def cq_ok_def cq)
  show "add_mset (slot_of ?i) (recv_owned t) \<subseteq># mset [0..<recv_slots t]" if "recv_lane ?i"
    using D(2) that by (simp add: r t_def)
  show "add_mset (slot_of ?i) (send_owned t) \<subseteq># mset [0..<send_pool t]" if "data_lane ?i"
    using D(3) that by (simp add: d t_def)
  show "ctrl_in_flight t = 0" if "ctrl_lane ?i"
    using D(4) that c by (simp split: if_splits)
qed

lemma post_recv_slot_inv:
  assumes ok: "stream_ok s" and free: "add_mset slot (recv_owned s) \<subseteq># mset [0..<recv_slots s]"
  shows "stream_ok (snd (post_recv_slot slot s))" "fst (post_recv_slot slot s) \<noteq> Inl Panic"
proof -
  note D = stream_okD [OF ok]
  have less: "slot < recv_slots s" using in_owned_less [OF _ free] by simp
  have so: "slot_of (recv_wr_id slot) = slot"
    using slot_small [OF D(1) less] by (simp add: slot_of_wr_id)
  show "fst (post_recv_slot slot s) \<noteq> Inl Panic"
    using less by (cases rule: post_recv_slot_cases [of slot s])
      (auto simp: recv_slots_def split: if_splits)
  show "stream_ok (snd (post_recv_slot slot s))"
  proof (cases rule: post_recv_slot_cases [of slot s, case_names posted rejected panic])
    case (posted fs)
    define t where
      "t = s\<lparr>conn := (conn s)\<lparr>post_faults := fs, rq := rq (conn s) @ [slot_wr s slot]\<rparr>\<rparr>"
    have "recv_owned t = add_mset slot (recv_owned s)" "send_owned t = send_owned s"
      "ctrl_in_flight t = ctrl_in_flight s"
      by (simp_all add: owned_defs t_def so)
    moreover have "recv_posted_ok t"
      using D(5) less by (simp add: recv_posted_ok_def t_def so)
    ultimately have "stream_ok t"
      using D free by (simp add: stream_ok_def) (simp add: t_def split: if_splits)
    then show ?thesis by (simp add: posted t_def)
  next
    case (rejected fs)
    have "stream_ok (s\<lparr>conn := (conn s)\<lparr>post_faults := fs\<rparr>\<rparr>)" using ok by simp
    then have "stream_ok (s\<lparr>conn := (conn s)\<lparr>post_faults := fs\<rparr>, peer_closed := True\<rparr>)"
      by (simp only: stream_ok_irrelevant(1))
    then show ?thesis by (simp add: rejected)
  qed (simp add: ok)
qed

lemma recv_owned_upd [simp]:
  "recv_owned (s\<lparr>send_credits := k\<rparr>) = recv_owned s"
  "recv_owned (s\<lparr>completed_transfers := ts\<rparr>) = recv_owned s"
  "recv_owned (s\<lparr>grant_pending := k\<rparr>) = recv_owned s"
  by (simp_all add: recv_owned_def)

lemma handle_recv_inv:
  assumes ok: "stream_ok s"
    and free: "add_mset (slot_of (wc_wr_id wc)) (recv_owned s) \<subseteq># mset [0..<recv_slots s]"
  shows "stream_ok (snd (handle_recv wc s)) \<and> fst (handle_recv wc s) \<noteq> Inl Panic"
proof -
  let ?slot = "slot_of (wc_wr_id wc)"
  note D = stream_okD [OF ok]
  have less: "?slot < recv_slots s" using in_owned_less [OF _ free] by simp
  note slot = slot_off_bound [OF D(1) less]
  have post: "stream_ok (snd (post_recv_slot ?slot (s\<lparr>send_credits := k\<rparr>)))"
    "fst (post_recv_slot ?slot (s\<lparr>send_credits := k\<rparr>)) \<noteq> Inl Panic" if "k \<le> u32_max" for k
    using post_recv_slot_inv [of "s\<lparr>send_credits := k\<rparr>" ?slot] ok free that by simp_all
  have env: "ENVELOPE_LEN < msg_size s" using D(1) by (simp add: geometry_def)
  show ?thesis
  proof (cases rule: handle_recv_cases [of wc s])
    case (fault f)
    have "copy_out (slot_buf s ?slot) (slot_off s ?slot) ENVELOPE_LEN (smem s) =
          Inr (read_mem (smem s) (rb_addr (slot_buf s ?slot) + slot_off s ?slot) ENVELOPE_LEN)"
      using slot(2) env by (auto simp: copy_out_def)
    then have "fst (handle_recv wc s) \<noteq> Inl Panic"
      using post(2) slot(1)
      by (auto simp: handle_recv_def Let_def envelope_decode_def fst_and_then split: sum.split)
    then show ?thesis by (simp add: fault ok)
  next
    case (data off n e cr)
    define m where "m = \<lparr>rm_slot = ?slot, rm_start = off + ENVELOPE_LEN,
      rm_end = off + ENVELOPE_LEN + min (unat (env_length e)) (n - ENVELOPE_LEN)\<rparr>"
    define t where "t = s\<lparr>send_credits := cr, rx_ready := rx_ready s @ [m]\<rparr>"
    have "off = slot_off s ?slot" using data(1) slot(1) by simp
    then have "ready_ok s m" using data less by (auto simp: ready_ok_def m_def)
    moreover have "recv_owned t = add_mset ?slot (recv_owned s)" "send_owned t = send_owned s"
      "ctrl_in_flight t = ctrl_in_flight s"
      by (simp_all add: owned_defs t_def m_def)
    ultimately have "stream_ok t"
      using D free data(7)
      by (simp add: stream_ok_def) (simp add: t_def recv_posted_ok_def split: if_splits)
    then show ?thesis using data(8) by (simp add: t_def m_def)
  next
    case (credit off n e cr)
    then show ?thesis using post by simp
  next
    case (empty off n e cr)
    then show ?thesis
      using post by (auto simp: fst_and_then snd_and_then split: sum.split)
  qed
qed

lemma completion_of_raw_simps [simp]:
  "wc_wr_id (completion_of_raw r) = raw_wr_id r"
  "is_success (completion_of_raw r) \<longleftrightarrow> raw_status r = 0"
  "wc_opcode (completion_of_raw r) = OpRecvRdmaWithImm \<longleftrightarrow> raw_opcode r = 129"
  by (simp_all add: completion_of_raw_def Let_def is_success_def opcode_from_raw_def)

lemma reclaim_send_inv:
  assumes ok: "stream_ok s" and snd: "is_send i" "\<not> is_write i"
    and data: "data_lane i \<Longrightarrow> add_mset (slot_of i) (send_owned s) \<subseteq># mset [0..<send_pool s]"
    and ctrl: "ctrl_lane i \<Longrightarrow> ctrl_in_flight s = 0"
  shows "stream_ok (reclaim_send i s)"
proof (cases "is_ctrl_send i")
  case True
  then have "ctrl_in_flight s = 0" using ctrl snd by (simp add: ctrl_lane_def)
  then have "stream_ok (s\<lparr>ctrl_send_busy := False\<rparr>)"
    using ok by (simp add: stream_ok_def owned_defs)
  then show ?thesis by (simp add: reclaim_send_def True)
next
  case False
  then have "add_mset (slot_of i) (send_owned s) \<subseteq># mset [0..<send_pool s]"
    using data snd by (simp add: data_lane_def)
  then have "stream_ok (s\<lparr>send_free := send_free s @ [slot_of i]\<rparr>)"
    using ok by (simp add: stream_ok_def owned_defs)
  then show ?thesis by (simp add: reclaim_send_def False)
qed

lemma handle_completion_inv:
  assumes ok: "stream_ok s" and cq: "cq (conn s) = CqWc r # rest"
  defines "t \<equiv> s\<lparr>conn := (conn s)\<lparr>cq := rest\<rparr>\<rparr>"
  shows "stream_ok (snd (handle_completion (completion_of_raw r) t))
         \<and> fst (handle_completion (completion_of_raw r) t) \<noteq> Inl Panic"
proof -
  let ?i = "raw_wr_id r"
  note R = reap_releases [OF ok cq, folded t_def]
  have imm: "recv_lane ?i" if "raw_opcode r = 129" "raw_status r = 0"
    using stream_okD(6) [OF ok] cq that by (simp add: cq_ok_def)
  have reclaim: "stream_ok (reclaim_send ?i (t\<lparr>peer_closed := b\<rparr>))" "stream_ok (reclaim_send ?i t)"
    if "is_send ?i" "\<not> is_write ?i" for b
    using that R by (auto intro!: reclaim_send_inv simp: owned_defs)
  have post: "stream_ok (snd (post_recv_slot (slot_of ?i) (t\<lparr>completed_transfers := ts\<rparr>)))"
    "fst (post_recv_slot (slot_of ?i) (t\<lparr>completed_transfers := ts\<rparr>)) \<noteq> Inl Panic"
    if "recv_lane ?i" for ts
    using post_recv_slot_inv [of "t\<lparr>completed_transfers := ts\<rparr>" "slot_of ?i"] R that by simp_all
  have recv: "stream_ok (snd (handle_recv (completion_of_raw r) t))
      \<and> fst (handle_recv (completion_of_raw r) t) \<noteq> Inl Panic" if "recv_lane ?i"
    using handle_recv_inv [of t "completion_of_raw r"] R that by simp
  have lane: "recv_lane ?i" if "\<not> is_send ?i" "\<not> is_write ?i"
    using that by (simp add: recv_lane_def)
  show ?thesis
    using R(1) reclaim post [OF imm] recv [OF lane]
    by (auto simp: handle_completion_def Let_def)
qed

text \<open>Posting a message moves its slot from the free list to the send queue.\<close>

lemma post_data_message_cases:
  assumes inv: "stream_ok s" and ne: "send_free s \<noteq> []" and len: "length payload \<le> payload_cap s"
  defines "slot \<equiv> last (send_free s)" and "grant \<equiv> min (grant_pending s) 65535"
  defines "e \<equiv> \<lparr>env_length = of_nat (length payload), env_credits = of_nat grant, env_flags = 0\<rparr>"
  obtains (ok) fs where "post_data_message payload s = (Inr (), s\<lparr>send_free := butlast (send_free s),
        conn := (conn s)\<lparr>mem := write_mem (smem s) (send_addr s slot) (envelope_bytes e @ payload),
          post_faults := fs,
          sq := sq (conn s) @ [send_wr_of s slot (send_wr_id slot) (length payload)]\<rparr>,
        send_credits := wrap_sub32 (send_credits s) 1,
        grant_pending := wrap_sub32 (grant_pending s) grant\<rparr>)"
  | (refused) fs where "post_data_message payload s = (Inl (io_err ErrOther), s\<lparr>
        conn := (conn s)\<lparr>mem := write_mem (smem s) (send_addr s slot) (envelope_bytes e @ payload),
          post_faults := fs\<rparr>, peer_closed := True\<rparr>)"
proof -
  let ?s = "s\<lparr>send_free := butlast (send_free s)\<rparr>"
  have "slot \<in># send_owned s" using ne by (simp add: send_owned_def slot_def)
  then have "slot < send_pool s" using in_owned_less stream_okD(3) [OF inv] by blast
  then have "send_fits s slot (length payload)"
    using send_fits_slot [OF stream_okD(1) [OF inv] _ len] by simp
  then have fits: "send_fits ?s slot (length payload)" by (simp add: send_fits_def)
  have upd: "send_addr ?s = send_addr s" "send_wr_of ?s = send_wr_of s"
    by (simp_all add: send_addr_def send_wr_of_def fun_eq_iff)
  have free: "butlast (send_free s) @ [slot] = send_free s" using ne by (simp add: slot_def)
  show thesis
  proof (cases rule: post_into_cases [OF fits, of "send_wr_id slot" e, case_names posted rejected])
    case (posted fs)
    show thesis
      by (rule ok [of fs])
         (use ne posted in \<open>simp add: post_data_message_def Let_def slot_def [symmetric]
            grant_def [symmetric] e_def [symmetric] upd\<close>)
  next
    case (rejected fs)
    show thesis
      by (rule refused [of fs])
         (use ne rejected free in \<open>simp add: post_data_message_def Let_def slot_def [symmetric]
            grant_def [symmetric] e_def [symmetric] upd\<close>)
  qed
qed

lemma send_credit_return_cases:
  assumes inv: "stream_ok s"
  defines "grant \<equiv> min (grant_pending s) 65535"
  defines "e \<equiv> \<lparr>env_length = 0, env_credits = of_nat grant, env_flags = CREDIT_ONLY\<rparr>"
  obtains (skip) "send_credit_return s = (Inr (), s)"
      "ctrl_send_busy s \<or> peer_closed s \<or> grant_pending s = 0"
  | (ok) fs where "send_credit_return s = (Inr (), s\<lparr>
        conn := (conn s)\<lparr>mem := write_mem (smem s) (send_addr s (ctrl_slot s)) (envelope_bytes e),
          post_faults := fs,
          sq := sq (conn s) @ [send_wr_of s (ctrl_slot s) (ctrl_send_wr_id (ctrl_slot s)) 0]\<rparr>,
        ctrl_send_busy := True,
        grant_pending := wrap_sub32 (grant_pending s) grant\<rparr>)"
      "\<not> ctrl_send_busy s" "\<not> peer_closed s" "0 < grant_pending s"
  | (refused) fs where "send_credit_return s = (Inl (io_err ErrOther), s\<lparr>
        conn := (conn s)\<lparr>mem := write_mem (smem s) (send_addr s (ctrl_slot s)) (envelope_bytes e),
          post_faults := fs\<rparr>, peer_closed := True\<rparr>)"
      "\<not> ctrl_send_busy s" "\<not> peer_closed s" "0 < grant_pending s"
proof (cases "ctrl_send_busy s \<or> peer_closed s \<or> grant_pending s = 0")
  case True
  then show thesis by (intro skip) (auto simp: send_credit_return_def)
next
  case go: False
  have fits: "send_fits s (ctrl_slot s) (length ([] :: bytes))"
    using stream_okD(1) [OF inv] by (intro send_fits_slot) (auto simp: geometry_def)
  show thesis
  proof (cases rule: post_into_cases [OF fits, of "ctrl_send_wr_id (ctrl_slot s)" e,
        case_names posted rejected])
    case (posted fs)
    show thesis
      by (rule ok [of fs])
         (use go posted in \<open>auto simp: send_credit_return_def Let_def grant_def [symmetric]
            e_def [symmetric]\<close>)
  next
    case (rejected fs)
    show thesis
      by (rule refused [of fs])
         (use go rejected in \<open>auto simp: send_credit_return_def Let_def grant_def [symmetric]
            e_def [symmetric]\<close>)
  qed
qed

lemma send_wr_of_simps [simp]: "sw_id (send_wr_of s slot i n) = i"
  by (simp add: send_wr_of_def)

lemma send_wr_of_len: "geometry s \<Longrightarrow> n \<le> payload_cap s \<Longrightarrow> msg_len (send_wr_of s slot i n) = n"
  by (auto simp: geometry_def msg_len_def send_wr_of_def)

lemma stream_ok_enqueue_data:
  assumes inv: "stream_ok s" and ne: "send_free s \<noteq> []" and n: "n \<le> payload_cap s"
    and le: "k \<le> u32_max" "g \<le> u32_max"
  shows "stream_ok (s\<lparr>send_free := butlast (send_free s), conn := (conn s)\<lparr>mem := m, post_faults := fs,
      sq := sq (conn s) @ [send_wr_of s (last (send_free s)) (send_wr_id (last (send_free s))) n]\<rparr>,
      send_credits := k, grant_pending := g\<rparr>)" (is "stream_ok ?t")
proof -
  define slot where "slot = last (send_free s)"
  note D = stream_okD [OF inv]
  have split: "send_free s = butlast (send_free s) @ [slot]" using ne by (simp add: slot_def)
  have "slot \<in># send_owned s" using ne by (simp add: send_owned_def slot_def)
  then have "slot < send_pool s" using in_owned_less [OF _ D(3)] by blast
  then have "slot < slot_bound" using D(1) by (simp add: geometry_def)
  note L = wr_id_simps [OF this]
  have lanes: "data_lane (send_wr_id slot)" "\<not> ctrl_lane (send_wr_id slot)"
    "\<not> recv_lane (send_wr_id slot)"
    using L by (auto simp: data_lane_def ctrl_lane_def recv_lane_def)
  have "send_owned ?t = send_owned s"
    using lanes L by (subst (2) send_owned_def, subst split)
      (simp add: send_owned_def send_ids_def slot_def [symmetric])
  moreover have "recv_owned ?t = recv_owned s" "ctrl_in_flight ?t = ctrl_in_flight s"
    using lanes by (simp_all add: owned_defs slot_def [symmetric])
  moreover have "recv_posted_ok ?t" using D(5) by (simp add: recv_posted_ok_def)
  moreover have "list_all (sq_entry_ok s) (sq (conn ?t))"
    using D(11) lanes L \<open>slot < send_pool s\<close> send_wr_of_len [OF D(1) n] n
    by (simp add: sq_entry_ok_def slot_def [symmetric])
  ultimately show ?thesis using D le by (simp add: stream_ok_def)
qed

lemma post_data_message_inv:
  assumes inv: "stream_ok s" and can: "can_send_data s" and len: "length payload \<le> payload_cap s"
  shows "stream_ok (snd (post_data_message payload s))
         \<and> fst (post_data_message payload s) \<noteq> Inl Panic"
proof -
  have ne: "send_free s \<noteq> []" using can by (simp add: can_send_data_def)
  show ?thesis
  proof (cases rule: post_data_message_cases [OF inv ne len])
    case (1 fs)
    then show ?thesis using stream_ok_enqueue_data [OF inv ne len] by simp
  next
    case (2 fs)
    then show ?thesis using inv by (simp add: stream_ok_def owned_defs)
  qed
qed

lemma send_credit_return_inv:
  assumes inv: "stream_ok s"
  shows "stream_ok (snd (send_credit_return s)) \<and> fst (send_credit_return s) \<noteq> Inl Panic"
proof (cases rule: send_credit_return_cases [OF inv])
  case 1
  then show ?thesis using inv by simp
next
  case (2 fs)
  define t where "t = snd (send_credit_return s)"
  note D = stream_okD [OF inv]
  have "ctrl_slot s < slot_bound" using D(1) by (simp add: geometry_def)
  note L = wr_id_simps [OF this]
  have lanes: "\<not> data_lane (ctrl_send_wr_id (ctrl_slot s))" "ctrl_lane (ctrl_send_wr_id (ctrl_slot s))"
    "\<not> recv_lane (ctrl_send_wr_id (ctrl_slot s))"
    using L by (auto simp: data_lane_def ctrl_lane_def recv_lane_def)
  have "send_owned t = send_owned s" "recv_owned t = recv_owned s"
    "ctrl_in_flight t = Suc (ctrl_in_flight s)"
    using lanes by (simp_all add: owned_defs t_def 2(1))
  moreover have "recv_posted_ok t" using D(5) by (simp add: recv_posted_ok_def t_def 2(1))
  moreover have "list_all (sq_entry_ok s) (sq (conn t))"
    using D(11) lanes by (simp add: sq_entry_ok_def t_def 2(1))
  ultimately have "stream_ok t"
    using D 2(2) by (simp add: stream_ok_def) (simp add: t_def 2(1))
  then show ?thesis by (simp add: t_def) (simp add: 2(1))
next
  case (3 fs)
  then show ?thesis using inv by (simp add: stream_ok_def owned_defs)
qed

text \<open>The reader consumes part of the first message, or all of it and gives its slot back.\<close>

lemma stream_ok_partial:
  assumes "stream_ok s" and "rx_ready s = m # ms" and "rm_start m \<le> k" and "k < rm_end m"
  shows "stream_ok (s\<lparr>rx_ready := m\<lparr>rm_start := k\<rparr> # ms\<rparr>)"
  using assms by (auto simp: stream_ok_def owned_defs ready_ok_def)

lemma consume_releases:
  assumes inv: "stream_ok s" and rx: "rx_ready s = m # ms"
  shows "stream_ok (s\<lparr>rx_ready := ms\<rparr>)"
    and "add_mset (rm_slot m) (recv_owned (s\<lparr>rx_ready := ms\<rparr>)) \<subseteq># mset [0..<recv_slots s]"
proof -
  have eq: "recv_owned s = add_mset (rm_slot m) (recv_owned (s\<lparr>rx_ready := ms\<rparr>))"
    by (simp add: recv_owned_def rx)
  note D = stream_okD [OF inv]
  show *: "add_mset (rm_slot m) (recv_owned (s\<lparr>rx_ready := ms\<rparr>)) \<subseteq># mset [0..<recv_slots s]"
    using D(2) by (simp add: eq)
  have "recv_owned (s\<lparr>rx_ready := ms\<rparr>) \<subseteq># mset [0..<recv_slots s]"
    using subset_mset.order_trans [OF _ *] by simp
  then show "stream_ok (s\<lparr>rx_ready := ms\<rparr>)"
    using D rx by (simp add: stream_ok_def) (simp add: owned_defs split: if_splits)
qed

lemma consume_inv:
  assumes inv: "stream_ok s" and rx: "rx_ready s = m # ms"
  shows "stream_ok (snd (and_then (post_recv_slot (rm_slot m) (s\<lparr>rx_ready := ms\<rparr>))
           (\<lambda>_ s. (Inr (), s\<lparr>grant_pending := wrap_add32 (grant_pending s) 1\<rparr>))))"
  using post_recv_slot_inv(1) [OF consume_releases(1) [OF inv rx], of "rm_slot m"]
    consume_releases(2) [OF inv rx]
  by (simp add: snd_and_then split: sum.split)

interpretation ok: stream_safe stream_ok
proof unfold_locales
  fix s assume inv: "stream_ok s"
  show "stream_ok (s\<lparr>tx_stage := []\<rparr>)"
    using stream_ok_tx_stage [OF inv] stream_okD(1) [OF inv] by (simp add: geometry_def)
next
  fix s m ms assume inv: "stream_ok s" and rx: "rx_ready s = m # ms"
  then have m: "ready_ok s m" using stream_okD(7) [OF inv] by simp
  then show "rm_start m \<le> rm_end m" by (simp add: ready_ok_def)
  show "\<exists>bo. recv_slot s (rm_slot m) = Inr bo \<and> rm_end m \<le> rb_len (fst bo)"
    using m slot_off_bound [OF stream_okD(1) [OF inv], of "rm_slot m"]
    by (auto simp: ready_ok_def)
next
  fix s rest assume "stream_ok s" "cq (conn s) = CqFault # rest"
  then show "stream_ok (s\<lparr>conn := (conn s)\<lparr>cq := rest\<rparr>\<rparr>)"
    by (simp add: stream_ok_def owned_defs cq_ok_def)
next
  fix s m ms assume "stream_ok s" "rx_ready s = m # ms"
  then show "stream_ok (snd (and_then (post_recv_slot (rm_slot m) (s\<lparr>rx_ready := ms\<rparr>))
           (\<lambda>_ s. (Inr (), s\<lparr>grant_pending := wrap_add32 (grant_pending s) 1\<rparr>))))"
    by (rule consume_inv)
qed (auto simp: stream_ok_nic_step handle_completion_inv post_data_message_inv
    send_credit_return_inv stream_okD intro: stream_ok_tx_stage stream_ok_partial)

end
