(* ===== verification/Byte_Queue.thy ===== *)
theory Byte_Queue
  imports Endpoint
begin

text \<open>
  What the stream promises its user, as two byte queues: \<open>rx_bytes\<close>, the received bytes the
  reader has not taken yet, and \<open>tx_bytes\<close>, the accepted bytes that are queued on the send
  queue or staged. \<open>try_read\<close> refines taking a prefix of the first, \<open>try_write\<close> refines
  appending to the second, and the device cannot change either except by delivering.
\<close>

section \<open>Memory layout\<close>

definition span_disjoint :: "nat \<Rightarrow> nat \<Rightarrow> nat \<Rightarrow> nat \<Rightarrow> bool" where
  "span_disjoint a n b k \<longleftrightarrow> a + n \<le> b \<or> b + k \<le> a"

abbreviation buf_disjoint :: "registered_buffer \<Rightarrow> registered_buffer \<Rightarrow> bool" where
  "buf_disjoint b c \<equiv> span_disjoint (rb_addr b) (rb_len b) (rb_addr c) (rb_len c)"

definition pool_buffers :: "hord_stream \<Rightarrow> registered_buffer list" where
  "pool_buffers s = recv s # send s # (case split_recv s of None \<Rightarrow> [] | Some b \<Rightarrow> [b])"

text \<open>
  The pools do not overlap, and no region a peer may write into overlaps a pool.
\<close>

definition layout_ok :: "hord_stream \<Rightarrow> bool" where
  "layout_ok s \<longleftrightarrow>
     buf_disjoint (recv s) (send s)
     \<and> pred_option (\<lambda>b. buf_disjoint (recv s) b \<and> buf_disjoint (send s) b) (split_recv s)
     \<and> list_all (\<lambda>r. RemoteWrite \<in> reg_access r \<longrightarrow>
          list_all (\<lambda>b. span_disjoint (reg_addr r) (reg_len r) (rb_addr b) (rb_len b))
            (pool_buffers s)) (regions (conn s))"

lemma layout_ok_cong:
  "statics t = statics s \<Longrightarrow> regions (conn t) = regions (conn s) \<Longrightarrow> layout_ok t = layout_ok s"
  by (auto simp: layout_ok_def statics_def pool_buffers_def)

lemma read_write_disjoint:
  assumes "span_disjoint a n b k" and "a \<le> x" and "x + i \<le> a + n" and "b \<le> y"
    and "y + length bs \<le> b + k"
  shows "read_mem (write_mem m y bs) x i = read_mem m x i"
  using assms by (auto simp: span_disjoint_def intro!: read_write_other)

section \<open>The two queues\<close>

definition msg_bytes :: "hord_stream \<Rightarrow> ready_msg \<Rightarrow> bytes" where
  "msg_bytes s m =
     read_mem (smem s) (rb_addr (slot_buf s (rm_slot m)) + rm_start m) (rm_end m - rm_start m)"

definition rx_bytes :: "hord_stream \<Rightarrow> bytes" where
  "rx_bytes s = concat (map (msg_bytes s) (rx_ready s))"

definition sent_payload :: "hord_stream \<Rightarrow> send_wr \<Rightarrow> bytes" where
  "sent_payload s w =
     read_mem (smem s) (sge_addr (hd (sw_sges w)) + ENVELOPE_LEN) (msg_len w)"

definition data_sends :: "connection \<Rightarrow> send_wr list" where
  "data_sends c = filter (\<lambda>w. data_lane (sw_id w)) (sq c)"

definition tx_bytes :: "hord_stream \<Rightarrow> bytes" where
  "tx_bytes s = concat (map (sent_payload s) (data_sends (conn s))) @ tx_stage s"

section \<open>Where the bytes are\<close>

lemma recv_slot_span:
  assumes "geometry s" and "slot < recv_slots s"
  shows "slot_buf s slot \<in> set (pool_buffers s)"
  using assms by (auto simp: slot_buf_def pool_buffers_def recv_slots_def split: if_splits)

lemma ready_span:
  assumes "geometry s" and "ready_ok s m"
  shows "rm_end m \<le> rb_len (slot_buf s (rm_slot m))" "rm_start m \<le> rm_end m"
  using slot_off_bound [OF assms(1), of "rm_slot m"] assms(2) by (auto simp: ready_ok_def)

lemma slot_buf_send_disjoint:
  assumes "geometry s" and "layout_ok s" and "slot < recv_slots s"
  shows "buf_disjoint (slot_buf s slot) (send s)"
  using assms
  by (auto simp: slot_buf_def layout_ok_def recv_slots_def span_disjoint_def split: if_splits)

text \<open>Filling a send slot leaves every byte the reader will see alone.\<close>

lemma msg_bytes_send_write:
  assumes "geometry s" and "layout_ok s" and "ready_ok s m"
    and "send_fits s slot n" and "length bs \<le> ENVELOPE_LEN + n"
    and "rm_end m - rm_start m = k"
  shows "read_mem (write_mem (smem s) (send_addr s slot) bs)
           (rb_addr (slot_buf s (rm_slot m)) + rm_start m) k = msg_bytes s m"
proof -
  have "buf_disjoint (slot_buf s (rm_slot m)) (send s)"
    using assms(3) by (intro slot_buf_send_disjoint assms(1,2)) (simp add: ready_ok_def)
  then show ?thesis
    unfolding msg_bytes_def assms(6) [symmetric]
    by (rule read_write_disjoint)
       (use assms ready_span [OF assms(1,3)] in \<open>auto simp: send_fits_def send_addr_def\<close>)
qed

section \<open>Reading takes a prefix\<close>

lemma rx_bytes_cong:
  assumes "statics t = statics s" and "smem t = smem s" and "rx_ready t = rx_ready s"
  shows "rx_bytes t = rx_bytes s"
  using assms statics_cong(5) [OF assms(1)] by (simp add: rx_bytes_def msg_bytes_def [abs_def])

lemma post_recv_slot_frame [frame_simps]:
  "smem (snd (post_recv_slot slot s)) = smem s"
  "statics (snd (post_recv_slot slot s)) = statics s"
  "sq (conn (snd (post_recv_slot slot s))) = sq (conn s)"
  "regions (conn (snd (post_recv_slot slot s))) = regions (conn s)"
  "tx_stage (snd (post_recv_slot slot s)) = tx_stage s"
  "send_credits (snd (post_recv_slot slot s)) = send_credits s"
  "grant_pending (snd (post_recv_slot slot s)) = grant_pending s"
  by (cases rule: post_recv_slot_cases [of slot s]; simp)+

lemma length_msg_bytes [simp]: "length (msg_bytes s m) = rm_end m - rm_start m"
  by (simp add: msg_bytes_def)

lemma msg_bytes_split:
  assumes "rm_start m + k \<le> rm_end m"
  shows "msg_bytes s m = read_mem (smem s) (rb_addr (slot_buf s (rm_slot m)) + rm_start m) k
           @ msg_bytes s (m\<lparr>rm_start := rm_start m + k\<rparr>)"
  using assms read_mem_append [of "smem s" "rb_addr (slot_buf s (rm_slot m)) + rm_start m" k
      "rm_end m - rm_start m - k"]
  by (simp add: msg_bytes_def add.assoc)

text \<open>One round of the read loop: the first \<open>tk\<close> bytes of the first message are copied.\<close>

lemma try_read_loop_step:
  assumes inv: "stream_ok s" and rx: "rx_ready s = m # ms" and lt: "length acc < n"
  defines "tk \<equiv> min (rm_end m - rm_start m) (n - length acc)"
  defines "got \<equiv> read_mem (smem s) (rb_addr (slot_buf s (rm_slot m)) + rm_start m) tk"
  shows "try_read_loop n acc s =
      (if rm_start m + tk = rm_end m
       then and_then (post_recv_slot (rm_slot m) (s\<lparr>rx_ready := ms\<rparr>)) (\<lambda>_ t.
              try_read_loop n (acc @ got) (t\<lparr>grant_pending := wrap_add32 (grant_pending t) 1\<rparr>))
       else try_read_loop n (acc @ got) (s\<lparr>rx_ready := m\<lparr>rm_start := rm_start m + tk\<rparr> # ms\<rparr>))"
    and "rm_start m + tk \<le> rm_end m" and "0 < tk" and "length got = tk" and "length acc + tk \<le> n"
    and "msg_bytes s m = got @ msg_bytes s (m\<lparr>rm_start := rm_start m + tk\<rparr>)"
proof -
  note g = stream_okD(1) [OF inv]
  have m: "ready_ok s m" using stream_okD(7) [OF inv] rx by simp
  have bo: "recv_slot s (rm_slot m) = Inr (slot_buf s (rm_slot m), slot_off s (rm_slot m))"
    using slot_off_bound(1) [OF g] m by (simp add: ready_ok_def)
  show fit: "rm_start m + tk \<le> rm_end m" "length got = tk" "length acc + tk \<le> n"
    using ready_span [OF g m] lt by (auto simp: tk_def got_def)
  show "0 < tk" using m lt by (auto simp: tk_def ready_ok_def)
  show "msg_bytes s m = got @ msg_bytes s (m\<lparr>rm_start := rm_start m + tk\<rparr>)"
    unfolding got_def by (rule msg_bytes_split [OF fit(1)])
  have "copy_out (slot_buf s (rm_slot m)) (rm_start m) tk (smem s) = Inr got"
    using ready_span [OF g m] fit by (auto simp: copy_out_def got_def)
  then show "try_read_loop n acc s =
      (if rm_start m + tk = rm_end m
       then and_then (post_recv_slot (rm_slot m) (s\<lparr>rx_ready := ms\<rparr>)) (\<lambda>_ t.
              try_read_loop n (acc @ got) (t\<lparr>grant_pending := wrap_add32 (grant_pending t) 1\<rparr>))
       else try_read_loop n (acc @ got) (s\<lparr>rx_ready := m\<lparr>rm_start := rm_start m + tk\<rparr> # ms\<rparr>))"
    using lt rx ready_span(2) [OF g m] bo
    by (simp add: try_read_loop.simps [of n acc s] Let_def tk_def [symmetric] and_then_def
        split: sum.split prod.split)
qed

lemma rx_bytes_Cons:
  "rx_ready s = m # ms \<Longrightarrow> rx_bytes s = msg_bytes s m @ concat (map (msg_bytes s) ms)"
  by (simp add: rx_bytes_def)

lemma msg_bytes_cong:
  "statics t = statics s \<Longrightarrow> smem t = smem s \<Longrightarrow> msg_bytes t = msg_bytes s"
  by (rule ext) (simp add: msg_bytes_def statics_cong(5) [of t s])

text \<open>The relation between the state before and after a read of \<open>cs\<close>.\<close>

definition read_refines :: "hord_stream \<Rightarrow> bytes \<Rightarrow> hord_stream \<Rightarrow> bool" where
  "read_refines s cs s' \<longleftrightarrow>
     rx_bytes s = cs @ rx_bytes s' \<and> statics s' = statics s \<and> smem s' = smem s"

lemma read_refines_step:
  assumes rx: "rx_ready s = m # ms" and t: "statics t = statics s" "smem t = smem s"
    and ready: "rx_ready t = (if rest = [] then ms else m' # ms)"
    and split: "msg_bytes s m = got @ rest" "rest \<noteq> [] \<Longrightarrow> msg_bytes s m' = rest"
    and more: "read_refines t cs s'"
  shows "read_refines s (got @ cs) s'"
  using more split ready t
  by (auto simp: read_refines_def rx rx_bytes_def msg_bytes_cong [OF t] split: if_splits)

lemma try_read_loop_refines:
  "stream_ok s \<Longrightarrow> length acc \<le> n \<Longrightarrow> try_read_loop n acc s = (Inr bs, s') \<Longrightarrow>
     \<exists>cs. bs = acc @ cs \<and> read_refines s cs s'
          \<and> length bs = min n (length acc + length (rx_bytes s))"
proof (induction "length (rx_ready s) + (n - length acc)" arbitrary: s acc rule: less_induct)
  case less
  note inv = less.prems(1) and le = less.prems(2) and run = less.prems(3)
  show ?case
  proof (cases "length acc < n \<and> rx_ready s \<noteq> []")
    case False
    then have "n = length acc \<or> rx_ready s = []" using le by auto
    moreover from this have "try_read_loop n acc s = (Inr acc, s)"
      by (subst try_read_loop.simps) auto
    then have "bs = acc" "s' = s" using run by simp_all
    ultimately have "bs = acc" "s' = s" "n = length acc \<or> rx_ready s = []" by simp_all
    then show ?thesis using le by (auto simp: read_refines_def rx_bytes_def)
  next
    case True
    then obtain m ms where rx: "rx_ready s = m # ms" and lt: "length acc < n"
      by (cases "rx_ready s") auto
    define tk where "tk = min (rm_end m - rm_start m) (n - length acc)"
    define got where "got = read_mem (smem s) (rb_addr (slot_buf s (rm_slot m)) + rm_start m) tk"
    define m' where "m' = m\<lparr>rm_start := rm_start m + tk\<rparr>"
    note step = try_read_loop_step [OF inv rx lt, folded tk_def, folded got_def m'_def]
    obtain t where t: "try_read_loop n (acc @ got) t = (Inr bs, s')" "stream_ok t"
        "statics t = statics s" "smem t = smem s"
        "rx_ready t = (if msg_bytes s m' = [] then ms else m' # ms)"
    proof (cases "rm_start m + tk = rm_end m")
      case True
      then obtain u where u: "post_recv_slot (rm_slot m) (s\<lparr>rx_ready := ms\<rparr>) = (Inr (), u)"
          "try_read_loop n (acc @ got) (u\<lparr>grant_pending := wrap_add32 (grant_pending u) 1\<rparr>) = (Inr bs, s')"
        using run step(1) by (auto split: and_then_splits)
      have "statics u = statics s" "smem u = smem s" "rx_ready u = ms"
        using post_recv_slot_frame(1,2) [of "rm_slot m" "s\<lparr>rx_ready := ms\<rparr>"]
          post_recv_slot_rx [of "rm_slot m" "s\<lparr>rx_ready := ms\<rparr>"] u(1) by simp_all
      moreover have "msg_bytes s m' = []" using True by (simp add: m'_def msg_bytes_def)
      ultimately show thesis
        using that [OF u(2)] consume_inv [OF inv rx] u(1) by simp
    next
      case False
      then have "msg_bytes s m' \<noteq> []" "m'\<lparr>rm_start := rm_start m'\<rparr> = m'"
        using step(2) by (simp_all add: m'_def flip: length_greater_0_conv)
      then show thesis
        using that [of "s\<lparr>rx_ready := m' # ms\<rparr>"] run step(1,2) False stream_ok_partial [OF inv rx]
        by (simp add: m'_def)
    qed
    have "length (rx_ready t) \<le> length (rx_ready s)" using t(5) rx by simp
    with step(3-5) lt have "length (rx_ready t) + (n - length (acc @ got))
        < length (rx_ready s) + (n - length acc)" by simp
    from less.hyps [OF this t(2) _ t(1)] step(4,5) obtain cs where
      cs: "bs = (acc @ got) @ cs" "read_refines t cs s'"
        "length bs = min n (length (acc @ got) + length (rx_bytes t))" by auto
    have "read_refines s (got @ cs) s'"
      by (rule read_refines_step [OF rx t(3,4) _ step(6) _ cs(2)]) (use t(5) in auto)
    moreover have "length (rx_bytes s) = length got + length (rx_bytes t)"
      using t(5) step(6) by (auto simp: rx rx_bytes_def msg_bytes_cong [OF t(3,4)]
          simp del: length_msg_bytes split: if_splits)
    ultimately show ?thesis using cs by (intro exI [of _ "got @ cs"]) simp
  qed
qed

text \<open>Returning credits does not touch what the reader will see.\<close>

lemma rx_bytes_send_write:
  assumes inv: "stream_ok s" and lay: "layout_ok s" and fit: "send_fits s slot n"
    and len: "length bs \<le> ENVELOPE_LEN + n"
    and t: "statics t = statics s" "smem t = write_mem (smem s) (send_addr s slot) bs"
      "rx_ready t = rx_ready s"
  shows "rx_bytes t = rx_bytes s"
proof -
  have "msg_bytes t m = msg_bytes s m" if "m \<in> set (rx_ready s)" for m
  proof -
    have "ready_ok s m" using stream_okD(7) [OF inv] that by (simp add: list_all_iff)
    from msg_bytes_send_write [OF stream_okD(1) [OF inv] lay this fit len refl]
    show ?thesis by (simp add: msg_bytes_def [of t] t(2) statics_cong(5) [OF t(1)])
  qed
  then show ?thesis by (simp add: rx_bytes_def t(3) cong: map_cong)
qed

lemma ctrl_slot_fits: "geometry s \<Longrightarrow> send_fits s (ctrl_slot s) 0"
  using send_fits_slot [of s "ctrl_slot s" 0] by (simp add: geometry_def)

lemma send_credit_return_rx:
  assumes inv: "stream_ok s" and lay: "layout_ok s"
  shows "rx_bytes (snd (send_credit_return s)) = rx_bytes s"
    and "rx_ready (snd (send_credit_return s)) = rx_ready s"
    and "tx_stage (snd (send_credit_return s)) = tx_stage s"
    and "statics (snd (send_credit_return s)) = statics s"
    and "regions (conn (snd (send_credit_return s))) = regions (conn s)"
proof -
  note W = rx_bytes_send_write [OF inv lay ctrl_slot_fits [OF stream_okD(1) [OF inv]]]
  show "rx_bytes (snd (send_credit_return s)) = rx_bytes s"
    by (cases rule: send_credit_return_cases [OF inv]) (auto intro!: W)
  show "rx_ready (snd (send_credit_return s)) = rx_ready s"
    "tx_stage (snd (send_credit_return s)) = tx_stage s"
    "statics (snd (send_credit_return s)) = statics s"
    "regions (conn (snd (send_credit_return s))) = regions (conn s)"
    by (cases rule: send_credit_return_cases [OF inv]; simp)+
qed

lemma layout_ok_read:
  "statics t = statics s \<Longrightarrow> regions (conn t) = regions (conn s) \<Longrightarrow> layout_ok s \<Longrightarrow> layout_ok t"
  using layout_ok_cong by blast

lemma try_read_loop_regions: "regions (conn (snd (try_read_loop n acc s))) = regions (conn s)"
proof (induction n acc s rule: try_read_loop.induct)
  case (1 n acc s)
  show ?case
  proof (cases "rx_ready s")
    case (Cons m ms)
    show ?thesis
      using 1(1) [OF _ Cons _ refl _ _ _ refl] 1(2) [OF _ Cons _ refl]
      by (subst try_read_loop.simps) (auto simp: Cons Let_def frame_simps split: sum.split)
  qed (simp add: try_read_loop.simps)
qed

lemma try_read_refines:
  assumes inv: "stream_ok s" and lay: "layout_ok s" and n: "0 < n"
    and run: "try_read n s = (Inr (Some bs), s')"
  shows "rx_bytes s = bs @ rx_bytes s'" and "length bs = min n (length (rx_bytes s))"
proof -
  have "rx_bytes s = bs @ rx_bytes s' \<and> length bs = min n (length (rx_bytes s))"
  proof (cases "rx_ready s = []")
    case True
    then show ?thesis using run n by (auto simp: try_read_def rx_bytes_def split: if_splits)
  next
    case False
    then have "and_then (try_read_loop n [] s) (\<lambda>bs s.
        and_then (maybe_return_credits (proactive_threshold s) s) (\<lambda>_ s. (Inr (Some bs), s)))
        = (Inr (Some bs), s')"
      using run n by (simp add: try_read_def)
    then obtain cs t where loop: "try_read_loop n [] s = (Inr cs, t)"
        and ret: "and_then (maybe_return_credits (proactive_threshold t) t)
          (\<lambda>_ s. (Inr (Some cs), s)) = (Inr (Some bs), s')"
      by (rule and_then_InrD)
    from ret obtain u where "maybe_return_credits (proactive_threshold t) t = (Inr (), s')" "cs = bs"
      by (elim and_then_InrD) simp
    with loop have t: "try_read_loop n [] s = (Inr bs, t)"
        "s' = snd (maybe_return_credits (proactive_threshold t) t)" by simp_all
    from try_read_loop_refines [OF inv _ t(1)] have r: "read_refines s bs t"
        "length bs = min n (length (rx_bytes s))" by simp_all
    have "stream_ok t" using ok.try_read_loop_pres [OF inv, of n "[]"] t(1) by simp
    moreover have "layout_ok t"
      using layout_ok_read [OF _ _ lay] r(1) try_read_loop_regions [of n "[]" s] t(1)
      by (simp add: read_refines_def)
    ultimately have "rx_bytes s' = rx_bytes t"
      by (simp add: t(2) maybe_return_credits_def send_credit_return_rx)
    with r show ?thesis by (simp add: read_refines_def)
  qed
  then show "rx_bytes s = bs @ rx_bytes s'" "length bs = min n (length (rx_bytes s))" by blast+
qed

section \<open>Writing appends\<close>

definition tx_queue :: "hord_stream \<Rightarrow> bytes" where
  "tx_queue s = concat (map (sent_payload s) (data_sends (conn s)))"

lemma tx_bytes_queue: "tx_bytes s = tx_queue s @ tx_stage s"
  by (simp add: tx_bytes_def tx_queue_def)

lemma data_send_entry:
  assumes "stream_ok s" and "w \<in> set (data_sends (conn s))"
  shows "slot_of (sw_id w) < send_pool s" "msg_len w \<le> payload_cap s"
    "sge_addr (hd (sw_sges w)) = send_addr s (slot_of (sw_id w))" "w \<in> set (sq (conn s))"
    "data_lane (sw_id w)"
proof -
  have w: "sq_entry_ok s w" "data_lane (sw_id w)" "w \<in> set (sq (conn s))"
    using assms stream_okD(11) [OF assms(1)] by (auto simp: data_sends_def list_all_iff)
  then have eq: "w = send_wr_of s (slot_of (sw_id w)) (send_wr_id (slot_of (sw_id w))) (msg_len w)"
    by (simp add: sq_entry_ok_def)
  show "sge_addr (hd (sw_sges w)) = send_addr s (slot_of (sw_id w))"
    by (subst eq) (simp add: send_wr_of_def)
qed (use assms stream_okD(11) [OF assms(1)] in \<open>auto simp: data_sends_def list_all_iff sq_entry_ok_def\<close>)

text \<open>A slot that is free is not the slot of a queued message.\<close>

lemma free_slot_not_queued:
  assumes inv: "stream_ok s" and w: "w \<in> set (data_sends (conn s))" and free: "slot \<in> set (send_free s)"
  shows "slot_of (sw_id w) \<noteq> slot"
proof -
  have "sw_id w \<in># filter_mset data_lane (send_ids s)"
    using data_send_entry(4,5) [OF inv w] by (auto simp: send_ids_def)
  then have "slot_of (sw_id w) \<in># image_mset slot_of (filter_mset data_lane (send_ids s))" by simp
  moreover have "slot \<in># mset (send_free s)" using free by simp
  ultimately show ?thesis
    using owned_distinct [OF stream_okD(3) [OF inv, unfolded send_owned_def]] by blast
qed

text \<open>Filling another slot leaves a queued message as it is.\<close>

lemma sent_payload_write:
  assumes inv: "stream_ok s" and w: "w \<in> set (data_sends (conn s))"
    and slot: "slot_of (sw_id w) \<noteq> slot" and len: "length bs \<le> msg_size s"
    and t: "smem t = write_mem (smem s) (send_addr s slot) bs"
  shows "sent_payload t w = sent_payload s w"
proof -
  note e = data_send_entry [OF inv w]
  let ?j = "slot_of (sw_id w)"
  have cap: "payload_cap s + ENVELOPE_LEN \<le> msg_size s"
    using stream_okD(1) [OF inv] by (simp add: geometry_def)
  have "?j * msg_size s + msg_size s \<le> slot * msg_size s
        \<or> slot * msg_size s + msg_size s \<le> ?j * msg_size s"
    using slot by (rule slot_disjoint)
  then have "send_addr s ?j + ENVELOPE_LEN + msg_len w \<le> send_addr s slot
        \<or> send_addr s slot + length bs \<le> send_addr s ?j + ENVELOPE_LEN"
    using cap e(2) len by (auto simp: send_addr_def)
  then show ?thesis
    by (simp add: sent_payload_def e(3) t read_write_other)
qed

lemma tx_queue_write:
  assumes "stream_ok s" and "\<And>w. w \<in> set (data_sends (conn s)) \<Longrightarrow> slot_of (sw_id w) \<noteq> slot"
    and "length bs \<le> msg_size s" and "smem t = write_mem (smem s) (send_addr s slot) bs"
  shows "concat (map (sent_payload t) (data_sends (conn s))) = tx_queue s"
  using sent_payload_write [OF assms(1) _ assms(2) assms(3,4)]
  by (simp add: tx_queue_def cong: map_cong)

lemma post_data_message_tx:
  assumes inv: "stream_ok s" and can: "can_send_data s" and len: "length payload \<le> payload_cap s"
    and run: "post_data_message payload s = (Inr u, s')"
  shows "tx_queue s' = tx_queue s @ payload"
proof -
  have ne: "send_free s \<noteq> []" using can by (simp add: can_send_data_def)
  define slot where "slot = last (send_free s)"
  have g: "geometry s" using stream_okD(1) [OF inv] .
  have "slot \<in># send_owned s" using ne by (simp add: send_owned_def slot_def)
  then have "slot < send_pool s" using in_owned_less [OF _ stream_okD(3) [OF inv]] by blast
  then have "slot < slot_bound" using g by (simp add: geometry_def)
  then have lane: "data_lane (send_wr_id slot)" by (simp add: data_lane_def wr_id_simps)
  show ?thesis
  proof (cases rule: post_data_message_cases [OF inv ne len])
    case (1 fs)
    let ?e = "\<lparr>env_length = of_nat (length payload),
      env_credits = of_nat (min (grant_pending s) 65535), env_flags = 0\<rparr>"
    let ?w = "send_wr_of s slot (send_wr_id slot) (length payload)"
    have s': "data_sends (conn s') = data_sends (conn s) @ [?w]"
      "smem s' = write_mem (smem s) (send_addr s slot) (envelope_bytes ?e @ payload)"
      using run 1 lane by (auto simp: data_sends_def slot_def)
    have "sent_payload s' ?w = payload"
      using g len s'(2) read_write_same [of "write_mem (smem s) (send_addr s slot) (envelope_bytes ?e)"
          "send_addr s slot + ENVELOPE_LEN" payload]
      by (simp add: sent_payload_def send_wr_of_len) 
         (simp add: send_wr_of_def write_mem_append [symmetric])
    moreover have "concat (map (sent_payload s') (data_sends (conn s))) = tx_queue s"
      using g len by (intro tx_queue_write [OF inv _ _ s'(2)])
        (use ne free_slot_not_queued [OF inv] in \<open>auto simp: geometry_def slot_def\<close>)
    ultimately show ?thesis by (simp add: tx_queue_def [of s'] s'(1))
  next
    case (2 fs)
    then show ?thesis using run by simp
  qed
qed

lemma send_credit_return_tx:
  assumes inv: "stream_ok s"
  shows "tx_queue (snd (send_credit_return s)) = tx_queue s"
proof -
  have g: "geometry s" using stream_okD(1) [OF inv] .
  then have "ctrl_slot s < slot_bound" by (simp add: geometry_def)
  then have lane: "\<not> data_lane (ctrl_send_wr_id (ctrl_slot s))" by (simp add: data_lane_def wr_id_simps)
  have other: "slot_of (sw_id w) \<noteq> ctrl_slot s" if "w \<in> set (data_sends (conn s))" for w
    using data_send_entry(1) [OF inv that] g by (simp add: geometry_def)
  note W = tx_queue_write [OF inv other]
  show ?thesis
  proof (cases rule: send_credit_return_cases [OF inv])
    case 1
    then show ?thesis by simp
  next
    case (2 fs)
    have "data_sends (conn (snd (send_credit_return s))) = data_sends (conn s)"
      using lane by (simp add: 2(1) data_sends_def)
    then show ?thesis
      using g by (subst tx_queue_def) (auto intro!: W simp: 2(1) geometry_def)
  next
    case (3 fs)
    have "data_sends (conn (snd (send_credit_return s))) = data_sends (conn s)"
      by (simp add: 3(1) data_sends_def)
    then show ?thesis
      using g by (subst tx_queue_def) (auto intro!: W simp: 3(1) geometry_def)
  qed
qed

lemma maybe_return_credits_tx:
  "stream_ok s \<Longrightarrow> tx_queue (snd (maybe_return_credits k s)) = tx_queue s"
  "stream_ok s \<Longrightarrow> tx_stage (snd (maybe_return_credits k s)) = tx_stage s"
proof -
  assume inv: "stream_ok s"
  show "tx_queue (snd (maybe_return_credits k s)) = tx_queue s"
    by (simp add: maybe_return_credits_def send_credit_return_tx inv)
  show "tx_stage (snd (maybe_return_credits k s)) = tx_stage s"
    by (cases rule: send_credit_return_cases [OF inv]) (simp_all add: maybe_return_credits_def)
qed

lemma tx_queue_stage [simp]: "tx_queue (s\<lparr>tx_stage := st\<rparr>) = tx_queue s"
  by (simp add: tx_queue_def sent_payload_def [abs_def])

lemma try_write_loop_refines:
  "stream_ok s \<Longrightarrow> tx_stage s = [] \<Longrightarrow> payload_cap s = cap \<Longrightarrow>
     try_write_loop cap input k s = (Inr n, s') \<Longrightarrow>
     k \<le> n \<and> n \<le> k + length input \<and> tx_bytes s' = tx_queue s @ take (n - k) input"
proof (induction cap input k s rule: try_write_loop.induct)
  case (1 cap input k s)
  note inv = 1(2) and stage = 1(3) and cap = 1(4) and run = 1(5)
  consider "\<not> cap \<le> length input" | "cap \<le> length input" "\<not> can_send_data s"
    | "cap \<le> length input" "can_send_data s" by blast
  then show ?case
  proof cases
    case 1
    then have "n = k + length input" "tx_queue s' = tx_queue s" "tx_stage s' = input"
      using run stage by (auto simp: try_write_loop.simps [of cap input k s] split: if_splits)
    then show ?thesis by (simp add: tx_bytes_queue)
  next
    case 2
    then have "and_then (maybe_return_credits 1 s) (\<lambda>_ s. (Inr k, s)) = (Inr n, s')"
      using run by (simp add: try_write_loop.simps [of cap input k s])
    then have "n = k" "s' = snd (maybe_return_credits 1 s)" by (auto elim: and_then_InrD)
    then show ?thesis
      using maybe_return_credits_tx [OF inv, of 1] stage by (simp add: tx_bytes_queue)
  next
    case 3
    define p where "p = post_data_message (take cap input) s"
    have "(case fst p of Inl e \<Rightarrow> (Inl e, snd p)
           | Inr _ \<Rightarrow> try_write_loop cap (drop cap input) (k + cap) (snd p)) = (Inr n, s')"
      using run 3 by (simp add: try_write_loop.simps [of cap input k s] Let_def p_def [symmetric])
    then obtain u where u: "fst p = Inr u"
        "try_write_loop cap (drop cap input) (k + cap) (snd p) = (Inr n, s')"
      by (cases "fst p") auto
    have len: "length (take cap input) \<le> payload_cap s" using cap by simp
    have q: "tx_queue (snd p) = tx_queue s @ take cap input"
      using post_data_message_tx [OF inv 3(2) len, of u "snd p"] u(1) by (simp add: p_def prod_eq_iff)
    have "stream_ok (snd p)" "tx_stage (snd p) = []" "payload_cap (snd p) = cap"
      using post_data_message_inv [OF inv 3(2) len] stage cap by (simp_all add: p_def frame_simps)
    from 1(1) [OF 3(1) _ p_def u(1) this u(2)] 3
    have "k + cap \<le> n" "n \<le> k + length input"
      "tx_bytes s' = tx_queue s @ take cap input @ take (n - (k + cap)) (drop cap input)"
      by (simp_all add: q)
    moreover from this have "take (n - k) input = take cap input @ take (n - (k + cap)) (drop cap input)"
      using take_add [of cap "n - (k + cap)" input] by simp
    ultimately show ?thesis by simp
  qed
qed

lemma try_write_refines:
  assumes inv: "stream_ok s" and run: "try_write buf s = (Inr n, s')"
  shows "n \<le> length buf \<and> tx_bytes s' = tx_bytes s @ take n buf"
proof -
  have open_s: "\<not> peer_closed s" using run by (auto simp: try_write_def)
  define tk where "tk = min (payload_cap s - length (tx_stage s)) (length buf)"
  have lt: "length (tx_stage s) < payload_cap s" using stream_okD(8) [OF inv] .
  consider "tx_stage s = []" | "tx_stage s \<noteq> []" "tk < payload_cap s - length (tx_stage s)"
    | "tx_stage s \<noteq> []" "\<not> tk < payload_cap s - length (tx_stage s)" "\<not> can_send_data s"
    | "tx_stage s \<noteq> []" "\<not> tk < payload_cap s - length (tx_stage s)" "can_send_data s"
    by blast
  then show ?thesis
  proof cases
    case 1
    then show ?thesis
      using run open_s try_write_loop_refines [OF inv _ refl, of buf 0 n s']
      by (simp add: try_write_def tx_bytes_queue)
  next
    case 2
    then show ?thesis
      using run open_s lt by (auto simp: try_write_def Let_def tk_def [symmetric] tx_bytes_queue)
  next
    case 3
    then have "and_then (maybe_return_credits 1 s) (\<lambda>_ s. (Inr 0, s)) = (Inr n, s')"
      using run open_s lt by (simp add: try_write_def Let_def tk_def [symmetric])
    then have "n = 0" "s' = snd (maybe_return_credits 1 s)" by (auto elim: and_then_InrD)
    then show ?thesis using maybe_return_credits_tx [OF inv, of 1] by (simp add: tx_bytes_queue)
  next
    case 4
    define s0 where "s0 = s\<lparr>tx_stage := []\<rparr>"
    have s0: "stream_ok s0" "can_send_data s0" "payload_cap s0 = payload_cap s" "tx_queue s0 = tx_queue s"
      using stream_ok_tx_stage [OF inv, of "[]"] 4(3) lt by (simp_all add: s0_def can_send_data_def)
    have len: "length (tx_stage s @ take tk buf) \<le> payload_cap s0" using lt by (simp add: tk_def s0_def)
    have "and_then (post_data_message (tx_stage s @ take tk buf) s0)
        (\<lambda>_. try_write_loop (payload_cap s) (drop tk buf) tk) = (Inr n, s')"
      using run open_s lt 4 by (simp add: try_write_def Let_def tk_def [symmetric] s0_def)
    then obtain u s1 where s1: "post_data_message (tx_stage s @ take tk buf) s0 = (Inr u, s1)"
        "try_write_loop (payload_cap s) (drop tk buf) tk s1 = (Inr n, s')" by (rule and_then_InrD)
    have "stream_ok s1" "tx_stage s1 = []" "payload_cap s1 = payload_cap s"
      using post_data_message_inv [OF s0(1,2) len]
        post_data_message_frame [of "tx_stage s @ take tk buf" s0] s1(1)
      by (simp_all add: s0_def)
    from try_write_loop_refines [OF this s1(2)] post_data_message_tx [OF s0(1,2) len s1(1)] s0(4)
    have "tk \<le> n" "n \<le> tk + (length buf - tk)"
      "tx_bytes s' = tx_queue s @ tx_stage s @ take tk buf @ take (n - tk) (drop tk buf)" by simp_all
    moreover have "take n buf = take tk buf @ take (n - tk) (drop tk buf)"
      using take_add [of tk "n - tk" buf] \<open>tk \<le> n\<close> by simp
    ultimately show ?thesis by (simp add: tx_bytes_queue tk_def)
  qed
qed

section \<open>The device cannot touch what is held\<close>

definition slot_addr :: "hord_stream \<Rightarrow> nat \<Rightarrow> nat" where
  "slot_addr s slot = rb_addr (slot_buf s slot) + slot_off s slot"

lemma rw_addr_slot_wr [simp]: "rw_addr (slot_wr s slot) = slot_addr s slot"
  by (simp add: slot_wr_def slot_addr_def)

lemma recv_slots_disjoint:
  assumes g: "geometry s" and lay: "layout_ok s" and i: "i < recv_slots s" and j: "j < recv_slots s"
    and "i \<noteq> j"
  shows "span_disjoint (slot_addr s i) (msg_size s) (slot_addr s j) (msg_size s)"
proof (cases "(i < split_base s) = (j < split_base s)")
  case True
  then have "(if i < split_base s then i else i - split_base s)
             \<noteq> (if j < split_base s then j else j - split_base s)" using \<open>i \<noteq> j\<close> by auto
  from slot_disjoint [OF this, of "msg_size s"] True show ?thesis
    by (auto simp: span_disjoint_def slot_addr_def slot_off_def slot_buf_def)
next
  case False
  then have "split_recv s \<noteq> None" using i j by (auto simp: recv_slots_def split: if_splits)
  then obtain b where b: "split_recv s = Some b" by blast
  have "buf_disjoint (recv s) b" using lay b by (simp add: layout_ok_def)
  then show ?thesis
    using slot_off_bound(2) [OF g i] slot_off_bound(2) [OF g j] False b
    by (auto simp: span_disjoint_def slot_addr_def slot_buf_def split: if_splits)
qed

lemma remote_write_misses_pool:
  assumes lay: "layout_ok s" and rw: "remote_writable (conn s) a k n"
    and b: "b \<in> set (pool_buffers s)"
  shows "span_disjoint a n (rb_addr b) (rb_len b)"
  using assms
  by (fastforce simp: remote_writable_def layout_ok_def list_ex_iff list_all_iff span_disjoint_def)

text \<open>
  Whatever the NIC does, a receive slot that is not posted, and the whole send pool, keep
  their bytes.
\<close>

lemma nic_step_mem:
  "mem (nic_step ev c) = mem c
   \<or> (\<exists>w ws bs. rq c = w # ws \<and> length bs \<le> rw_len w
        \<and> mem (nic_step ev c) = write_mem (mem c) (rw_addr w) bs)
   \<or> (\<exists>a k bs. remote_writable c a k (length bs) \<and> mem (nic_step ev c) = write_mem (mem c) a bs)"
proof (cases ev)
  case (NicRecv bs)
  then show ?thesis by (fastforce simp: report_def split: list.split)
next
  case (NicRecvImm a k bs imm)
  then show ?thesis by (cases "bs = []") (fastforce simp: report_def split: list.split)+
next
  case (NicWrite a k bs)
  then show ?thesis by (cases "remote_writable c a k (length bs)"; simp) blast
qed (auto simp: report_def split: list.split)

lemma nic_step_slot_stable:
  assumes inv: "stream_ok s" and lay: "layout_ok s" and j: "j < recv_slots s"
    and free: "\<And>w. w \<in> set (rq (conn s)) \<Longrightarrow> slot_of (rw_id w) \<noteq> j"
    and x: "slot_addr s j \<le> x" "x + n \<le> slot_addr s j + msg_size s"
  shows "read_mem (mem (nic_step ev (conn s))) x n = read_mem (smem s) x n"
proof -
  note g = stream_okD(1) [OF inv]
  have recv: "read_mem (write_mem (smem s) (rw_addr w) bs) x n = read_mem (smem s) x n"
    if "rq (conn s) = w # ws" "length bs \<le> rw_len w" for w ws bs
  proof -
    have w: "slot_of (rw_id w) < recv_slots s" "w = slot_wr s (slot_of (rw_id w))"
      using posted_recv_lane(2,3) [OF inv] that(1) by auto
    have "slot_of (rw_id w) \<noteq> j" using free that(1) by simp
    then have "span_disjoint (slot_addr s j) (msg_size s) (slot_addr s (slot_of (rw_id w))) (msg_size s)"
      using recv_slots_disjoint [OF g lay j w(1)] by simp
    moreover have "rw_addr w = slot_addr s (slot_of (rw_id w))"
      using arg_cong [OF w(2), of rw_addr] by simp
    moreover have "rw_len w \<le> msg_size s"
      using arg_cong [OF w(2), of rw_len] by simp
    ultimately show ?thesis
      using that(2) by (intro read_write_disjoint [of "slot_addr s j" "msg_size s"
            "slot_addr s (slot_of (rw_id w))" "msg_size s"]) (use x in auto)
  qed
  have remote: "read_mem (write_mem (smem s) a bs) x n = read_mem (smem s) x n"
    if "remote_writable (conn s) a k (length bs)" for a k bs
  proof -
    have "span_disjoint a (length bs) (rb_addr (slot_buf s j)) (rb_len (slot_buf s j))"
      by (rule remote_write_misses_pool [OF lay that recv_slot_span [OF g j]])
    then show ?thesis
      using x slot_off_bound(2) [OF g j]
      by (intro read_write_other) (auto simp: span_disjoint_def slot_addr_def)
  qed
  show ?thesis using nic_step_mem [of ev "conn s"] recv remote by auto
qed

lemma nic_step_send_stable:
  assumes inv: "stream_ok s" and lay: "layout_ok s"
    and x: "rb_addr (send s) \<le> x" "x + n \<le> rb_addr (send s) + rb_len (send s)"
  shows "read_mem (mem (nic_step ev (conn s))) x n = read_mem (smem s) x n"
proof -
  note g = stream_okD(1) [OF inv]
  have recv: "read_mem (write_mem (smem s) (rw_addr w) bs) x n = read_mem (smem s) x n"
    if "rq (conn s) = w # ws" "length bs \<le> rw_len w" for w ws bs
  proof -
    define i where "i = slot_of (rw_id w)"
    have i: "i < recv_slots s" "w = slot_wr s i"
      using posted_recv_lane(2,3) [OF inv] that(1) by (auto simp: i_def)
    have "rw_len w \<le> msg_size s" using arg_cong [OF i(2), of rw_len] by simp
    moreover have "rw_addr w = slot_addr s i" using arg_cong [OF i(2), of rw_addr] by simp
    ultimately show ?thesis
      using slot_buf_send_disjoint [OF g lay i(1)] slot_off_bound(2) [OF g i(1)] x that(2)
      by (intro read_write_other) (auto simp: span_disjoint_def slot_addr_def)
  qed
  have remote: "read_mem (write_mem (smem s) a bs) x n = read_mem (smem s) x n"
    if "remote_writable (conn s) a k (length bs)" for a k bs
    using remote_write_misses_pool [OF lay that, of "send s"] x
    by (intro read_write_other) (auto simp: span_disjoint_def pool_buffers_def)
  show ?thesis using nic_step_mem [of ev "conn s"] recv remote by auto
qed

lemma held_slot_not_posted:
  assumes inv: "stream_ok s" and m: "m \<in> set (rx_ready s)" and w: "w \<in> set (rq (conn s))"
  shows "slot_of (rw_id w) \<noteq> rm_slot m"
proof -
  have "mset (map (\<lambda>w. slot_of (rw_id w)) (rq (conn s))) + mset (map rm_slot (rx_ready s))
        \<subseteq># mset [0..<recv_slots s]"
    using stream_okD(2) [OF inv]
    by (rule subset_mset.order_trans [rotated]) (simp add: recv_owned_def)
  from owned_distinct [OF this] show ?thesis using m w by auto
qed

lemma rx_bytes_nic_step:
  assumes inv: "stream_ok s" and lay: "layout_ok s"
  shows "rx_bytes (s\<lparr>conn := nic_step ev (conn s)\<rparr>) = rx_bytes s"
proof -
  have "msg_bytes (s\<lparr>conn := nic_step ev (conn s)\<rparr>) m = msg_bytes s m" if m: "m \<in> set (rx_ready s)" for m
  proof -
    have r: "ready_ok s m" using stream_okD(7) [OF inv] m by (simp add: list_all_iff)
    then show ?thesis
      using nic_step_slot_stable [OF inv lay, of "rm_slot m"] held_slot_not_posted [OF inv m]
      by (simp add: msg_bytes_def ready_ok_def slot_addr_def)
  qed
  then show ?thesis by (simp add: rx_bytes_def cong: map_cong)
qed

section \<open>What no operation changes\<close>

text \<open>Buffers, sizes, registrations, the heap and the queue pair's SGE limit are fixed once set up.\<close>

definition fixtures where
  "fixtures s = (statics s, regions (conn s), max_send_sge (conn s), brk (conn s))"

lemma fixtures_conn:
  assumes "regions c = regions (conn s)" and "max_send_sge c = max_send_sge (conn s)"
    and "brk c = brk (conn s)"
  shows "fixtures (s\<lparr>conn := c\<rparr>) = fixtures s"
  using assms by (simp add: fixtures_def)

lemma fixtures_simps [simp]:
  "fixtures (s\<lparr>rx_ready := ms\<rparr>) = fixtures s" "fixtures (s\<lparr>send_free := fs\<rparr>) = fixtures s"
  "fixtures (s\<lparr>ctrl_send_busy := b\<rparr>) = fixtures s" "fixtures (s\<lparr>peer_closed := b\<rparr>) = fixtures s"
  "fixtures (s\<lparr>send_credits := k\<rparr>) = fixtures s" "fixtures (s\<lparr>grant_pending := k\<rparr>) = fixtures s"
  "fixtures (s\<lparr>tx_stage := bs\<rparr>) = fixtures s" "fixtures (s\<lparr>completed_transfers := ts\<rparr>) = fixtures s"
  "fixtures (s\<lparr>writes_outstanding := k\<rparr>) = fixtures s" "fixtures (s\<lparr>imm_outstanding := k\<rparr>) = fixtures s"
  by (simp_all add: fixtures_def)

lemma nic_step_fixtures: "fixtures (s\<lparr>conn := nic_step ev (conn s)\<rparr>) = fixtures s"
  by (rule fixtures_conn) (cases ev; simp add: report_def split: list.split)+

lemma post_recv_slot_fixtures: "fixtures (snd (post_recv_slot slot s)) = fixtures s"
  by (cases rule: post_recv_slot_cases [of slot s]) (simp_all add: fixtures_conn)

lemma handle_recv_fixtures: "fixtures (snd (handle_recv wc s)) = fixtures s"
  by (cases rule: handle_recv_cases [of wc s])
     (simp_all add: snd_and_then post_recv_slot_fixtures split: sum.split)

lemma handle_completion_fixtures: "fixtures (snd (handle_completion wc s)) = fixtures s"
  by (simp add: handle_completion_def Let_def reclaim_send_def post_recv_slot_fixtures
      handle_recv_fixtures)

lemma post_send_conn:
  "regions (snd (post_send i a l k c)) = regions c" "max_send_sge (snd (post_send i a l k c)) = max_send_sge c"
  "brk (snd (post_send i a l k c)) = brk c"
  by (cases rule: post_send_cases [of i a l k c]; simp)+

lemma post_into_fixtures: "fixtures (snd (post_into slot i e payload s)) = fixtures s"
  by (auto simp: post_into_def Let_def on_conn_eq fixtures_conn post_send_conn split: sum.split)

lemma post_data_message_fixtures: "fixtures (snd (post_data_message payload s)) = fixtures s"
proof -
  let ?e = "\<lparr>env_length = of_nat (length payload), env_credits = of_nat (min (grant_pending s) 65535),
       env_flags = 0\<rparr>"
  obtain r s1 where pi: "post_into (last (send_free s)) (send_wr_id (last (send_free s))) ?e payload
      (s\<lparr>send_free := butlast (send_free s)\<rparr>) = (r, s1)" by fastforce
  then have "fixtures s1 = fixtures s" by (metis post_into_fixtures fixtures_simps(2) snd_conv)
  then show ?thesis
    by (simp add: post_data_message_def Let_def pi split: sum.split fault.split)
qed

lemma send_credit_return_fixtures: "fixtures (snd (send_credit_return s)) = fixtures s"
proof -
  let ?e = "\<lparr>env_length = 0, env_credits = of_nat (min (grant_pending s) 65535),
       env_flags = CREDIT_ONLY\<rparr>"
  obtain r s1 where pi: "post_into (ctrl_slot s) (ctrl_send_wr_id (ctrl_slot s)) ?e [] s = (r, s1)"
    by fastforce
  then have "fixtures s1 = fixtures s" by (metis post_into_fixtures snd_conv)
  then show ?thesis
    by (simp add: send_credit_return_def Let_def pi split: sum.split fault.split)
qed

interpretation fixed: stream_property "\<lambda>s. fixtures s = k" for k
  by unfold_locales
     (simp_all add: nic_step_fixtures handle_completion_fixtures post_data_message_fixtures
       send_credit_return_fixtures post_recv_slot_fixtures fixtures_conn snd_and_then split: sum.split)

lemma layout_ok_fixtures: "fixtures t = fixtures s \<Longrightarrow> layout_ok t = layout_ok s"
  by (rule layout_ok_cong) (simp_all add: fixtures_def)

section \<open>Received bytes only grow\<close>

lemma rx_bytes_irrelevant [simp]:
  "rx_bytes (s\<lparr>send_credits := k\<rparr>) = rx_bytes s" "rx_bytes (s\<lparr>grant_pending := k\<rparr>) = rx_bytes s"
  "rx_bytes (s\<lparr>peer_closed := b\<rparr>) = rx_bytes s" "rx_bytes (s\<lparr>completed_transfers := ts\<rparr>) = rx_bytes s"
  "rx_bytes (s\<lparr>writes_outstanding := k\<rparr>) = rx_bytes s" "rx_bytes (s\<lparr>imm_outstanding := k\<rparr>) = rx_bytes s"
  "rx_bytes (s\<lparr>send_free := fs\<rparr>) = rx_bytes s" "rx_bytes (s\<lparr>ctrl_send_busy := b\<rparr>) = rx_bytes s"
  "rx_bytes (s\<lparr>conn := (conn s)\<lparr>arrivals := evs\<rparr>\<rparr>) = rx_bytes s"
  "rx_bytes (s\<lparr>conn := (conn s)\<lparr>cq := q\<rparr>\<rparr>) = rx_bytes s"
  "rx_bytes (s\<lparr>conn := (conn s)\<lparr>cm_events := es\<rparr>\<rparr>) = rx_bytes s"
  by (rule rx_bytes_cong; simp)+

lemma rx_bytes_post_recv_slot [simp]: "rx_bytes (snd (post_recv_slot slot s)) = rx_bytes s"
  by (rule rx_bytes_cong) (simp_all add: frame_simps)

lemma handle_recv_rx: "\<exists>bs. rx_bytes (snd (handle_recv wc s)) = rx_bytes s @ bs"
proof (cases rule: handle_recv_cases [of wc s])
  case (data off n e cr)
  define m where "m = \<lparr>rm_slot = slot_of (wc_wr_id wc), rm_start = off + ENVELOPE_LEN,
    rm_end = off + ENVELOPE_LEN + min (unat (env_length e)) (n - ENVELOPE_LEN)\<rparr>"
  define t where "t = s\<lparr>send_credits := cr, rx_ready := rx_ready s @ [m]\<rparr>"
  have "msg_bytes t = msg_bytes s" by (rule msg_bytes_cong) (simp_all add: t_def)
  then have "rx_bytes t = rx_bytes s @ msg_bytes s m" by (simp add: rx_bytes_def t_def)
  then show ?thesis using data(8) by (auto simp: t_def m_def)
qed (auto simp: snd_and_then split: sum.split)

lemma handle_completion_rx: "\<exists>bs. rx_bytes (snd (handle_completion wc s)) = rx_bytes s @ bs"
  using handle_recv_rx [of wc s]
  by (simp add: handle_completion_def Let_def reclaim_send_def)

lemma rx_bytes_settle:
  assumes "stream_ok s" and "layout_ok s"
  shows "rx_bytes (s\<lparr>conn := settle (conn s)\<rparr>) = rx_bytes s"
proof -
  have fold: "stream_ok u \<Longrightarrow> layout_ok u \<Longrightarrow> rx_bytes (u\<lparr>conn := fold nic_step evs (conn u)\<rparr>) = rx_bytes u"
    for u evs
  proof (induction evs arbitrary: u)
    case (Cons ev evs)
    let ?v = "u\<lparr>conn := nic_step ev (conn u)\<rparr>"
    have "stream_ok ?v" "layout_ok ?v"
      using Cons.prems stream_ok_nic_step layout_ok_fixtures [OF nic_step_fixtures] by simp_all
    from Cons.IH [OF this] show ?case using rx_bytes_nic_step [OF Cons.prems, of ev] by simp
  qed simp
  show ?thesis
  proof (cases "arrivals (conn s)")
    case (Cons evs rest)
    let ?t = "s\<lparr>conn := (if qp (conn s) = None then conn s else fold nic_step evs (conn s))\<rparr>"
    have "rx_bytes ?t = rx_bytes s" using fold [OF assms] by simp
    then show ?thesis
      using rx_bytes_irrelevant(9) [where s = ?t and evs = rest] by (simp add: settle_def Cons)
  qed (simp add: settle_def)
qed

text \<open>The invariant the byte-queue laws need.\<close>

definition queue_ok :: "hord_stream \<Rightarrow> bool" where
  "queue_ok s \<longleftrightarrow> stream_ok s \<and> layout_ok s"

lemma layout_ok_pres:
  assumes "\<And>k. fixtures s = k \<Longrightarrow> fixtures t = k" and "layout_ok s"
  shows "layout_ok t"
  using assms layout_ok_fixtures by blast

lemma layout_snd:
  assumes "layout_ok s"
  shows "layout_ok (snd (handle_completion wc s))" "layout_ok (snd (post_data_message payload s))"
    "layout_ok (snd (send_credit_return s))" "layout_ok (snd (post_recv_slot slot s))"
    "layout_ok (s\<lparr>conn := nic_step ev (conn s)\<rparr>)"
  using assms layout_ok_fixtures handle_completion_fixtures post_data_message_fixtures
    send_credit_return_fixtures post_recv_slot_fixtures nic_step_fixtures by blast+

lemma layout_ok_upd [simp]:
  "layout_ok (s\<lparr>rx_ready := ms\<rparr>) = layout_ok s" "layout_ok (s\<lparr>peer_closed := b\<rparr>) = layout_ok s"
  "layout_ok (s\<lparr>grant_pending := k\<rparr>) = layout_ok s" "layout_ok (s\<lparr>tx_stage := bs\<rparr>) = layout_ok s"
  "layout_ok (s\<lparr>completed_transfers := ts\<rparr>) = layout_ok s"
  "layout_ok (s\<lparr>conn := (conn s)\<lparr>arrivals := evs\<rparr>\<rparr>) = layout_ok s"
  "layout_ok (s\<lparr>conn := (conn s)\<lparr>cm_events := es\<rparr>\<rparr>) = layout_ok s"
  "layout_ok (s\<lparr>conn := (conn s)\<lparr>cq := q\<rparr>\<rparr>) = layout_ok s"
  by (rule layout_ok_fixtures; simp add: fixtures_conn)+

interpretation queue: stream_safe queue_ok
proof unfold_locales
  fix s m ms assume "queue_ok s" "rx_ready s = m # ms"
  then show "queue_ok (snd (and_then (post_recv_slot (rm_slot m) (s\<lparr>rx_ready := ms\<rparr>))
           (\<lambda>_ s. (Inr (), s\<lparr>grant_pending := wrap_add32 (grant_pending s) 1\<rparr>))))"
    using ok.P_consume [of s m ms] by (auto simp: queue_ok_def snd_and_then layout_snd split: sum.split)
qed (use ok.P_rx_bounds ok.P_rx_buf in \<open>auto simp: queue_ok_def layout_snd ok.P_nic ok.P_closed ok.P_take
    ok.P_cq_fault ok.P_reap ok.P_stage ok.P_unstage ok.P_post_data ok.P_credit
    ok.P_partial ok.P_stage_cap ok.P_reap_safe ok.P_post_safe ok.P_credit_safe\<close>)

interpretation rx_grows: pump_property "\<lambda>t. queue_ok t \<and> (\<exists>bs. rx_bytes t = base @ bs)" for base
proof unfold_locales
  fix s r rest
  assume s: "queue_ok s \<and> (\<exists>bs. rx_bytes s = base @ bs)" and cq: "cq (conn s) = CqWc r # rest"
  let ?t = "snd (handle_completion (completion_of_raw r) (s\<lparr>conn := (conn s)\<lparr>cq := rest\<rparr>\<rparr>))"
  have "\<exists>bs. rx_bytes ?t = rx_bytes s @ bs"
    using handle_completion_rx [of "completion_of_raw r" "s\<lparr>conn := (conn s)\<lparr>cq := rest\<rparr>\<rparr>"] by simp
  then show "queue_ok ?t \<and> (\<exists>bs. rx_bytes ?t = base @ bs)"
    using s queue.P_reap [OF _ cq] by fastforce
qed (auto simp: queue.P_nic queue.P_script queue.P_cm queue.P_closed queue.P_cq_fault
    rx_bytes_nic_step queue_ok_def [THEN iffD1])

lemma pump_rx: "pump block s = Some y \<Longrightarrow> queue_ok s \<Longrightarrow> \<exists>bs. rx_bytes (snd y) = rx_bytes s @ bs"
  using rx_grows.pump_pres [of block s y "rx_bytes s"] by auto

lemma return_owed_credits_rx:
  "queue_ok s \<Longrightarrow> rx_bytes (snd (return_owed_credits urgent s)) = rx_bytes s"
  by (simp add: return_owed_credits_def maybe_return_credits_def send_credit_return_rx queue_ok_def)

section \<open>The blocking reader\<close>

text \<open>
  A blocking read returns the next bytes of the stream, in order: what it returns, followed
  by what it leaves, is what was there before followed by what arrived meanwhile. It returns
  nothing only at the end of the stream.
\<close>

definition read_law :: "nat \<Rightarrow> hord_stream \<Rightarrow> bytes \<Rightarrow> hord_stream \<Rightarrow> bool" where
  "read_law n s bs s' \<longleftrightarrow>
     (\<exists>new. rx_bytes s @ new = bs @ rx_bytes s') \<and> length bs \<le> n
     \<and> (0 < n \<and> bs = [] \<longrightarrow> peer_closed s' \<and> rx_bytes s' = [])"

lemma rx_bytes_empty:
  assumes "stream_ok s" and "rx_bytes s = []"
  shows "rx_ready s = []"
proof (rule ccontr)
  assume "rx_ready s \<noteq> []"
  then obtain m ms where rx: "rx_ready s = m # ms" by (cases "rx_ready s") auto
  then have "ready_ok s m" using stream_okD(7) [OF assms(1)] by simp
  then have "0 < length (rx_bytes s)" by (simp add: ready_ok_def rx_bytes_Cons [OF rx])
  then show False using assms(2) by simp
qed

lemma try_read_law:
  assumes "queue_ok s" and "try_read n s = (Inr (Some bs), s')"
  shows "read_law n s bs s'"
proof (cases "n = 0 \<or> rx_ready s = []")
  case True
  then show ?thesis
    using assms(2) by (auto simp: try_read_def read_law_def rx_bytes_def split: if_splits)
next
  case False
  then have n: "0 < n" by simp
  have inv: "stream_ok s" "layout_ok s" using assms(1) by (simp_all add: queue_ok_def)
  note r = try_read_refines [OF inv n assms(2)]
  have "rx_bytes s \<noteq> []" using rx_bytes_empty [OF inv(1)] False by blast
  then have "0 < length (rx_bytes s)" by simp
  with r(2) n have "0 < length bs" "length bs \<le> n" by linarith+
  moreover have "rx_bytes s @ [] = bs @ rx_bytes s'" using r(1) by simp
  ultimately show ?thesis unfolding read_law_def by blast
qed

lemma try_read_none:
  assumes "try_read n s = (Inr None, s')"
  shows "s' = s"
proof (cases "n = 0 \<or> rx_ready s = []")
  case False
  then have "and_then (try_read_loop n [] s) (\<lambda>bs s. and_then
      (maybe_return_credits (proactive_threshold s) s) (\<lambda>_ s. (Inr (Some bs), s))) = (Inr None, s')"
    using assms by (simp add: try_read_def)
  then show ?thesis by (auto elim!: and_then_InrD)
qed (use assms in \<open>auto simp: try_read_def split: if_splits\<close>)

lemma read_law_prefix:
  assumes "rx_bytes t = rx_bytes s @ new" and "read_law n t bs s'"
  shows "read_law n s bs s'"
  using assms by (auto simp: read_law_def)

lemma hord_read_law:
  assumes "hord_read n s = Some y"
  shows "queue_ok s \<longrightarrow> (\<forall>bs. fst y = Inr bs \<longrightarrow> read_law n s bs (snd y))"
  using assms
proof (induction n s y rule: hord_read.raw_induct [rotated, consumes 1, case_names step])
  case (step f n s y)
  show ?case
  proof (intro impI allI)
    fix bs assume q: "queue_ok s" and bs: "fst y = Inr bs"
    then obtain s' where y: "y = (Inr bs, s')" by (cases y) auto
    obtain got t where t: "try_read n s = (Inr got, t)"
        "(case got of Some bs \<Rightarrow> Some (Inr bs, t)
          | None \<Rightarrow> then_loop (Some (return_owed_credits False t)) (\<lambda>_ s.
               then_loop (pump True s) (\<lambda>_ s. f n s))) = Some (Inr bs, s')"
      using step(2) unfolding y by (elim then_loop_SomeD) auto
    have "read_law n s bs s'"
    proof (cases got)
      case (Some cs)
      then show ?thesis using t q try_read_law [of s n cs t] by auto
    next
      case None
      then have ts: "t = s" using t(1) try_read_none by simp
      with None t(2) obtain u where u: "return_owed_credits False s = (Inr (), u)"
          "then_loop (pump True u) (\<lambda>_ s. f n s) = Some (Inr bs, s')"
        by (auto elim: then_loop_SomeD)
      from u(2) obtain a v where v: "pump True u = Some (Inr a, v)" "f n v = Some (Inr bs, s')"
        by (rule then_loop_SomeD)
      have qu: "queue_ok u" "rx_bytes u = rx_bytes s"
        using queue.return_owed_credits_pres [OF q, of False] return_owed_credits_rx [OF q, of False] u(1)
        by simp_all
      obtain new where new: "rx_bytes v = rx_bytes s @ new"
        using pump_rx [OF v(1) qu(1)] qu(2) by auto
      have "queue_ok v" using queue.pump_pres [OF v(1) qu(1)] by simp
      with step(1) [OF v(2)] have "read_law n v bs s'" by simp
      with new show ?thesis by (rule read_law_prefix)
    qed
    then show "read_law n s bs (snd y)" by (simp add: y)
  qed
qed

end
