(* ===== verification/Blocking.thy ===== *)
theory Blocking
  imports Byte_Queue
begin

text \<open>
  The blocking facades under the endpoint invariant: whatever \<open>pump(true)\<close>, \<open>read\<close>, \<open>write\<close>,
  \<open>flush\<close> and \<open>poll_completed_transfer\<close> return, they leave the invariant in place and do not
  panic; a flush that succeeds leaves nothing unsent; a busy-wait ends when the connection
  manager reports the peer gone.
\<close>

section \<open>Outcomes without panics\<close>

definition safe_outcome :: "('s \<Rightarrow> bool) \<Rightarrow> 'a res \<times> 's \<Rightarrow> bool" where
  "safe_outcome P y \<longleftrightarrow> P (snd y) \<and> fst y \<noteq> Inl Panic"

lemma safe_outcome_simps [simp]:
  "safe_outcome P (Inr a, s) \<longleftrightarrow> P s"
  "safe_outcome P (Inl e, s) \<longleftrightarrow> P s \<and> e \<noteq> Panic"
  by (auto simp: safe_outcome_def)

lemma then_loop_safe:
  assumes "then_loop r f = Some y" and "\<And>z. r = Some z \<Longrightarrow> safe_outcome P z"
    and "\<And>a s. f a s = Some y \<Longrightarrow> P s \<Longrightarrow> safe_outcome P y"
  shows "safe_outcome P y"
proof -
  from assms(1) obtain z where z: "r = Some z" by (cases r) auto
  from assms(2) [OF z] have "safe_outcome P z" .
  with assms(1) assms(3) [of _ "snd z"] show ?thesis
    by (auto simp: z then_loop_def safe_outcome_def split: sum.splits)
qed

lemma then_once_safe:
  assumes "then_loop (Some p) f = Some y" and "safe_outcome P p"
    and "\<And>a s. f a s = Some y \<Longrightarrow> P s \<Longrightarrow> safe_outcome P y"
  shows "safe_outcome P y"
  using assms(1) by (rule then_loop_safe) (use assms(2,3) in auto)

context stream_safe
begin

lemma poll_cm_disconnect_safe: "P s \<Longrightarrow> safe_outcome P (poll_cm_disconnect s)"
  using poll_cm_disconnect_pres [of s]
  by (auto simp: safe_outcome_def poll_cm_disconnect_def fst_and_then on_conn_eq check_disconnect_def
      get_cm_event_def split: sum.splits list.splits cm_poll.splits)

lemma reap_safe:
  assumes "P s" and "fst (poll (conn s)) = Inr (Some wc)"
  shows "fst (handle_completion wc (s\<lparr>conn := snd (poll (conn s))\<rparr>)) \<noteq> Inl Panic"
  using P_reap_safe [OF settle_pres [OF assms(1)]] assms(2)
  by (auto simp: poll_def Let_def split: list.splits cq_entry.splits)

lemma pump_loop_safe:
  assumes "pump_loop block spins s = Some y"
  shows "P s \<longrightarrow> safe_outcome P y"
  using assms
proof (induction block spins s y rule: pump_loop.raw_induct [rotated, consumes 1, case_names 1])
  case (1 f block spins s y)
  note IH = 1(1) and body = 1(2)
  show ?case
  proof
    assume P: "P s"
    define s1 where "s1 = s\<lparr>conn := snd (poll (conn s))\<rparr>"
    consider e where "fst (poll (conn s)) = Inl e" | "fst (poll (conn s)) = Inr None"
      | wc where "fst (poll (conn s)) = Inr (Some wc)"
      by (metis not_None_eq sum.exhaust)
    then show "safe_outcome P y"
    proof cases
      case (1 e)
      then show ?thesis
        using body poll_pres(2) [OF P] poll_safe [of "conn s"] by (auto simp: on_conn_eq)
    next
      case 2
      then have s1: "P s1" unfolding s1_def using poll_pres(2) [OF P] by simp
      note q = poll_cm_disconnect_safe [OF s1]
      show ?thesis
        using IH [of block 0 "snd (poll_cm_disconnect s1)" y] IH [of block "spins + 1" s1 y]
          body 2 s1 q
        by (auto simp: on_conn_eq Let_def s1_def [symmetric] safe_outcome_def
            split: if_splits sum.splits)
    next
      case (3 wc)
      then show ?thesis
        using body poll_pres(1) [OF P 3] reap_safe [OF P 3]
        by (auto simp: on_conn_eq Let_def snd_and_then fst_and_then safe_outcome_def
            split: sum.splits)
    qed
  qed
qed

lemma pump_safe: "pump block s = Some y \<Longrightarrow> P s \<Longrightarrow> safe_outcome P y"
  using pump_loop_safe by (auto simp: pump_def)

lemma pump_then_safe:
  assumes "then_loop (pump block t) (\<lambda>_ s. f s) = Some y" and "P t"
    and "\<And>s. f s = Some y \<Longrightarrow> P s \<longrightarrow> safe_outcome P y"
  shows "safe_outcome P y"
  using assms(1) by (rule then_loop_safe) (use assms(2,3) pump_safe in auto)

lemma nonblocking_safe:
  assumes "P s"
  shows "safe_outcome P (try_read n s)" "safe_outcome P (try_write buf s)"
    "safe_outcome P (try_flush_stage s)" "safe_outcome P (return_owed_credits urgent s)"
  using assms P_stage_cap [OF assms]
  by (simp_all add: safe_outcome_def try_read_pres try_read_safe try_write_pres try_write_safe
      try_flush_stage_pres try_flush_stage_safe return_owed_credits_pres return_owed_credits_def
      maybe_return_credits_safe maybe_return_credits_pres)

lemma hord_read_safe:
  assumes "hord_read n s = Some y"
  shows "P s \<longrightarrow> safe_outcome P y"
  using assms
proof (induction n s y rule: hord_read.raw_induct [rotated, consumes 1, case_names 1])
  case (1 f n s y)
  show ?case
  proof (intro impI, rule then_once_safe [OF 1(2)])
    fix got t
    assume "P t" and step: "(case got of Some bs \<Rightarrow> Some (Inr bs, t)
          | None \<Rightarrow> then_loop (Some (return_owed_credits False t)) (\<lambda>_ s.
               then_loop (pump True s) (\<lambda>_ s. f n s))) = Some y"
    show "safe_outcome P y"
    proof (cases got)
      case None
      with step have "then_loop (Some (return_owed_credits False t)) (\<lambda>_ s.
          then_loop (pump True s) (\<lambda>_ s. f n s)) = Some y" by simp
      then show ?thesis
        by (rule then_once_safe) (use \<open>P t\<close> 1(1) pump_then_safe nonblocking_safe in blast)+
    qed (use step \<open>P t\<close> in auto)
  qed (simp add: nonblocking_safe)
qed

lemma write_loop_safe:
  assumes "write_loop data off s = Some y"
  shows "P s \<longrightarrow> safe_outcome P y"
  using assms
proof (induction data off s y rule: write_loop.raw_induct [rotated, consumes 1, case_names 1])
  case (1 f data off s y)
  show ?case
  proof (intro impI, cases "off < length data")
    case True
    assume P: "P s"
    from 1(2) True have "then_loop (Some (try_write (drop off data) s)) (\<lambda>n s.
        if n = 0 then then_loop (pump True s) (\<lambda>_ s. f data off s) else f data (off + n) s) = Some y"
      by simp
    then show "safe_outcome P y"
    proof (rule then_once_safe)
      show "safe_outcome P y" if "P t" and "(if n = 0 then then_loop (pump True t) (\<lambda>_ s. f data off s)
          else f data (off + n) t) = Some y" for n t
        using that 1(1) pump_then_safe [of True t "f data off" y] by (auto split: if_splits)
    qed (simp add: nonblocking_safe P)
  qed (use 1(2) in auto)
qed

lemma hord_write_safe: "hord_write data s = Some y \<Longrightarrow> P s \<Longrightarrow> safe_outcome P y"
  using write_loop_safe by (auto simp: hord_write_def split: if_splits)

lemma flush_stage_loop_safe:
  assumes "flush_stage_loop s = Some y"
  shows "P s \<longrightarrow> safe_outcome P y"
  using assms
proof (induction s y rule: flush_stage_loop.raw_induct [rotated, consumes 1, case_names 1])
  case (1 f s y)
  show ?case
  proof (intro impI, rule then_once_safe [OF 1(2)])
    show "safe_outcome P y" if "P t" and "(if sent then Some (Inr (), t)
        else if peer_closed t then Some (Inl (io_err BrokenPipe), t)
        else then_loop (pump True t) (\<lambda>_ s. f s)) = Some y" for sent t
      using that 1(1) pump_then_safe [of True t f y] by (auto split: if_splits)
  qed (simp add: nonblocking_safe)
qed

lemma flush_drain_loop_safe:
  assumes "flush_drain_loop s = Some y"
  shows "P s \<longrightarrow> safe_outcome P y"
  using assms
proof (induction s y rule: flush_drain_loop.raw_induct [rotated, consumes 1, case_names 1])
  case (1 f s y)
  then show ?case using pump_then_safe [of True s f y] by (auto split: if_splits)
qed

lemma hord_flush_safe:
  assumes "hord_flush s = Some y" and "P s"
  shows "safe_outcome P y"
  using assms(1) unfolding hord_flush_def
  by (rule then_loop_safe) (use assms(2) flush_stage_loop_safe flush_drain_loop_safe in blast)+

lemma poll_completed_transfer_safe:
  assumes "poll_completed_transfer s = Some y"
  shows "P s \<longrightarrow> safe_outcome P y"
  using assms
proof (induction s y rule: poll_completed_transfer.raw_induct [rotated, consumes 1, case_names 1])
  case (1 f s y)
  obtain got t where t: "next_completed_transfer s = (got, t)" by fastforce
  show ?case
  proof
    assume "P s"
    then have "P t" using next_completed_transfer_pres [of s] t by simp
    then show "safe_outcome P y"
      using 1 pump_then_safe [of True t f y]
      by (cases got) (auto simp: t split: if_splits)
  qed
qed

end

section \<open>What the pump does to the send queue\<close>

lemma nic_step_sq:
  "sq (nic_step ev c) = sq c \<or> (\<exists>w. sq c = w # sq (nic_step ev c))"
  by (cases ev) (auto simp: report_def split: list.splits)

lemma sent_payload_nic_step:
  assumes inv: "stream_ok s" and lay: "layout_ok s" and w: "w \<in> set (data_sends (conn s))"
  shows "sent_payload (s\<lparr>conn := nic_step ev (conn s)\<rparr>) w = sent_payload s w"
proof -
  note W = data_send_entry [OF inv w]
  have "send_fits s (slot_of (sw_id w)) (msg_len w)"
    using W by (intro send_fits_slot [OF stream_okD(1) [OF inv]]) simp_all
  then show ?thesis
    using nic_step_send_stable [OF inv lay, of "sge_addr (hd (sw_sges w)) + ENVELOPE_LEN" "msg_len w" ev]
    by (simp add: sent_payload_def W(3) send_fits_def send_addr_def)
qed

lemma tx_queue_nic_step:
  assumes inv: "stream_ok s" and lay: "layout_ok s"
  shows "\<exists>sent. tx_queue s = sent @ tx_queue (s\<lparr>conn := nic_step ev (conn s)\<rparr>)"
proof -
  let ?t = "s\<lparr>conn := nic_step ev (conn s)\<rparr>"
  note mem = sent_payload_nic_step [OF inv lay, of _ ev]
  from nic_step_sq [of ev "conn s"] show ?thesis
  proof
    assume "sq (nic_step ev (conn s)) = sq (conn s)"
    then have "data_sends (conn ?t) = data_sends (conn s)" by (simp add: data_sends_def)
    then have "tx_queue ?t = tx_queue s" using mem by (auto simp: tx_queue_def cong: map_cong)
    then show ?thesis by simp
  next
    assume "\<exists>w. sq (conn s) = w # sq (nic_step ev (conn s))"
    then obtain w where w: "sq (conn s) = w # sq (nic_step ev (conn s))" by blast
    then have ds: "data_sends (conn s) = (if data_lane (sw_id w) then [w] else []) @ data_sends (conn ?t)"
      by (simp add: data_sends_def)
    then have "tx_queue ?t = concat (map (sent_payload s) (data_sends (conn ?t)))"
      using mem by (auto simp: tx_queue_def cong: map_cong)
    then have "tx_queue s = (if data_lane (sw_id w) then sent_payload s w else []) @ tx_queue ?t"
      by (simp only: tx_queue_def [of s] ds) simp
    then show ?thesis by blast
  qed
qed

lemma handle_recv_tx [frame_simps]:
  "tx_queue (snd (handle_recv wc s)) = tx_queue s" "tx_stage (snd (handle_recv wc s)) = tx_stage s"
proof -
  have q: "tx_queue t = tx_queue s" if "smem t = smem s" "sq (conn t) = sq (conn s)" for t
    using that by (simp add: tx_queue_def data_sends_def sent_payload_def [abs_def])
  show "tx_queue (snd (handle_recv wc s)) = tx_queue s" "tx_stage (snd (handle_recv wc s)) = tx_stage s"
    by (rule q | cases rule: handle_recv_cases [of wc s];
        simp add: frame_simps snd_and_then split: sum.split)+
qed

lemma tx_queue_irrelevant [simp]:
  "tx_queue (s\<lparr>send_credits := k\<rparr>) = tx_queue s" "tx_queue (s\<lparr>peer_closed := b\<rparr>) = tx_queue s"
  "tx_queue (s\<lparr>completed_transfers := ts\<rparr>) = tx_queue s"
  "tx_queue (s\<lparr>writes_outstanding := i\<rparr>) = tx_queue s" "tx_queue (s\<lparr>imm_outstanding := i\<rparr>) = tx_queue s"
  "tx_queue (s\<lparr>send_free := fs\<rparr>) = tx_queue s" "tx_queue (s\<lparr>ctrl_send_busy := b\<rparr>) = tx_queue s"
  "tx_queue (s\<lparr>conn := (conn s)\<lparr>arrivals := evs\<rparr>\<rparr>) = tx_queue s"
  "tx_queue (s\<lparr>conn := (conn s)\<lparr>cq := q\<rparr>\<rparr>) = tx_queue s"
  "tx_queue (s\<lparr>conn := (conn s)\<lparr>cm_events := es\<rparr>\<rparr>) = tx_queue s"
  by (simp_all add: tx_queue_def data_sends_def sent_payload_def [abs_def])

lemma post_recv_slot_tx [frame_simps]: "tx_queue (snd (post_recv_slot slot s)) = tx_queue s"
  by (cases rule: post_recv_slot_cases [of slot s])
     (simp_all add: tx_queue_def data_sends_def sent_payload_def [abs_def])

lemma handle_completion_tx [frame_simps]:
  "tx_queue (snd (handle_completion wc s)) = tx_queue s"
  "tx_stage (snd (handle_completion wc s)) = tx_stage s"
  by (simp_all add: handle_completion_def Let_def reclaim_send_def frame_simps)

text \<open>The pump only lets queued messages complete, oldest first; the stage is left alone.\<close>

interpretation tx_drains: pump_property
  "\<lambda>t. queue_ok t \<and> tx_stage t = st \<and> (\<exists>sent. base = sent @ tx_queue t)" for st base
proof unfold_locales
  fix s ev
  assume s: "queue_ok s \<and> tx_stage s = st \<and> (\<exists>sent. base = sent @ tx_queue s)"
    and qp: "qp (conn s) \<noteq> None"
  then obtain sent where "tx_queue s = sent @ tx_queue (s\<lparr>conn := nic_step ev (conn s)\<rparr>)"
    using tx_queue_nic_step by (auto simp: queue_ok_def)
  with s qp show "queue_ok (s\<lparr>conn := nic_step ev (conn s)\<rparr>)
      \<and> tx_stage (s\<lparr>conn := nic_step ev (conn s)\<rparr>) = st
      \<and> (\<exists>sent. base = sent @ tx_queue (s\<lparr>conn := nic_step ev (conn s)\<rparr>))"
    using queue.P_nic by (metis append.assoc hord_stream.select_convs(17) hord_stream.surjective
        hord_stream.update_convs(1))
qed (auto simp: queue.P_script queue.P_cm queue.P_closed queue.P_cq_fault queue.P_reap frame_simps)

lemma pump_tx:
  assumes "pump block s = Some y" and "queue_ok s"
  shows "tx_stage (snd y) = tx_stage s \<and> (\<exists>sent. tx_queue s = sent @ tx_queue (snd y))"
  using tx_drains.pump_pres [OF assms(1), of "tx_stage s" "tx_queue s"] assms(2) by auto

lemma pump_tx_bytes:
  assumes "pump block s = Some y" and "queue_ok s"
  shows "\<exists>sent. tx_bytes s = sent @ tx_bytes (snd y)"
  using pump_tx [OF assms] by (auto simp: tx_bytes_queue)

section \<open>Blocking write\<close>

text \<open>
  A write that succeeds took all of its bytes: what was queued, followed by the data, is what
  left the send queue meanwhile, followed by what is still queued.
\<close>

definition write_law :: "bytes \<Rightarrow> hord_stream \<Rightarrow> hord_stream \<Rightarrow> bool" where
  "write_law data s s' \<longleftrightarrow> (\<exists>sent. tx_bytes s @ data = sent @ tx_bytes s')"

lemma write_law_pump:
  assumes "tx_bytes s = sent @ tx_bytes t" and "write_law data t s'"
  shows "write_law data s s'"
  using assms by (auto simp: write_law_def)

lemma write_law_chunk:
  assumes "tx_bytes t = tx_bytes s @ take n data" and "write_law (drop n data) t s'"
  shows "write_law data s s'"
  using assms by (auto simp: write_law_def)

lemma write_loop_law:
  assumes "write_loop data off s = Some y"
  shows "queue_ok s \<longrightarrow> off \<le> length data \<longrightarrow>
    (\<forall>n. fst y = Inr n \<longrightarrow> n = length data \<and> write_law (drop off data) s (snd y))"
  using assms
proof (induction data off s y rule: write_loop.raw_induct [rotated, consumes 1, case_names 1])
  case (1 f data off s y)
  show ?case
  proof (intro impI allI)
    fix n assume q: "queue_ok s" and off: "off \<le> length data" and n: "fst y = Inr n"
    show "n = length data \<and> write_law (drop off data) s (snd y)"
    proof (cases "off < length data")
      case False
      with 1(2) off n show ?thesis by (auto simp: write_law_def)
    next
      case True
      obtain s' where y: "y = (Inr n, s')" using n by (cases y) simp
      have "then_loop (Some (try_write (drop off data) s)) (\<lambda>n s.
          if n = 0 then then_loop (pump True s) (\<lambda>_ s. f data off s) else f data (off + n) s)
          = Some (Inr n, s')"
        using 1(2) True by (simp add: y)
      then obtain k t where tw: "try_write (drop off data) s = (Inr k, t)"
        and step: "(if k = 0 then then_loop (pump True t) (\<lambda>_ s. f data off s)
          else f data (off + k) t) = Some (Inr n, s')"
        by (auto elim: then_loop_SomeD)
      have qt: "queue_ok t" using queue.try_write_pres [OF q, of "drop off data"] tw by simp
      have k: "k \<le> length (drop off data)" "tx_bytes t = tx_bytes s @ take k (drop off data)"
        using try_write_refines [OF _ tw] q by (simp_all add: queue_ok_def)
      show ?thesis
      proof (cases "k = 0")
        case True
        with step obtain b u where pu: "pump True t = Some (Inr b, u)" and fu: "f data off u = Some y"
          by (auto simp: y elim: then_loop_SomeD)
        have "queue_ok u" using queue.pump_pres [OF pu qt] by simp
        with 1(1) [OF fu] off n have "n = length data \<and> write_law (drop off data) u (snd y)" by blast
        moreover obtain sent where "tx_bytes s = sent @ tx_bytes u"
          using pump_tx_bytes [OF pu qt] k True by auto
        ultimately show ?thesis using write_law_pump by blast
      next
        case False
        with step have "f data (off + k) t = Some y" by (simp add: y)
        from 1(1) [OF this] qt k(1) n off
        have "n = length data \<and> write_law (drop k (drop off data)) t (snd y)"
          by (simp add: add.commute)
        with write_law_chunk [OF k(2)] show ?thesis by blast
      qed
    qed
  qed
qed

lemma hord_write_law:
  assumes "queue_ok s" and "hord_write data s = Some (Inr n, s')"
  shows "n = length data \<and> write_law data s s'"
  using write_loop_law [of data 0 s "(Inr n, s')"] assms by (auto simp: hord_write_def split: if_splits)

section \<open>Flush\<close>

lemma try_flush_stage_sent:
  assumes "try_flush_stage s = (Inr True, t)"
  shows "tx_stage t = []"
  using assms post_data_message_frame(2) [of "tx_stage s" "s\<lparr>tx_stage := []\<rparr>"]
  by (auto simp: try_flush_stage_def split: if_splits and_then_splits)

lemma flush_stage_loop_sent:
  assumes "flush_stage_loop s = Some y"
  shows "\<forall>u. fst y = Inr u \<longrightarrow> tx_stage (snd y) = []"
  using assms
proof (induction s y rule: flush_stage_loop.raw_induct [rotated, consumes 1, case_names 1])
  case (1 f s y)
  show ?case
  proof (intro allI impI)
    fix u assume "fst y = Inr u"
    then obtain s' where y: "y = (Inr (), s')" by (cases y) simp
    have "then_loop (Some (try_flush_stage s)) (\<lambda>sent s.
       if sent then Some (Inr (), s)
       else if peer_closed s then Some (Inl (io_err BrokenPipe), s)
       else then_loop (pump True s) (\<lambda>_ s. f s)) = Some (Inr (), s')"
      using 1(2) by (simp add: y)
    then obtain sent t where ts: "try_flush_stage s = (Inr sent, t)"
      and step: "(if sent then Some (Inr (), t) else if peer_closed t then Some (Inl (io_err BrokenPipe), t)
        else then_loop (pump True t) (\<lambda>_ s. f s)) = Some (Inr (), s')"
      by (auto elim: then_loop_SomeD)
    show "tx_stage (snd y) = []"
    proof (cases sent)
      case True
      with ts step show ?thesis using try_flush_stage_sent [of s t] by (simp add: y)
    next
      case False
      with step obtain b v where "f v = Some y"
        by (auto simp: y split: if_splits elim: then_loop_SomeD)
      with 1(1) show ?thesis by (auto simp: y)
    qed
  qed
qed

lemma flush_drain_loop_law:
  assumes "flush_drain_loop s = Some y"
  shows "queue_ok s \<longrightarrow> (\<forall>u. fst y = Inr u \<longrightarrow>
    tx_stage (snd y) = tx_stage s \<and> \<not> sends_outstanding (snd y) \<and> \<not> writes_pending (snd y))"
  using assms
proof (induction s y rule: flush_drain_loop.raw_induct [rotated, consumes 1, case_names 1])
  case (1 f s y)
  show ?case
  proof (intro impI allI)
    fix u assume q: "queue_ok s" and "fst y = Inr u"
    then obtain s' where y: "y = (Inr (), s')" by (cases y) simp
    show "tx_stage (snd y) = tx_stage s \<and> \<not> sends_outstanding (snd y) \<and> \<not> writes_pending (snd y)"
    proof (cases "sends_outstanding s \<or> writes_pending s")
      case True
      with 1(2) obtain b t where pu: "pump True s = Some (Inr b, t)" and ft: "f t = Some y"
        by (auto simp: y split: if_splits elim: then_loop_SomeD)
      have "queue_ok t" using queue.pump_pres [OF pu q] by simp
      with 1(1) [OF ft] pump_tx [OF pu q] show ?thesis by (simp add: y)
    qed (use 1(2) in \<open>auto simp: y\<close>)
  qed
qed

lemma no_sends_outstanding:
  assumes "stream_ok s" and "\<not> sends_outstanding s"
  shows "tx_queue s = []"
proof -
  have "size (send_owned s) \<le> size (mset [0..<send_pool s])"
    using stream_okD(3) [OF assms(1)] by (rule size_mset_mono)
  then have "length (send_free s) + size (filter_mset data_lane (send_ids s)) \<le> send_pool s"
    by (simp add: send_owned_def)
  moreover have "send_pool s \<le> length (send_free s)" using assms(2) by (simp add: sends_outstanding_def)
  ultimately have "size (filter_mset data_lane (send_ids s)) = 0"
    by linarith
  then have "data_sends (conn s) = []"
    by (auto simp: send_ids_def data_sends_def filter_empty_conv)
  then show ?thesis by (simp add: tx_queue_def)
qed

lemma hord_flush_law:
  assumes "queue_ok s" and "hord_flush s = Some (Inr (), s')"
  shows "tx_bytes s' = [] \<and> \<not> sends_outstanding s' \<and> \<not> writes_pending s'"
proof -
  from assms(2) obtain t where st: "flush_stage_loop s = Some (Inr (), t)"
    and dr: "flush_drain_loop t = Some (Inr (), s')"
    unfolding hord_flush_def by (auto elim!: then_loop_SomeD)
  have t: "queue_ok t" using queue.flush_stage_loop_safe [OF st] assms(1) by simp
  then have "queue_ok s'" using queue.flush_drain_loop_safe [OF dr] by simp
  then show ?thesis
    using flush_drain_loop_law [OF dr] t flush_stage_loop_sent [OF st] no_sends_outstanding [of s']
    by (auto simp: tx_bytes_queue queue_ok_def)
qed

end
