(* ===== verification/Gather.thy ===== *)
theory Gather
  imports Stream_Ops
begin

text \<open>
  One-sided RDMA writes of \<open>hord-stream/src/stream.rs\<close>: write segments, admission, the
  packing of a scatter-gather list into work requests, posting, batching of lists that
  exceed the send pool, and the blocking harness that drains every posted write.

  Addresses of the peer are 64-bit: sums with them wrap as in a release build.
\<close>

section \<open>Segments\<close>

record write_segment =
  seg_addr :: nat
  seg_lkey :: u32
  seg_len :: nat

definition from_registered :: "registered_buffer \<Rightarrow> nat \<Rightarrow> nat \<Rightarrow> write_segment res" where
  "from_registered buf off len =
     (if off + len < 2 ^ 64 \<and> off + len \<le> rb_len buf
      then Inr \<lparr>seg_addr = rb_addr buf + off, seg_lkey = rb_lkey buf, seg_len = len\<rparr>
      else Inl Panic)"

definition from_mr :: "mr \<Rightarrow> nat \<Rightarrow> nat \<Rightarrow> write_segment res" where
  "from_mr m off len =
     (if off + len < 2 ^ 64 \<and> off + len \<le> mr_len m
      then Inr \<lparr>seg_addr = mr_addr m + off, seg_lkey = mr_lkey m, seg_len = len\<rparr>
      else Inl Panic)"

definition from_raw :: "nat \<Rightarrow> u32 \<Rightarrow> nat \<Rightarrow> write_segment" where
  "from_raw addr lkey len = \<lparr>seg_addr = addr, seg_lkey = lkey, seg_len = len\<rparr>"

definition segment_is_empty :: "write_segment \<Rightarrow> bool" where
  "segment_is_empty seg \<longleftrightarrow> seg_len seg = 0"

definition wrap64 :: "nat \<Rightarrow> nat" where
  "wrap64 a = a mod 2 ^ 64"

section \<open>Admission\<close>

definition check_write_capacity :: "nat \<Rightarrow> bool \<Rightarrow> hord_stream \<Rightarrow> unit res" where
  "check_write_capacity n_wrs has_imm s =
     (let free_slots = length (send_free s) - writes_outstanding s in
      if n_wrs > send_pool s then Inl (io_err InvalidInput)
      else if n_wrs > free_slots then Inl (io_err WouldBlock)
      else if has_imm \<and> imm_outstanding s \<ge> peer_split_credits s then Inl (io_err WouldBlock)
      else Inr ())"

section \<open>Packing a gather list into work requests\<close>

text \<open>The work request in progress: its SGEs, their bytes, its remote offset, and the count.\<close>

record gather_plan =
  gp_sges :: "sge list"
  gp_bytes :: nat
  gp_off :: nat
  gp_count :: nat

definition clamp_sge :: "nat \<Rightarrow> nat" where
  "clamp_sge n = min (max n 1) MAX_WRITE_SGE"

definition plan_full :: "nat \<Rightarrow> gather_plan \<Rightarrow> bool" where
  "plan_full mx p \<longleftrightarrow> length (gp_sges p) = mx \<or> gp_bytes p \<ge> WRITE_WR_MAX"

definition plan_flush :: "gather_plan \<Rightarrow> gather_plan" where
  "plan_flush p =
     \<lparr>gp_sges = [], gp_bytes = 0, gp_off = gp_off p + gp_bytes p, gp_count = gp_count p + 1\<rparr>"

definition plan_take :: "write_segment \<Rightarrow> nat \<Rightarrow> gather_plan \<Rightarrow> nat" where
  "plan_take seg seg_off p = min (seg_len seg - seg_off) (WRITE_WR_MAX - gp_bytes p)"

definition plan_push :: "write_segment \<Rightarrow> nat \<Rightarrow> gather_plan \<Rightarrow> gather_plan" where
  "plan_push seg seg_off p =
     p\<lparr>gp_sges := gp_sges p @ [\<lparr>sge_addr = seg_addr seg + seg_off,
                                 sge_length = plan_take seg seg_off p, sge_lkey = seg_lkey seg\<rparr>],
       gp_bytes := gp_bytes p + plan_take seg seg_off p\<rparr>"

definition plan_room :: "nat \<Rightarrow> gather_plan \<Rightarrow> gather_plan" where
  "plan_room mx p = (if plan_full mx p then plan_flush p else p)"

lemma plan_room_bytes: "gp_bytes (plan_room mx p) < WRITE_WR_MAX"
  by (auto simp: plan_room_def plan_full_def plan_flush_def WRITE_WR_MAX_def)

lemma plan_take_pos: "seg_off < seg_len seg \<Longrightarrow> 0 < plan_take seg seg_off (plan_room mx p)"
  using plan_room_bytes [of mx p] by (simp add: plan_take_def)

text \<open>The inner \<open>while seg_off < seg.len\<close> loop, and the walk over the segments.\<close>

function plan_segment ::
  "(nat \<Rightarrow> sge list \<Rightarrow> 's \<Rightarrow> unit res \<times> 's) \<Rightarrow> nat \<Rightarrow> write_segment \<Rightarrow> nat \<Rightarrow> gather_plan \<Rightarrow> 's
     \<Rightarrow> gather_plan res \<times> 's" where
  "plan_segment emit mx seg seg_off p s =
     (if seg_off < seg_len seg
      then let e = (if plan_full mx p then emit (gp_off p) (gp_sges p) s else (Inr (), s));
               p1 = plan_room mx p
           in case fst e of
                Inl f \<Rightarrow> (Inl f, snd e)
              | Inr _ \<Rightarrow> plan_segment emit mx seg (seg_off + plan_take seg seg_off p1)
                          (plan_push seg seg_off p1) (snd e)
      else (Inr p, s))"
  by pat_completeness auto
termination
  by (relation "measure (\<lambda>(emit, mx, seg, seg_off, p, s). seg_len seg - seg_off)")
     (auto intro!: diff_less_mono2 simp: plan_take_pos)

declare plan_segment.simps [simp del]

fun plan_segments ::
  "(nat \<Rightarrow> sge list \<Rightarrow> 's \<Rightarrow> unit res \<times> 's) \<Rightarrow> nat \<Rightarrow> write_segment list \<Rightarrow> gather_plan \<Rightarrow> 's
     \<Rightarrow> gather_plan res \<times> 's" where
  "plan_segments emit mx [] p s = (Inr p, s)"
| "plan_segments emit mx (seg # segs) p s =
     and_then (plan_segment emit mx seg 0 p s) (\<lambda>p. plan_segments emit mx segs p)"

definition plan_start :: gather_plan where
  "plan_start = \<lparr>gp_sges = [], gp_bytes = 0, gp_off = 0, gp_count = 0\<rparr>"

definition plan_gather ::
  "write_segment list \<Rightarrow> nat \<Rightarrow> (nat \<Rightarrow> sge list \<Rightarrow> 's \<Rightarrow> unit res \<times> 's) \<Rightarrow> 's
     \<Rightarrow> nat res \<times> 's" where
  "plan_gather segments max_sge emit s =
     and_then (plan_segments emit (clamp_sge max_sge) segments plan_start s) (\<lambda>p s.
       if gp_sges p \<noteq> []
       then and_then (emit (gp_off p) (gp_sges p) s) (\<lambda>_ s. (Inr (gp_count p + 1), s))
       else (Inr (gp_count p), s))"

section \<open>Batches of an over-long gather list\<close>

text \<open>\<open>next_batch_len\<close> packs with counters only: SGEs and bytes of the open WR, WRs flushed.\<close>

record batch_count =
  bc_sge :: nat
  bc_bytes :: nat
  bc_wrs :: nat

function batch_segment :: "nat \<Rightarrow> write_segment \<Rightarrow> nat \<Rightarrow> batch_count \<Rightarrow> batch_count" where
  "batch_segment mx seg seg_off c =
     (if seg_off < seg_len seg
      then let c1 = (if bc_sge c = mx \<or> bc_bytes c \<ge> WRITE_WR_MAX
                     then \<lparr>bc_sge = 0, bc_bytes = 0, bc_wrs = bc_wrs c + 1\<rparr> else c);
               tk = min (seg_len seg - seg_off) (WRITE_WR_MAX - bc_bytes c1)
           in batch_segment mx seg (seg_off + tk)
                (c1\<lparr>bc_sge := bc_sge c1 + 1, bc_bytes := bc_bytes c1 + tk\<rparr>)
      else c)"
  by pat_completeness auto
termination
  by (relation "measure (\<lambda>(mx, seg, seg_off, c). seg_len seg - seg_off)")
     (auto simp: WRITE_WR_MAX_def split: if_splits)

declare batch_segment.simps [simp del]

definition bc_sealed :: "batch_count \<Rightarrow> nat" where
  "bc_sealed c = bc_wrs c + (if bc_sge c > 0 then 1 else 0)"

fun batch_walk ::
  "nat \<Rightarrow> nat \<Rightarrow> write_segment list \<Rightarrow> batch_count \<Rightarrow> nat \<Rightarrow> nat \<Rightarrow> nat \<Rightarrow> nat \<times> nat" where
  "batch_walk mx budget [] c bytes fit_segs fit_bytes = (fit_segs, fit_bytes)"
| "batch_walk mx budget (seg # segs) c bytes fit_segs fit_bytes =
     (let c1 = batch_segment mx seg 0 c; bytes1 = bytes + seg_len seg in
      if bc_sealed c1 \<le> budget then batch_walk mx budget segs c1 bytes1 (fit_segs + 1) bytes1
      else (fit_segs, fit_bytes))"

text \<open>\<open>segments[0]\<close> of an empty list panics.\<close>

definition next_batch_len :: "write_segment list \<Rightarrow> nat \<Rightarrow> nat \<Rightarrow> (nat \<times> nat) res" where
  "next_batch_len segments max_sge wr_budget =
     (let r = batch_walk (clamp_sge max_sge) (max wr_budget 1) segments
                \<lparr>bc_sge = 0, bc_bytes = 0, bc_wrs = 0\<rparr> 0 0 0
      in if fst r = 0
         then (case segments of [] \<Rightarrow> Inl Panic | seg # _ \<Rightarrow> Inr (1, seg_len seg))
         else Inr r)"

definition next_gather_batch :: "hord_stream \<Rightarrow> write_segment list \<Rightarrow> nat \<Rightarrow> (nat \<times> nat) res" where
  "next_gather_batch s segments from =
     (if from > length segments then Inl Panic
      else next_batch_len (drop from segments) (max_send_sge (conn s)) (send_pool s))"

section \<open>Posting\<close>

text \<open>
  The closure that posts: it captures the running index \<open>idx\<close> beside the stream.
\<close>

definition post_planned ::
  "nat \<Rightarrow> nat \<Rightarrow> u32 \<Rightarrow> u32 option \<Rightarrow> nat \<Rightarrow> sge list \<Rightarrow> nat \<times> hord_stream
     \<Rightarrow> unit res \<times> nat \<times> hord_stream" where
  "post_planned n_wrs raddr rkey imm remote_off sges ix =
     (let idx = fst ix; s = snd ix;
          imm_here = (if idx = n_wrs - 1 then imm else None);
          wr_id = (if imm_here \<noteq> None then imm_write_wr_id idx else write_wr_id idx)
      in case on_conn (post_write_gather wr_id sges (wrap64 (raddr + remote_off)) rkey
                         imm_here) s of
           (Inl e, s1) \<Rightarrow> (Inl e, idx, s1)
         | (Inr _, s1) \<Rightarrow>
             (Inr (), idx + 1,
              s1\<lparr>writes_outstanding := wrap_add32 (writes_outstanding s1) 1,
                 imm_outstanding := (if imm_here \<noteq> None then wrap_add32 (imm_outstanding s1) 1
                                     else imm_outstanding s1)\<rparr>))"

definition begin_rdma_write_gather_inner ::
  "write_segment list \<Rightarrow> nat \<Rightarrow> u32 \<Rightarrow> u32 option \<Rightarrow> hord_stream \<Rightarrow> unit res \<times> hord_stream" where
  "begin_rdma_write_gather_inner segments raddr rkey imm s =
     (if peer_closed s then (Inl (io_err BrokenPipe), s)
      else
        let max_sge = max_send_sge (conn s) in
        case fst (plan_gather segments max_sge (\<lambda>_ _ u. (Inr (), u)) ()) of
          Inl e \<Rightarrow> (Inl e, s)
        | Inr n_data_wrs \<Rightarrow>
            let n_wrs = (if n_data_wrs = 0 \<and> imm \<noteq> None then 1 else n_data_wrs) in
            if n_wrs = 0 then (Inr (), s)
            else case check_write_capacity n_wrs (imm \<noteq> None) s of
              Inl e \<Rightarrow> (Inl e, s)
            | Inr _ \<Rightarrow>
                if n_data_wrs = 0
                then (case on_conn (post_write_gather (imm_write_wr_id 0) [] raddr rkey imm) s of
                        (Inl e, s1) \<Rightarrow> (Inl e, s1\<lparr>peer_closed := True\<rparr>)
                      | (Inr _, s1) \<Rightarrow>
                          (Inr (), s1\<lparr>writes_outstanding := wrap_add32 (writes_outstanding s1) 1,
                                      imm_outstanding := wrap_add32 (imm_outstanding s1) 1\<rparr>))
                else (case plan_gather segments max_sge
                             (post_planned n_wrs raddr rkey imm) (0, s) of
                        (Inl e, ix) \<Rightarrow> (Inl e, (snd ix)\<lparr>peer_closed := True\<rparr>)
                      | (Inr _, ix) \<Rightarrow> (Inr (), snd ix)))"

definition begin_rdma_write_gather ::
  "write_segment list \<Rightarrow> nat \<Rightarrow> u32 \<Rightarrow> hord_stream \<Rightarrow> unit res \<times> hord_stream" where
  "begin_rdma_write_gather segments raddr rkey =
     begin_rdma_write_gather_inner segments raddr rkey None"

definition begin_rdma_write_gather_with_imm ::
  "write_segment list \<Rightarrow> nat \<Rightarrow> u32 \<Rightarrow> u32 \<Rightarrow> hord_stream \<Rightarrow> unit res \<times> hord_stream" where
  "begin_rdma_write_gather_with_imm segments raddr rkey transfer_id =
     begin_rdma_write_gather_inner segments raddr rkey (Some transfer_id)"

definition begin_rdma_write_inner ::
  "registered_buffer \<Rightarrow> nat \<Rightarrow> nat \<Rightarrow> u32 \<Rightarrow> nat \<Rightarrow> u32 option \<Rightarrow> hord_stream
     \<Rightarrow> unit res \<times> hord_stream" where
  "begin_rdma_write_inner src src_off raddr rkey len imm s =
     (case from_registered src src_off len of
        Inl e \<Rightarrow> (Inl e, s)
      | Inr seg \<Rightarrow> begin_rdma_write_gather_inner [seg] raddr rkey imm s)"

definition begin_rdma_write ::
  "registered_buffer \<Rightarrow> nat \<Rightarrow> nat \<Rightarrow> u32 \<Rightarrow> nat \<Rightarrow> hord_stream \<Rightarrow> unit res \<times> hord_stream" where
  "begin_rdma_write src src_off raddr rkey len =
     begin_rdma_write_inner src src_off raddr rkey len None"

definition begin_rdma_write_with_imm ::
  "registered_buffer \<Rightarrow> nat \<Rightarrow> nat \<Rightarrow> u32 \<Rightarrow> nat \<Rightarrow> u32 \<Rightarrow> hord_stream
     \<Rightarrow> unit res \<times> hord_stream" where
  "begin_rdma_write_with_imm src src_off raddr rkey len transfer_id =
     begin_rdma_write_inner src src_off raddr rkey len (Some transfer_id)"

section \<open>Driving a write to completion\<close>

partial_function (option) drive_post_loop ::
  "(hord_stream \<Rightarrow> unit res \<times> hord_stream) \<Rightarrow> hord_stream
     \<Rightarrow> (unit res res \<times> hord_stream) option" where
  "drive_post_loop begin_op s =
     (let p = begin_op s in
      case fst p of
        Inr u \<Rightarrow> Some (Inr (Inr u), snd p)
      | Inl e \<Rightarrow>
          if (case e of IoError k _ \<Rightarrow> k = WouldBlock | Panic \<Rightarrow> False)
          then if \<not> sends_outstanding (snd p) \<and> \<not> writes_pending (snd p)
               then Some (Inr (Inl (io_err ErrOther)), snd p)
               else then_loop (pump True (snd p)) (\<lambda>_ s. drive_post_loop begin_op s)
          else if e = Panic then Some (Inl Panic, snd p)
          else Some (Inr (Inl e), snd p))"

partial_function (option) drain_writes_loop ::
  "hord_stream \<Rightarrow> (unit res \<times> hord_stream) option" where
  "drain_writes_loop s =
     (if writes_pending s then then_loop (pump True s) (\<lambda>_ s. drain_writes_loop s)
      else Some (Inr (), s))"

definition drive_write_all ::
  "(hord_stream \<Rightarrow> unit res \<times> hord_stream) \<Rightarrow> hord_stream \<Rightarrow> (unit res \<times> hord_stream) option" where
  "drive_write_all begin_op s =
     then_loop (drive_post_loop begin_op s) (\<lambda>posted s.
       then_loop (drain_writes_loop s) (\<lambda>_ s.
         case posted of
           Inl e \<Rightarrow> Some (Inl e, s)
         | Inr _ \<Rightarrow> if peer_closed s then Some (Inl (io_err BrokenPipe), s) else Some (Inr (), s)))"

partial_function (option) gather_all_loop ::
  "write_segment list \<Rightarrow> nat \<Rightarrow> u32 \<Rightarrow> u32 option \<Rightarrow> nat \<Rightarrow> nat \<Rightarrow> hord_stream
     \<Rightarrow> (unit res \<times> hord_stream) option" where
  "gather_all_loop segments raddr rkey imm start base s =
     (if start < length segments
      then then_loop (Some (next_gather_batch s segments start, s)) (\<lambda>b s.
             let fin = start + fst b;
                 batch_imm = (if fin = length segments then imm else None)
             in if fin > length segments then Some (Inl Panic, s)
                else then_loop (drive_write_all (begin_rdma_write_gather_inner
                                  (subslice segments start fin) (wrap64 (raddr + base)) rkey batch_imm) s)
                       (\<lambda>_ s. gather_all_loop segments raddr rkey imm fin (base + snd b) s))
      else Some (Inr (), s))"

definition rdma_write_gather_all_inner ::
  "write_segment list \<Rightarrow> nat \<Rightarrow> u32 \<Rightarrow> u32 option \<Rightarrow> hord_stream
     \<Rightarrow> (unit res \<times> hord_stream) option" where
  "rdma_write_gather_all_inner segments raddr rkey imm s =
     (if segments = []
      then drive_write_all (begin_rdma_write_gather_inner [] raddr rkey imm) s
      else gather_all_loop segments raddr rkey imm 0 0 s)"

definition rdma_write_gather_all ::
  "write_segment list \<Rightarrow> nat \<Rightarrow> u32 \<Rightarrow> hord_stream \<Rightarrow> (unit res \<times> hord_stream) option" where
  "rdma_write_gather_all segments raddr rkey =
     rdma_write_gather_all_inner segments raddr rkey None"

definition rdma_write_gather_all_with_imm ::
  "write_segment list \<Rightarrow> nat \<Rightarrow> u32 \<Rightarrow> u32 \<Rightarrow> hord_stream \<Rightarrow> (unit res \<times> hord_stream) option" where
  "rdma_write_gather_all_with_imm segments raddr rkey transfer_id =
     rdma_write_gather_all_inner segments raddr rkey (Some transfer_id)"

definition rdma_write_all_inner ::
  "registered_buffer \<Rightarrow> nat \<Rightarrow> nat \<Rightarrow> u32 \<Rightarrow> nat \<Rightarrow> u32 option \<Rightarrow> hord_stream
     \<Rightarrow> (unit res \<times> hord_stream) option" where
  "rdma_write_all_inner src src_off raddr rkey len imm =
     drive_write_all (begin_rdma_write_inner src src_off raddr rkey len imm)"

definition rdma_write_all ::
  "registered_buffer \<Rightarrow> nat \<Rightarrow> nat \<Rightarrow> u32 \<Rightarrow> nat \<Rightarrow> hord_stream
     \<Rightarrow> (unit res \<times> hord_stream) option" where
  "rdma_write_all src src_off raddr rkey len = rdma_write_all_inner src src_off raddr rkey len None"

definition rdma_write_all_with_imm ::
  "registered_buffer \<Rightarrow> nat \<Rightarrow> nat \<Rightarrow> u32 \<Rightarrow> nat \<Rightarrow> u32 \<Rightarrow> hord_stream
     \<Rightarrow> (unit res \<times> hord_stream) option" where
  "rdma_write_all_with_imm src src_off raddr rkey len transfer_id =
     rdma_write_all_inner src src_off raddr rkey len (Some transfer_id)"

section \<open>The packing as a list\<close>

text \<open>
  The reference: the work requests of a gather list as a list of remote offsets and SGEs.
  \<open>plan_gather\<close> with any \<open>emit\<close> runs it over exactly this list, up to its first failure.
\<close>

type_synonym planned_wr = "nat \<times> sge list"

function segment_wrs :: "nat \<Rightarrow> write_segment \<Rightarrow> nat \<Rightarrow> gather_plan \<Rightarrow> planned_wr list \<times> gather_plan" where
  "segment_wrs mx seg seg_off p =
     (if seg_off < seg_len seg
      then let p1 = plan_room mx p;
               r = segment_wrs mx seg (seg_off + plan_take seg seg_off p1) (plan_push seg seg_off p1)
           in ((if plan_full mx p then [(gp_off p, gp_sges p)] else []) @ fst r, snd r)
      else ([], p))"
  by pat_completeness auto
termination
  by (relation "measure (\<lambda>(mx, seg, seg_off, p). seg_len seg - seg_off)")
     (auto intro!: diff_less_mono2 simp: plan_take_pos)

declare segment_wrs.simps [simp del]

fun segments_wrs :: "nat \<Rightarrow> write_segment list \<Rightarrow> gather_plan \<Rightarrow> planned_wr list \<times> gather_plan" where
  "segments_wrs mx [] p = ([], p)"
| "segments_wrs mx (seg # segs) p =
     (let r = segment_wrs mx seg 0 p; r' = segments_wrs mx segs (snd r)
      in (fst r @ fst r', snd r'))"

definition seal_plan :: "gather_plan \<Rightarrow> planned_wr list" where
  "seal_plan p = (if gp_sges p \<noteq> [] then [(gp_off p, gp_sges p)] else [])"

definition gather_wrs :: "nat \<Rightarrow> write_segment list \<Rightarrow> planned_wr list" where
  "gather_wrs max_sge segs =
     (let r = segments_wrs (clamp_sge max_sge) segs plan_start in fst r @ seal_plan (snd r))"

fun emit_all ::
  "(nat \<Rightarrow> sge list \<Rightarrow> 's \<Rightarrow> unit res \<times> 's) \<Rightarrow> planned_wr list \<Rightarrow> 's \<Rightarrow> unit res \<times> 's" where
  "emit_all emit [] s = (Inr (), s)"
| "emit_all emit (w # ws) s = and_then (emit (fst w) (snd w) s) (\<lambda>_. emit_all emit ws)"

lemma and_then_assoc: "and_then (and_then r f) g = and_then r (\<lambda>a s. and_then (f a s) g)"
  by (simp add: and_then_def split: prod.split sum.split)

lemma and_then_unit: "and_then r (\<lambda>_ s. (Inr (), s)) = (r :: unit res \<times> 's)"
  by (simp add: and_then_def split: prod.split sum.split)

lemma emit_all_append:
  "emit_all emit (xs @ ys) s = and_then (emit_all emit xs s) (\<lambda>_. emit_all emit ys)"
proof (induction xs arbitrary: s)
  case (Cons x xs)
  then have "emit_all emit (xs @ ys) = (\<lambda>s. and_then (emit_all emit xs s) (\<lambda>_. emit_all emit ys))"
    by (intro ext)
  then show ?case by (simp add: and_then_assoc)
qed simp

lemma plan_segment_emits:
  "plan_segment emit mx seg so p s =
     and_then (emit_all emit (fst (segment_wrs mx seg so p)) s)
       (\<lambda>_ s. (Inr (snd (segment_wrs mx seg so p)), s))"
proof (induction mx seg so p arbitrary: s rule: segment_wrs.induct)
  case (1 mx seg so p)
  show ?case
  proof (cases "so < seg_len seg")
    case True
    note IH = 1 [OF True refl]
    show ?thesis
      using True IH
      by (simp add: plan_segment.simps [of emit mx seg so p s] segment_wrs.simps [of mx seg so p]
          Let_def and_then_assoc and_then_unit)
         (simp add: and_then_def split: sum.split prod.split)
  qed (simp add: plan_segment.simps segment_wrs.simps)
qed

lemma plan_segments_emits:
  "plan_segments emit mx segs p s =
     and_then (emit_all emit (fst (segments_wrs mx segs p)) s)
       (\<lambda>_ s. (Inr (snd (segments_wrs mx segs p)), s))"
proof (induction segs arbitrary: p s)
  case (Cons seg segs)
  then have IH: "plan_segments emit mx segs q = (\<lambda>s. and_then (emit_all emit (fst (segments_wrs mx segs q)) s)
       (\<lambda>_ s. (Inr (snd (segments_wrs mx segs q)), s)))" for q by (intro ext)
  show ?case by (simp add: plan_segment_emits and_then_assoc IH Let_def emit_all_append)
qed simp

lemma plan_flush_simps [simp]:
  "gp_sges (plan_flush p) = []" "gp_bytes (plan_flush p) = 0"
  "gp_off (plan_flush p) = gp_off p + gp_bytes p" "gp_count (plan_flush p) = gp_count p + 1"
  by (simp_all add: plan_flush_def)

lemma plan_push_simps [simp]:
  "gp_bytes (plan_push seg so p) = gp_bytes p + plan_take seg so p"
  "gp_off (plan_push seg so p) = gp_off p" "gp_count (plan_push seg so p) = gp_count p"
  "gp_sges (plan_push seg so p) = gp_sges p @ [\<lparr>sge_addr = seg_addr seg + so,
      sge_length = plan_take seg so p, sge_lkey = seg_lkey seg\<rparr>]"
  by (simp_all add: plan_push_def)

lemma segment_wrs_count:
  "gp_count (snd (segment_wrs mx seg so p)) = gp_count p + length (fst (segment_wrs mx seg so p))"
proof (induction mx seg so p rule: segment_wrs.induct)
  case (1 mx seg so p)
  show ?case
    using 1 [OF _ refl]
    by (subst (1 2) segment_wrs.simps) (simp add: Let_def plan_room_def)
qed

lemma segments_wrs_count:
  "gp_count (snd (segments_wrs mx segs p)) = gp_count p + length (fst (segments_wrs mx segs p))"
  by (induction segs arbitrary: p) (simp_all add: Let_def segment_wrs_count)

text \<open>The packing is the same whether \<open>emit\<close> counts or posts.\<close>

lemma plan_gather_emits:
  "plan_gather segs max_sge emit s =
     and_then (emit_all emit (gather_wrs max_sge segs) s)
       (\<lambda>_ s. (Inr (length (gather_wrs max_sge segs)), s))"
  using segments_wrs_count [of "clamp_sge max_sge" segs plan_start]
  by (simp add: plan_gather_def plan_segments_emits and_then_assoc gather_wrs_def Let_def
      emit_all_append seal_plan_def and_then_unit plan_start_def)

section \<open>Every work request is within the caps\<close>

definition sges_bytes :: "sge list \<Rightarrow> nat" where
  "sges_bytes gs = sum_list (map sge_length gs)"

definition wr_within :: "nat \<Rightarrow> planned_wr \<Rightarrow> bool" where
  "wr_within mx w \<longleftrightarrow>
     snd w \<noteq> [] \<and> length (snd w) \<le> mx \<and> sges_bytes (snd w) \<le> WRITE_WR_MAX
     \<and> list_all (\<lambda>g. 0 < sge_length g) (snd w)"

definition plan_within :: "nat \<Rightarrow> gather_plan \<Rightarrow> bool" where
  "plan_within mx p \<longleftrightarrow>
     length (gp_sges p) \<le> mx \<and> gp_bytes p = sges_bytes (gp_sges p) \<and> gp_bytes p \<le> WRITE_WR_MAX
     \<and> list_all (\<lambda>g. 0 < sge_length g) (gp_sges p)"

lemma plan_within_room: "plan_within mx p \<Longrightarrow> plan_within mx (plan_room mx p)"
  by (simp add: plan_within_def plan_room_def sges_bytes_def)

lemma plan_within_push:
  assumes "plan_within mx p" and "0 < mx" and "so < seg_len seg"
  defines "q \<equiv> plan_room mx p"
  shows "plan_within mx (plan_push seg so q)"
proof -
  have "plan_within mx q" using assms(1) by (simp add: q_def plan_within_room)
  moreover have "length (gp_sges q) < mx"
    using assms(1,2) by (auto simp: q_def plan_room_def plan_full_def plan_within_def)
  moreover have "0 < plan_take seg so q" using assms(3) by (simp add: q_def plan_take_pos)
  moreover have "gp_bytes q + plan_take seg so q \<le> WRITE_WR_MAX"
    using plan_room_bytes [of mx p] by (simp add: plan_take_def q_def)
  ultimately show ?thesis by (simp add: plan_within_def sges_bytes_def)
qed

lemma plan_full_within:
  assumes "plan_within mx p" and "plan_full mx p" and "0 < mx"
  shows "wr_within mx (gp_off p, gp_sges p)"
  using assms by (auto simp: plan_within_def plan_full_def wr_within_def WRITE_WR_MAX_def sges_bytes_def)

lemma segment_wrs_within:
  "0 < mx \<Longrightarrow> plan_within mx p \<Longrightarrow>
    list_all (wr_within mx) (fst (segment_wrs mx seg so p)) \<and> plan_within mx (snd (segment_wrs mx seg so p))"
proof (induction mx seg so p rule: segment_wrs.induct)
  case (1 mx seg so p)
  show ?case
  proof (cases "so < seg_len seg")
    case True
    note IH = 1(1) [OF True refl 1(2) plan_within_push [OF 1(3,2) True]]
    show ?thesis
      using IH True plan_full_within [OF 1(3) _ 1(2)]
      by (subst (1 2) segment_wrs.simps) (simp add: Let_def)
  qed (use 1(3) in \<open>simp add: segment_wrs.simps\<close>)
qed

lemma segments_wrs_within:
  "0 < mx \<Longrightarrow> plan_within mx p \<Longrightarrow>
     list_all (wr_within mx) (fst (segments_wrs mx segs p)) \<and> plan_within mx (snd (segments_wrs mx segs p))"
proof (induction segs arbitrary: p)
  case (Cons seg segs)
  then show ?case using segment_wrs_within [OF Cons.prems, of seg 0] by (simp add: Let_def)
qed simp

lemma clamp_sge_bounds: "0 < clamp_sge n" "clamp_sge n \<le> MAX_WRITE_SGE"
  by (simp_all add: clamp_sge_def MAX_WRITE_SGE_def)

lemma gather_wrs_within: "list_all (wr_within (clamp_sge max_sge)) (gather_wrs max_sge segs)"
proof -
  have "plan_within (clamp_sge max_sge) plan_start"
    by (simp add: plan_within_def plan_start_def sges_bytes_def)
  from segments_wrs_within [OF clamp_sge_bounds(1) this, of segs] show ?thesis
    by (auto simp: gather_wrs_def Let_def seal_plan_def wr_within_def plan_within_def)
qed

section \<open>The segments land back to back\<close>

definition sge_data :: "memory \<Rightarrow> sge \<Rightarrow> bytes" where
  "sge_data m g = read_mem m (sge_addr g) (sge_length g)"

definition wr_data :: "memory \<Rightarrow> planned_wr \<Rightarrow> bytes" where
  "wr_data m w = concat (map (sge_data m) (snd w))"

definition seg_data :: "memory \<Rightarrow> write_segment \<Rightarrow> bytes" where
  "seg_data m seg = read_mem m (seg_addr seg) (seg_len seg)"

text \<open>Each request starts where the previous one ended.\<close>

fun back_to_back :: "nat \<Rightarrow> planned_wr list \<Rightarrow> bool" where
  "back_to_back off [] = True"
| "back_to_back off (w # ws) = (fst w = off \<and> back_to_back (off + sges_bytes (snd w)) ws)"

definition plan_open :: "gather_plan \<Rightarrow> planned_wr" where
  "plan_open p = (gp_off p, gp_sges p)"

lemma seg_tail_split:
  assumes "k \<le> seg_len seg - so"
  shows "read_mem m (seg_addr seg + so) (seg_len seg - so) =
    read_mem m (seg_addr seg + so) k @ read_mem m (seg_addr seg + (so + k)) (seg_len seg - (so + k))"
proof -
  have "seg_len seg - so = k + (seg_len seg - (so + k))" using assms by simp
  then show ?thesis
    using read_mem_append [of m "seg_addr seg + so" k "seg_len seg - (so + k)"]
    by (simp only: add.assoc)
qed

lemma segment_wrs_data:
  "concat (map (wr_data m) (fst (segment_wrs mx seg so p) @ [plan_open (snd (segment_wrs mx seg so p))]))
   = wr_data m (plan_open p) @ read_mem m (seg_addr seg + so) (seg_len seg - so)"
proof (induction mx seg so p rule: segment_wrs.induct)
  case (1 mx seg so p)
  show ?case
  proof (cases "so < seg_len seg")
    case True
    define q where "q = plan_room mx p"
    have q: "(if plan_full mx p then wr_data m (gp_off p, gp_sges p) else []) @ wr_data m (plan_open q)
             = wr_data m (plan_open p)"
      by (simp add: q_def plan_room_def plan_open_def wr_data_def)
    have "wr_data m (plan_open (plan_push seg so q)) =
          wr_data m (plan_open q) @ read_mem m (seg_addr seg + so) (plan_take seg so q)"
      by (simp add: plan_open_def wr_data_def sge_data_def)
    moreover have "plan_take seg so q \<le> seg_len seg - so" by (simp add: plan_take_def)
    ultimately show ?thesis
      using 1 [OF True q_def] True q seg_tail_split [of "plan_take seg so q" seg so m]
      by (subst (1 2) segment_wrs.simps) (auto simp: Let_def q_def [symmetric] split: if_splits)
  qed (simp add: segment_wrs.simps)
qed

lemma segments_wrs_data:
  "concat (map (wr_data m) (fst (segments_wrs mx segs p) @ [plan_open (snd (segments_wrs mx segs p))]))
   = wr_data m (plan_open p) @ concat (map (seg_data m) segs)"
proof (induction segs arbitrary: p)
  case (Cons seg segs)
  show ?case
    using segment_wrs_data [of m mx seg 0 p] Cons.IH [of "snd (segment_wrs mx seg 0 p)"]
    by (simp add: Let_def seg_data_def)
qed simp

lemma gather_wrs_data:
  "concat (map (wr_data m) (gather_wrs max_sge segs)) = concat (map (seg_data m) segs)"
proof -
  have "concat (map (wr_data m) (seal_plan p)) = wr_data m (plan_open p)" for p
    by (simp add: seal_plan_def plan_open_def wr_data_def)
  then show ?thesis
    using segments_wrs_data [of m "clamp_sge max_sge" segs plan_start]
    by (simp add: gather_wrs_def Let_def plan_open_def plan_start_def wr_data_def)
qed

lemma back_to_back_append:
  "back_to_back off (xs @ ys) \<longleftrightarrow>
     back_to_back off xs \<and> back_to_back (off + sum_list (map (\<lambda>w. sges_bytes (snd w)) xs)) ys"
  by (induction xs arbitrary: off) (auto simp: add.assoc)

lemma plan_room_contiguous:
  assumes "gp_bytes p = sges_bytes (gp_sges p)"
  shows "back_to_back (gp_off p) ((if plan_full mx p then [(gp_off p, gp_sges p)] else []) @ ws)
         \<longleftrightarrow> back_to_back (gp_off (plan_room mx p)) ws"
    and "gp_bytes (plan_room mx p) = sges_bytes (gp_sges (plan_room mx p))"
  using assms by (simp_all add: plan_room_def sges_bytes_def)

lemma segment_wrs_contiguous:
  "gp_bytes p = sges_bytes (gp_sges p) \<Longrightarrow>
     back_to_back (gp_off p) (fst (segment_wrs mx seg so p) @ [plan_open (snd (segment_wrs mx seg so p))])
     \<and> gp_bytes (snd (segment_wrs mx seg so p)) = sges_bytes (gp_sges (snd (segment_wrs mx seg so p)))"
proof (induction mx seg so p rule: segment_wrs.induct)
  case (1 mx seg so p)
  show ?case
  proof (cases "so < seg_len seg")
    case True
    define q where "q = plan_room mx p"
    note room = plan_room_contiguous [OF 1(2), of mx, folded q_def]
    have "gp_bytes (plan_push seg so q) = sges_bytes (gp_sges (plan_push seg so q))"
      using room(2) by (simp add: sges_bytes_def)
    from 1(1) [OF True q_def this] True room(1) show ?thesis
      by (subst (1 2 3 4) segment_wrs.simps) (simp add: Let_def q_def [symmetric])
  qed (use 1(2) in \<open>simp add: segment_wrs.simps plan_open_def\<close>)
qed

lemma back_to_back_open:
  assumes "back_to_back off (xs @ [plan_open p])" and "back_to_back (gp_off p) ys"
  shows "back_to_back off (xs @ ys)"
  using assms by (simp add: back_to_back_append plan_open_def)

lemma segments_wrs_contiguous:
  "gp_bytes p = sges_bytes (gp_sges p) \<Longrightarrow>
     back_to_back (gp_off p) (fst (segments_wrs mx segs p) @ [plan_open (snd (segments_wrs mx segs p))])"
proof (induction segs arbitrary: p)
  case (Cons seg segs)
  let ?r = "segment_wrs mx seg 0 p"
  note seg = segment_wrs_contiguous [OF Cons.prems, of mx seg 0]
  from back_to_back_open [of "gp_off p" "fst ?r" "snd ?r"] Cons.IH [of "snd ?r"] seg show ?case
    by (simp add: Let_def)
qed (simp add: plan_open_def)

lemma gather_wrs_contiguous: "back_to_back 0 (gather_wrs max_sge segs)"
proof -
  let ?r = "segments_wrs (clamp_sge max_sge) segs plan_start"
  have "back_to_back 0 (fst ?r @ [plan_open (snd ?r)])"
    using segments_wrs_contiguous [of plan_start "clamp_sge max_sge" segs]
    by (simp add: plan_start_def sges_bytes_def)
  then show ?thesis
    by (simp add: gather_wrs_def Let_def seal_plan_def plan_open_def back_to_back_append)
qed

section \<open>Batches agree with the packing\<close>

definition count_of :: "gather_plan \<Rightarrow> batch_count" where
  "count_of p = \<lparr>bc_sge = length (gp_sges p), bc_bytes = gp_bytes p, bc_wrs = gp_count p\<rparr>"

lemma batch_segment_counts:
  "batch_segment mx seg so (count_of p) = count_of (snd (segment_wrs mx seg so p))"
proof (induction mx seg so p rule: segment_wrs.induct)
  case (1 mx seg so p)
  show ?case
  proof (cases "so < seg_len seg")
    case True
    define q where "q = plan_room mx p"
    have room: "(if bc_sge (count_of p) = mx \<or> bc_bytes (count_of p) \<ge> WRITE_WR_MAX
          then \<lparr>bc_sge = 0, bc_bytes = 0, bc_wrs = bc_wrs (count_of p) + 1\<rparr> else count_of p) = count_of q"
      by (simp add: count_of_def q_def plan_room_def plan_full_def)
    have push: "(count_of q)\<lparr>bc_sge := bc_sge (count_of q) + 1,
        bc_bytes := bc_bytes (count_of q) + plan_take seg so q\<rparr> = count_of (plan_push seg so q)"
      and tk: "min (seg_len seg - so) (WRITE_WR_MAX - bc_bytes (count_of q)) = plan_take seg so q"
      by (simp_all add: count_of_def plan_take_def)
    show ?thesis
      using 1 [OF True q_def] True
      by (subst batch_segment.simps, subst segment_wrs.simps)
         (simp only: if_True Let_def room push tk q_def [symmetric] snd_conv)
  qed (simp add: batch_segment.simps segment_wrs.simps)
qed

text \<open>\<open>bc_sealed\<close> is the number of requests if the list ended here.\<close>

lemma sealed_count:
  "bc_sealed (count_of (snd (segments_wrs (clamp_sge mx) segs plan_start)))
   = length (gather_wrs mx segs)"
  using segments_wrs_count [of "clamp_sge mx" segs plan_start]
  by (simp add: bc_sealed_def count_of_def gather_wrs_def Let_def seal_plan_def plan_start_def)

lemma segments_wrs_append:
  "snd (segments_wrs mx (xs @ ys) p) = snd (segments_wrs mx ys (snd (segments_wrs mx xs p)))"
  by (induction xs arbitrary: p) (simp_all add: Let_def)

text \<open>What \<open>batch_walk\<close> returns: the longest prefix whose every prefix fits the budget.\<close>

lemma batch_walk_spec:
  assumes "batch_walk (clamp_sge mx) budget rest
      (count_of (snd (segments_wrs (clamp_sge mx) pre plan_start)))
      (sum_list (map seg_len pre)) (length pre) (sum_list (map seg_len pre)) = (n, k)"
    and "\<forall>i \<le> length pre. 0 < i \<longrightarrow> length (gather_wrs mx (take i pre)) \<le> budget"
  shows "length pre \<le> n \<and> n \<le> length pre + length rest
    \<and> k = sum_list (map seg_len (take n (pre @ rest)))
    \<and> (\<forall>i \<le> n. 0 < i \<longrightarrow> length (gather_wrs mx (take i (pre @ rest))) \<le> budget)
    \<and> (n < length pre + length rest \<longrightarrow> budget < length (gather_wrs mx (take (n + 1) (pre @ rest))))"
  using assms
proof (induction rest arbitrary: pre)
  case (Cons seg rest)
  let ?c = "count_of (snd (segments_wrs (clamp_sge mx) (pre @ [seg]) plan_start))"
  have c: "batch_segment (clamp_sge mx) seg 0
      (count_of (snd (segments_wrs (clamp_sge mx) pre plan_start))) = ?c"
    by (simp add: batch_segment_counts segments_wrs_append Let_def)
  have sealed: "bc_sealed ?c = length (gather_wrs mx (pre @ [seg]))" by (rule sealed_count)
  show ?case
  proof (cases "length (gather_wrs mx (pre @ [seg])) \<le> budget")
    case True
    have "\<forall>i \<le> length (pre @ [seg]). 0 < i \<longrightarrow> length (gather_wrs mx (take i (pre @ [seg]))) \<le> budget"
      using Cons.prems(2) True by (auto simp: le_Suc_eq)
    moreover have "batch_walk (clamp_sge mx) budget rest ?c (sum_list (map seg_len (pre @ [seg])))
        (length (pre @ [seg])) (sum_list (map seg_len (pre @ [seg]))) = (n, k)"
      using Cons.prems(1) True by (simp add: c sealed Let_def)
    moreover have "(pre @ [seg]) @ rest = pre @ seg # rest" by simp
    ultimately show ?thesis
      using Cons.IH [of "pre @ [seg]"] by (simp del: take_append)
  next
    case False
    then have "n = length pre" "k = sum_list (map seg_len pre)"
      using Cons.prems(1) by (simp_all add: c sealed Let_def)
    then show ?thesis using False Cons.prems(2) by simp
  qed
qed simp

lemma count_of_start: "count_of plan_start = \<lparr>bc_sge = 0, bc_bytes = 0, bc_wrs = 0\<rparr>"
  by (simp add: count_of_def plan_start_def)

lemma next_batch_len_spec:
  assumes "segs \<noteq> []" and "0 < budget"
  obtains n where "next_batch_len segs mx budget = Inr (n, sum_list (map seg_len (take n segs)))"
    "1 \<le> n" "n \<le> length segs"
    "length (gather_wrs mx (take n segs)) \<le> budget \<or> n = 1"
    "n < length segs \<Longrightarrow> budget < length (gather_wrs mx (take (n + 1) segs)) \<or> n = 1"
proof -
  define r where "r = batch_walk (clamp_sge mx) (max budget 1) segs
    \<lparr>bc_sge = 0, bc_bytes = 0, bc_wrs = 0\<rparr> 0 0 0"
  obtain n k where nk: "r = (n, k)" by fastforce
  have b: "max budget 1 = budget" using assms(2) by simp
  note S = batch_walk_spec [of mx budget segs "[]" n k]
  have spec: "n \<le> length segs" "k = sum_list (map seg_len (take n segs))"
    "\<forall>i \<le> n. 0 < i \<longrightarrow> length (gather_wrs mx (take i segs)) \<le> budget"
    "n < length segs \<longrightarrow> budget < length (gather_wrs mx (take (n + 1) segs))"
    using S nk unfolding r_def b by (simp_all add: count_of_start)
  show thesis
  proof (cases "n = 0")
    case True
    obtain s0 ss where segs: "segs = s0 # ss" using assms(1) by (cases segs) auto
    have "next_batch_len segs mx budget = Inr (1, sum_list (map seg_len (take 1 segs)))"
      using True nk by (simp add: next_batch_len_def Let_def r_def segs)
    then show thesis by (rule that) (simp_all add: segs)
  next
    case False
    then have "next_batch_len segs mx budget = Inr (n, sum_list (map seg_len (take n segs)))"
      using nk spec(2) by (simp add: next_batch_len_def Let_def r_def)
    then show thesis by (rule that) (use False spec in auto)
  qed
qed

section \<open>What a write posts\<close>

definition gather_wr :: "nat \<Rightarrow> nat \<Rightarrow> u32 \<Rightarrow> u32 option \<Rightarrow> nat \<Rightarrow> planned_wr \<Rightarrow> send_wr" where
  "gather_wr n raddr rkey imm idx w =
     (let imm_here = (if idx = n - 1 then imm else None); a = wrap64 (raddr + fst w)
      in \<lparr>sw_id = (if imm_here \<noteq> None then imm_write_wr_id idx else write_wr_id idx),
          sw_op = (case imm_here of Some i \<Rightarrow> WriteImmOp a rkey (bswap32 i) | None \<Rightarrow> WriteOp a rkey),
          sw_sges = snd w\<rparr>)"

fun gather_sends :: "nat \<Rightarrow> nat \<Rightarrow> u32 \<Rightarrow> u32 option \<Rightarrow> nat \<Rightarrow> planned_wr list \<Rightarrow> send_wr list" where
  "gather_sends n raddr rkey imm idx [] = []"
| "gather_sends n raddr rkey imm idx (w # ws) =
     gather_wr n raddr rkey imm idx w # gather_sends n raddr rkey imm (Suc idx) ws"

text \<open>The immediate carried by requests \<open>idx ..< idx + k\<close> of \<open>n\<close>, as a count.\<close>

definition imm_count :: "nat \<Rightarrow> u32 option \<Rightarrow> nat \<Rightarrow> nat \<Rightarrow> nat" where
  "imm_count n imm idx k = (if imm \<noteq> None \<and> idx \<le> n - 1 \<and> n - 1 < idx + k then 1 else 0)"

definition posted_state ::
  "send_wr list \<Rightarrow> nat \<Rightarrow> nat \<Rightarrow> bool list \<Rightarrow> hord_stream \<Rightarrow> hord_stream" where
  "posted_state ws w i fs s =
     s\<lparr>conn := (conn s)\<lparr>post_faults := fs, sq := sq (conn s) @ ws\<rparr>,
       writes_outstanding := writes_outstanding s + w, imm_outstanding := imm_outstanding s + i\<rparr>"

lemma post_write_gather_cases:
  assumes "length sges \<le> MAX_WRITE_SGE" and "sges \<noteq> [] \<or> imm \<noteq> None"
  obtains (ok) fs where "post_write_gather i sges a k imm c = (Inr (), c\<lparr>post_faults := fs,
      sq := sq c @ [\<lparr>sw_id = i, sw_op = (case imm of Some j \<Rightarrow> WriteImmOp a k (bswap32 j)
        | None \<Rightarrow> WriteOp a k), sw_sges = sges\<rparr>]\<rparr>)" "qp c \<noteq> None"
  | (refused) fs where "post_write_gather i sges a k imm c = (Inl (io_err ErrOther), c\<lparr>post_faults := fs\<rparr>)"
proof (cases rule: with_qp_post_cases [of "\<lambda>c. c\<lparr>sq := sq c @ [\<lparr>sw_id = i,
      sw_op = (case imm of Some j \<Rightarrow> WriteImmOp a k (bswap32 j) | None \<Rightarrow> WriteOp a k),
      sw_sges = sges\<rparr>]\<rparr>" c, case_names posted rejected])
  case (posted fs)
  show thesis
    by (rule ok [of fs]) (use assms posted in \<open>auto simp: post_write_gather_def\<close>)
next
  case (rejected fs)
  show thesis
    by (rule refused [of fs]) (use assms rejected in \<open>auto simp: post_write_gather_def\<close>)
qed

lemma post_planned_eq:
  "post_planned n raddr rkey imm off sges (idx, s) =
     (let imm' = (if idx = n - 1 then imm else None);
          p = post_write_gather (if imm' \<noteq> None then imm_write_wr_id idx else write_wr_id idx) sges
                (wrap64 (raddr + off)) rkey imm' (conn s)
      in case fst p of
           Inl e \<Rightarrow> (Inl e, idx, s\<lparr>conn := snd p\<rparr>)
         | Inr _ \<Rightarrow> (Inr (), Suc idx, s\<lparr>conn := snd p,
               writes_outstanding := wrap_add32 (writes_outstanding s) 1,
               imm_outstanding := (if imm' \<noteq> None then wrap_add32 (imm_outstanding s) 1
                                   else imm_outstanding s)\<rparr>))"
proof -
  define imm' where "imm' = (if idx = n - 1 then imm else None)"
  define i where "i = (if imm' \<noteq> None then imm_write_wr_id idx else write_wr_id idx)"
  obtain r c where pw: "post_write_gather i sges (wrap64 (raddr + off)) rkey imm' (conn s) = (r, c)"
    by fastforce
  show ?thesis
    unfolding post_planned_def Let_def fst_conv snd_conv imm'_def [symmetric] i_def [symmetric]
    by (cases r) (simp_all add: on_conn_eq pw)
qed

lemma post_planned_cases:
  assumes "wr_within mx w" and "mx \<le> MAX_WRITE_SGE" and "writes_outstanding s < u32_max"
    and "imm_outstanding s < u32_max"
  obtains (ok) fs where "post_planned n raddr rkey imm (fst w) (snd w) (idx, s) =
      (Inr (), Suc idx, posted_state [gather_wr n raddr rkey imm idx w] 1 (imm_count n imm idx 1) fs s)"
  | (refused) fs where "post_planned n raddr rkey imm (fst w) (snd w) (idx, s) =
      (Inl (io_err ErrOther), idx, s\<lparr>conn := (conn s)\<lparr>post_faults := fs\<rparr>\<rparr>)"
proof -
  define imm' where "imm' = (if idx = n - 1 then imm else None)"
  define i where "i = (if imm' \<noteq> None then imm_write_wr_id idx else write_wr_id idx)"
  have pre: "length (snd w) \<le> MAX_WRITE_SGE" "snd w \<noteq> [] \<or> imm' \<noteq> None"
    using assms(1,2) by (auto simp: wr_within_def)
  note eq = post_planned_eq [of n raddr rkey imm "fst w" "snd w" idx s, unfolded Let_def,
      folded imm'_def, folded i_def]
  show thesis
  proof (cases rule: post_write_gather_cases [OF pre, of i "wrap64 (raddr + fst w)" rkey "conn s",
        case_names posted rejected])
    case (posted fs)
    have "(if imm' \<noteq> None then wrap_add32 (imm_outstanding s) 1 else imm_outstanding s)
          = imm_outstanding s + imm_count n imm idx 1"
      using assms(4) by (auto simp: imm_count_def imm'_def)
    moreover have "wrap_add32 (writes_outstanding s) 1 = writes_outstanding s + 1"
      using assms(3) by simp
    moreover have "gather_wr n raddr rkey imm idx w = \<lparr>sw_id = i, sw_op = (case imm' of
        Some j \<Rightarrow> WriteImmOp (wrap64 (raddr + fst w)) rkey (bswap32 j)
      | None \<Rightarrow> WriteOp (wrap64 (raddr + fst w)) rkey), sw_sges = snd w\<rparr>"
      unfolding gather_wr_def Let_def imm'_def i_def by (rule refl)
    ultimately have "post_planned n raddr rkey imm (fst w) (snd w) (idx, s) = (Inr (), Suc idx,
        posted_state [gather_wr n raddr rkey imm idx w] 1 (imm_count n imm idx 1) fs s)"
      unfolding eq posted(1) by (simp only: fst_conv snd_conv sum.case posted_state_def)
    then show thesis by (rule ok)
  next
    case (rejected fs)
    then have "post_planned n raddr rkey imm (fst w) (snd w) (idx, s) =
      (Inl (io_err ErrOther), idx, s\<lparr>conn := (conn s)\<lparr>post_faults := fs\<rparr>\<rparr>)"
      unfolding eq by simp
    then show thesis by (rule refused)
  qed
qed

lemma posted_state_append:
  "posted_state ws' w' i' fs' (posted_state ws w i fs s) = posted_state (ws @ ws') (w + w') (i + i') fs' s"
  by (simp add: posted_state_def)

lemma emit_posts:
  assumes "list_all (wr_within mx) ws" and "mx \<le> MAX_WRITE_SGE"
    and "writes_outstanding s + length ws \<le> u32_max" and "imm_outstanding s + length ws \<le> u32_max"
  shows "(\<exists>fs. emit_all (post_planned n raddr rkey imm) ws (idx, s) =
            (Inr (), idx + length ws, posted_state (gather_sends n raddr rkey imm idx ws) (length ws)
               (imm_count n imm idx (length ws)) fs s))
         \<or> (\<exists>fs k. k < length ws \<and> emit_all (post_planned n raddr rkey imm) ws (idx, s) =
            (Inl (io_err ErrOther), idx + k, posted_state (gather_sends n raddr rkey imm idx (take k ws)) k
               (imm_count n imm idx k) fs s))"
  using assms
proof (induction ws arbitrary: idx s)
  case Nil
  have "s = posted_state [] 0 0 (post_faults (conn s)) s" by (simp add: posted_state_def)
  then show ?case by (auto simp: imm_count_def intro!: exI [of _ "post_faults (conn s)"])
next
  case (Cons w ws)
  have pre: "wr_within mx w" "writes_outstanding s < u32_max" "imm_outstanding s < u32_max"
    using Cons.prems by simp_all
  show ?case
  proof (cases rule: post_planned_cases [OF pre(1) Cons.prems(2) pre(2,3), of n raddr rkey imm idx,
        case_names posted rejected])
    case (rejected fs)
    then show ?thesis
      by (intro disjI2 exI [of _ fs] exI [of _ 0]) (simp add: posted_state_def imm_count_def)
  next
    case (posted fs)
    define t where "t = posted_state [gather_wr n raddr rkey imm idx w] 1 (imm_count n imm idx 1) fs s"
    have t: "writes_outstanding t + length ws \<le> u32_max" "imm_outstanding t + length ws \<le> u32_max"
      using Cons.prems(3,4) by (auto simp: t_def posted_state_def imm_count_def)
    have run: "emit_all (post_planned n raddr rkey imm) (w # ws) (idx, s) =
               emit_all (post_planned n raddr rkey imm) ws (Suc idx, t)"
      using posted by (simp add: t_def)
    have cnt: "imm_count n imm idx (Suc 0) + imm_count n imm (Suc idx) k = imm_count n imm idx (Suc k)" for k
      by (auto simp: imm_count_def)
    have "list_all (wr_within mx) ws" using Cons.prems(1) by simp
    from Cons.IH [OF this Cons.prems(2) t, of "Suc idx"] show ?thesis
    proof (elim disjE exE conjE, goal_cases)
      case (1 fs')
      then show ?case
        by (intro disjI1 exI [of _ fs']) (simp only: run, simp add: t_def posted_state_append cnt)
    next
      case (2 fs' k)
      then show ?case
        by (intro disjI2 exI [of _ fs'] exI [of _ "Suc k"])
           (simp only: run, simp add: t_def posted_state_append cnt)
    qed
  qed
qed

text \<open>The requests of a write, the imm-only one included.\<close>

definition write_wrs :: "hord_stream \<Rightarrow> write_segment list \<Rightarrow> u32 option \<Rightarrow> planned_wr list" where
  "write_wrs s segs imm =
     (let ws = gather_wrs (max_send_sge (conn s)) segs
      in if ws = [] \<and> imm \<noteq> None then [(0, [])] else ws)"

lemma count_only: "plan_gather segs mx (\<lambda>_ _ u. (Inr (), u)) () = (Inr (length (gather_wrs mx segs)), ())"
proof -
  have "emit_all (\<lambda>_ _ u. (Inr (), u)) ws () = (Inr (), ())" for ws by (induction ws) simp_all
  then show ?thesis by (simp add: plan_gather_emits)
qed

lemma check_write_capacity_ok:
  "check_write_capacity n has_imm s = Inr () \<longleftrightarrow>
     n \<le> send_pool s \<and> n \<le> length (send_free s) - writes_outstanding s
     \<and> (has_imm \<longrightarrow> imm_outstanding s < peer_split_credits s)"
  by (auto simp: check_write_capacity_def Let_def)

lemma post_imm_only:
  assumes "writes_outstanding s < u32_max" and "imm_outstanding s < u32_max" and "raddr < 2 ^ 64"
  obtains (ok) fs where
      "on_conn (post_write_gather (imm_write_wr_id 0) [] raddr rkey (Some j)) s =
         (Inr (), s\<lparr>conn := (conn s)\<lparr>post_faults := fs, sq := sq (conn s) @
            [gather_wr 1 raddr rkey (Some j) 0 (0, [])]\<rparr>\<rparr>)"
  | (refused) fs where
      "on_conn (post_write_gather (imm_write_wr_id 0) [] raddr rkey (Some j)) s =
         (Inl (io_err ErrOther), s\<lparr>conn := (conn s)\<lparr>post_faults := fs\<rparr>\<rparr>)"
proof (cases rule: post_write_gather_cases [of "[]" "Some j" "imm_write_wr_id 0" raddr rkey "conn s",
      case_names len ne posted rejected])
  case (posted fs)
  show thesis
    by (rule ok [of fs])
       (use posted assms(3) in \<open>simp add: on_conn_eq gather_wr_def wrap64_def\<close>)
next
  case (rejected fs)
  show thesis by (rule refused [of fs]) (simp add: on_conn_eq rejected)
qed simp_all

text \<open>
  A write that is not admitted changes nothing; an admitted one posts exactly its requests,
  in order, unless the device refuses one, and then the stream is closed.
\<close>

lemma begin_gather_cases:
  fixes s :: hord_stream and segs :: "write_segment list" and imm :: "u32 option" and raddr :: nat
  assumes cap: "length (send_free s) \<le> u32_max" "imm_outstanding s \<le> writes_outstanding s"
    and ra: "raddr < 2 ^ 64"
  defines "ws \<equiv> write_wrs s segs imm"
  obtains (closed) "begin_rdma_write_gather_inner segs raddr rkey imm s = (Inl (io_err BrokenPipe), s)"
      "peer_closed s"
  | (nothing) "begin_rdma_write_gather_inner segs raddr rkey imm s = (Inr (), s)" "ws = []"
      "\<not> peer_closed s"
  | (denied) k where "begin_rdma_write_gather_inner segs raddr rkey imm s = (Inl (io_err k), s)"
      "k = (if send_pool s < length ws then InvalidInput else WouldBlock)"
      "check_write_capacity (length ws) (imm \<noteq> None) s = Inl (io_err k)" "\<not> peer_closed s"
  | (posted) fs where "begin_rdma_write_gather_inner segs raddr rkey imm s =
        (Inr (), posted_state (gather_sends (length ws) raddr rkey imm 0 ws) (length ws)
           (if imm \<noteq> None then 1 else 0) fs s)"
      "ws \<noteq> []" "check_write_capacity (length ws) (imm \<noteq> None) s = Inr ()" "\<not> peer_closed s"
  | (refused) fs k where "begin_rdma_write_gather_inner segs raddr rkey imm s =
        (Inl (io_err ErrOther), (posted_state (gather_sends (length ws) raddr rkey imm 0 (take k ws)) k 0 fs s)
           \<lparr>peer_closed := True\<rparr>)"
      "k < length ws" "check_write_capacity (length ws) (imm \<noteq> None) s = Inr ()" "\<not> peer_closed s"
proof -
  let ?g = "gather_wrs (max_send_sge (conn s)) segs"
  let ?b = "begin_rdma_write_gather_inner segs raddr rkey imm s"
  have n: "(if length ?g = 0 \<and> imm \<noteq> None then 1 else length ?g) = length ws"
    by (simp add: ws_def write_wrs_def Let_def)
  have nil: "length ?g = 0 \<longleftrightarrow> ?g = []" by simp
  note b = begin_rdma_write_gather_inner_def [of segs raddr rkey imm s, unfolded Let_def count_only
      fst_conv sum.case n]
  show thesis
  proof (cases "peer_closed s")
    case True
    then show thesis by (intro closed) (simp_all add: b)
  next
    case op: False
    show thesis
    proof (cases "ws = []")
      case True
      then have "?b = (Inr (), s)" using op by (simp add: b)
      then show thesis using True op by (rule nothing)
    next
      case ne: False
      show thesis
      proof (cases "check_write_capacity (length ws) (imm \<noteq> None) s")
        case (Inl e)
        then obtain k where k: "e = io_err k" "k = (if send_pool s < length ws then InvalidInput else WouldBlock)"
          by (auto simp: check_write_capacity_def Let_def split: if_splits)
        have "?b = (Inl (io_err k), s)" using op ne Inl by (simp add: b k(1))
        then show thesis using k(2) Inl [unfolded k(1)] op by (rule denied)
      next
        case (Inr u)
        then have adm: "length ws \<le> length (send_free s) - writes_outstanding s"
          "check_write_capacity (length ws) (imm \<noteq> None) s = Inr ()"
          using check_write_capacity_ok by auto
        have w: "writes_outstanding s + length ws \<le> u32_max" "imm_outstanding s + length ws \<le> u32_max"
          using adm(1) cap ne length_greater_0_conv [of ws] by linarith+
        show thesis
        proof (cases "?g = []")
          case True
          then obtain j where j: "imm = Some j" "ws = [(0, [])]"
            using ne by (auto simp: ws_def write_wrs_def Let_def split: if_splits)
          have lt: "writes_outstanding s < u32_max" "imm_outstanding s < u32_max" using w j by simp_all
          show thesis
          proof (cases rule: post_imm_only [OF lt ra, of rkey j, case_names posted' refused'])
            case (posted' fs)
            have "?b = (Inr (), posted_state (gather_sends (length ws) raddr rkey imm 0 ws) (length ws)
                (if imm \<noteq> None then 1 else 0) fs s)"
              using posted' lt ne op Inr True j(1)
              by (simp add: begin_rdma_write_gather_inner_def Let_def count_only j posted_state_def)
            then show thesis using ne adm(2) op by (rule posted)
          next
            case (refused' fs)
            have "?b = (Inl (io_err ErrOther), (posted_state (gather_sends (length ws) raddr rkey imm 0
                (take 0 ws)) 0 0 fs s)\<lparr>peer_closed := True\<rparr>)"
              using refused' ne op Inr True
              by (simp add: begin_rdma_write_gather_inner_def Let_def count_only j posted_state_def)
            then show thesis by (rule refused) (use ne adm(2) op in simp_all)
          qed
        next
          case False
          then have ws: "ws = ?g" by (simp add: ws_def write_wrs_def Let_def)
          have beg: "?b = (case emit_all (post_planned (length ws) raddr rkey imm) ws (0, s) of
              (Inl e, ix) \<Rightarrow> (Inl e, (snd ix)\<lparr>peer_closed := True\<rparr>) | (Inr _, ix) \<Rightarrow> (Inr (), snd ix))"
            using op ne Inr False
            by (simp add: b plan_gather_emits ws [symmetric] and_then_def split: prod.split sum.split)
          have cnt: "imm_count (length ws) imm 0 k = (if imm \<noteq> None \<and> k = length ws then 1 else 0)"
            if "k \<le> length ws" for k
            using that ne by (auto simp: imm_count_def Suc_le_eq)
          have "list_all (wr_within (clamp_sge (max_send_sge (conn s)))) ws"
            unfolding ws by (rule gather_wrs_within)
          from emit_posts [OF this clamp_sge_bounds(2) w, of "length ws" raddr rkey imm 0]
          show thesis
          proof (elim disjE exE conjE, goal_cases)
            case (1 fs)
            then show thesis using beg cnt [of "length ws"] ne adm(2) op by (intro posted [of fs]) simp_all
          next
            case (2 fs k)
            then show thesis using beg cnt [of k] adm(2) op by (intro refused [of k fs]) simp_all
          qed
        qed
      qed
    qed
  qed
qed

section \<open>Draining before return\<close>

lemma drain_writes_loop_drained:
  assumes "drain_writes_loop s = Some y"
  shows "\<forall>u. fst y = Inr u \<longrightarrow> \<not> writes_pending (snd y)"
  using assms
proof (induction s y rule: drain_writes_loop.raw_induct [rotated, consumes 1, case_names 1])
  case (1 f s y)
  show ?case
  proof (cases "writes_pending s")
    case True
    with 1(2) have "then_loop (pump True s) (\<lambda>_ s. f s) = Some y" by simp
    then show ?thesis using 1(1) by (cases y) (auto elim!: then_loop_SomeD)
  qed (use 1(2) in auto)
qed

lemma drive_write_all_drained:
  assumes "drive_write_all begin_op s = Some (Inr (), s')"
  shows "\<not> writes_pending s' \<and> \<not> peer_closed s'"
proof -
  from assms obtain posted t where t: "drive_post_loop begin_op s = Some (Inr posted, t)"
    "then_loop (drain_writes_loop t) (\<lambda>_ s. case posted of Inl e \<Rightarrow> Some (Inl e, s)
       | Inr _ \<Rightarrow> if peer_closed s then Some (Inl (io_err BrokenPipe), s) else Some (Inr (), s))
     = Some (Inr (), s')"
    unfolding drive_write_all_def by (rule then_loop_SomeD)
  from t(2) obtain u v where "drain_writes_loop t = Some (Inr u, v)"
      "(case posted of Inl e \<Rightarrow> Some (Inl e, v)
       | Inr _ \<Rightarrow> if peer_closed v then Some (Inl (io_err BrokenPipe), v) else Some (Inr (), v))
       = Some (Inr (), s')"
    by (rule then_loop_SomeD)
  then show ?thesis
    using drain_writes_loop_drained [of t] by (auto split: sum.splits if_splits)
qed

text \<open>
  Under back-pressure with nothing in flight the harness reports an error instead of
  spinning: no completion could ever free the window.
\<close>

lemma drive_write_all_stalled:
  assumes "fst (begin_op s) = Inl (io_err WouldBlock)" and "snd (begin_op s) = s"
    and "\<not> sends_outstanding s" and "\<not> writes_pending s"
  shows "drive_write_all begin_op s = Some (Inl (io_err ErrOther), s)"
  using assms
  by (simp add: drive_write_all_def drive_post_loop.simps [of begin_op s] Let_def
      drain_writes_loop.simps [of s])

section \<open>Over-long gathers are cut into batches\<close>

lemma next_batch_len_pos:
  assumes "next_batch_len segs mx budget = Inr b" and "segs \<noteq> []"
  shows "0 < fst b"
  using assms by (auto simp: next_batch_len_def Let_def split: if_splits list.splits)

function gather_batches ::
  "nat \<Rightarrow> nat \<Rightarrow> write_segment list \<Rightarrow> nat \<Rightarrow> (write_segment list \<times> nat) list" where
  "gather_batches mx pool segs base =
     (if segs = [] then []
      else case next_batch_len segs mx pool of
             Inl _ \<Rightarrow> []
           | Inr b \<Rightarrow> (take (fst b) segs, base) # gather_batches mx pool (drop (fst b) segs) (base + snd b))"
  by pat_completeness auto
termination
  by (relation "measure (\<lambda>(mx, pool, segs, base). length segs)")
     (auto dest!: next_batch_len_pos)

declare gather_batches.simps [simp del]

text \<open>The batches are the list, cut at segment boundaries, each at its own remote offset.\<close>

fun batch_bases :: "nat \<Rightarrow> (write_segment list \<times> nat) list \<Rightarrow> bool" where
  "batch_bases off [] = True"
| "batch_bases off (b # bs) = (snd b = off \<and> batch_bases (off + sum_list (map seg_len (fst b))) bs)"

lemma gather_batches_spec:
  "0 < pool \<Longrightarrow>
     concat (map fst (gather_batches mx pool segs base)) = segs
     \<and> batch_bases base (gather_batches mx pool segs base)
     \<and> list_all (\<lambda>b. fst b \<noteq> [] \<and> (length (gather_wrs mx (fst b)) \<le> pool \<or> length (fst b) = 1))
         (gather_batches mx pool segs base)"
proof (induction mx pool segs base rule: gather_batches.induct)
  case (1 mx pool segs base)
  show ?case
  proof (cases "segs = []")
    case False
    obtain n where n: "next_batch_len segs mx pool = Inr (n, sum_list (map seg_len (take n segs)))"
        "1 \<le> n" "n \<le> length segs" "length (gather_wrs mx (take n segs)) \<le> pool \<or> n = 1"
      using next_batch_len_spec [OF False 1(2), of mx] by blast
    from 1(1) [OF False n(1) 1(2)] n False show ?thesis
      by (subst (1 2 3) gather_batches.simps) auto
  qed (simp add: gather_batches.simps)
qed

end
