(* ===== verification/Write_Safety.thy ===== *)
theory Write_Safety
  imports Blocking Gather
begin

text \<open>
  One-sided writes under the endpoint invariant. The counters \<open>writes_outstanding\<close> and
  \<open>imm_outstanding\<close> bound the write requests the NIC may still be reading from, every entry
  point keeps the invariant and none panics, and a driven write that ends without an error
  leaves no request of it behind.
\<close>

section \<open>The accounting invariant\<close>

definition write_ids :: "hord_stream \<Rightarrow> u64 multiset" where
  "write_ids s = filter_mset is_write (send_ids s)"

definition plain_in_flight :: "hord_stream \<Rightarrow> nat" where
  "plain_in_flight s = size (filter_mset (\<lambda>w. \<not> is_imm_write w) (write_ids s))"

definition imm_in_flight :: "hord_stream \<Rightarrow> nat" where
  "imm_in_flight s = size (filter_mset is_imm_write (write_ids s))"

definition accounted :: "hord_stream \<Rightarrow> bool" where
  "accounted s \<longleftrightarrow>
     imm_outstanding s + plain_in_flight s \<le> writes_outstanding s
     \<and> imm_in_flight s \<le> imm_outstanding s
     \<and> writes_outstanding s \<le> send_pool s \<and> send_pool s \<le> u32_max"

definition write_ok :: "hord_stream \<Rightarrow> bool" where
  "write_ok s \<longleftrightarrow> queue_ok s \<and> accounted s"

definition ledger where
  "ledger s = (write_ids s, writes_outstanding s, imm_outstanding s, send_pool s)"

lemma accounted_ledger: "ledger t = ledger s \<Longrightarrow> accounted t = accounted s"
  by (simp add: ledger_def accounted_def plain_in_flight_def imm_in_flight_def)

lemma size_write_ids: "size (write_ids s) = plain_in_flight s + imm_in_flight s"
  using size_union [of "filter_mset is_imm_write (write_ids s)" "filter_mset (\<lambda>w. \<not> is_imm_write w) (write_ids s)"]
  by (simp add: plain_in_flight_def imm_in_flight_def multiset_partition [symmetric] add.commute)

text \<open>Nothing is in flight once the counter is zero.\<close>

lemma no_writes_pending:
  assumes "accounted s" and "\<not> writes_pending s"
  shows "write_ids s = {#}"
  using assms size_write_ids [of s] by (auto simp: accounted_def writes_pending_def)

section \<open>The primitives keep it\<close>

lemma ledger_simps [simp]:
  "ledger (s\<lparr>rx_ready := ms\<rparr>) = ledger s" "ledger (s\<lparr>peer_closed := b\<rparr>) = ledger s"
  "ledger (s\<lparr>send_credits := k\<rparr>) = ledger s" "ledger (s\<lparr>grant_pending := k\<rparr>) = ledger s"
  "ledger (s\<lparr>tx_stage := bs\<rparr>) = ledger s" "ledger (s\<lparr>completed_transfers := ts\<rparr>) = ledger s"
  "ledger (s\<lparr>send_free := fs\<rparr>) = ledger s" "ledger (s\<lparr>ctrl_send_busy := b\<rparr>) = ledger s"
  by (simp_all add: ledger_def write_ids_def send_ids_def)

lemma ledger_conn:
  "sq c = sq (conn s) \<Longrightarrow> cq_ids (cq c) = cq_ids (cq (conn s)) \<Longrightarrow> ledger (s\<lparr>conn := c\<rparr>) = ledger s"
  by (simp add: ledger_def write_ids_def send_ids_def)

lemma accounted_upd [simp]:
  "accounted (s\<lparr>rx_ready := ms\<rparr>) = accounted s" "accounted (s\<lparr>peer_closed := b\<rparr>) = accounted s"
  "accounted (s\<lparr>send_credits := k\<rparr>) = accounted s" "accounted (s\<lparr>grant_pending := k\<rparr>) = accounted s"
  "accounted (s\<lparr>tx_stage := bs\<rparr>) = accounted s" "accounted (s\<lparr>completed_transfers := ts\<rparr>) = accounted s"
  "accounted (s\<lparr>send_free := fs\<rparr>) = accounted s" "accounted (s\<lparr>ctrl_send_busy := b\<rparr>) = accounted s"
  by (rule accounted_ledger; simp)+

lemma post_recv_slot_ledger: "ledger (snd (post_recv_slot slot s)) = ledger s"
  by (cases rule: post_recv_slot_cases [of slot s]) (simp_all add: ledger_conn)

lemma handle_recv_ledger: "ledger (snd (handle_recv wc s)) = ledger s"
  by (cases rule: handle_recv_cases [of wc s])
     (simp_all add: post_recv_slot_ledger snd_and_then split: sum.split)

lemma nic_step_ledger:
  assumes "stream_ok s"
  shows "ledger (s\<lparr>conn := nic_step ev (conn s)\<rparr>) = ledger s"
proof -
  have "\<not> is_write (rw_id w)" if "rq (conn s) = w # ws" for w ws
    using posted_recv_lane(1) [OF assms, of w] that by (simp add: recv_lane_def)
  then show ?thesis
    by (cases ev) (auto simp: ledger_def write_ids_def send_ids_def report_def split: list.split)
qed

lemma post_data_message_ledger:
  assumes inv: "stream_ok s" and can: "can_send_data s" and len: "length payload \<le> payload_cap s"
  shows "ledger (snd (post_data_message payload s)) = ledger s"
proof -
  have ne: "send_free s \<noteq> []" using can by (simp add: can_send_data_def)
  then have "last (send_free s) \<in># send_owned s" by (simp add: send_owned_def)
  then have "last (send_free s) < send_pool s" using in_owned_less stream_okD(3) [OF inv] by blast
  then have "last (send_free s) < slot_bound" using stream_okD(1) [OF inv] by (simp add: geometry_def)
  then have "\<not> is_write (send_wr_id (last (send_free s)))" by (rule wr_id_lanes)
  then show ?thesis
    by (cases rule: post_data_message_cases [OF inv ne len])
       (simp_all add: ledger_def write_ids_def send_ids_def)
qed

lemma send_credit_return_ledger:
  assumes inv: "stream_ok s"
  shows "ledger (snd (send_credit_return s)) = ledger s"
proof -
  have "ctrl_slot s < slot_bound" using stream_okD(1) [OF inv] by (simp add: geometry_def)
  then have "\<not> is_write (ctrl_send_wr_id (ctrl_slot s))" by (rule wr_id_lanes)
  then show ?thesis
    by (cases rule: send_credit_return_cases [OF inv])
       (simp_all add: ledger_def write_ids_def send_ids_def)
qed

text \<open>Reaping a write releases its count; a failed receive report never does.\<close>

lemma reap_accounted:
  assumes inv: "stream_ok s" and acc: "accounted s" and cq: "cq (conn s) = CqWc r # rest"
  defines "t \<equiv> s\<lparr>conn := (conn s)\<lparr>cq := rest\<rparr>\<rparr>"
  shows "accounted (snd (handle_completion (completion_of_raw r) t))"
proof -
  let ?i = "raw_wr_id r"
  have ids: "write_ids s = (if is_write ?i then {#?i#} else {#}) + write_ids t"
    by (simp add: write_ids_def send_ids_def t_def cq)
  have fields: "writes_outstanding t = writes_outstanding s" "imm_outstanding t = imm_outstanding s"
    "send_pool t = send_pool s"
    by (simp_all add: t_def)
  have plain: "plain_in_flight s = plain_in_flight t + (if is_write ?i \<and> \<not> is_imm_write ?i then 1 else 0)"
    and imm: "imm_in_flight s = imm_in_flight t + (if is_write ?i \<and> is_imm_write ?i then 1 else 0)"
    by (simp_all add: plain_in_flight_def imm_in_flight_def ids)
  have t: "accounted t" using acc by (simp add: accounted_def fields plain imm split: if_splits)
  have keep: "plain_in_flight (t\<lparr>writes_outstanding := a\<rparr>) = plain_in_flight t"
    "plain_in_flight (t\<lparr>writes_outstanding := a, imm_outstanding := b\<rparr>) = plain_in_flight t"
    "imm_in_flight (t\<lparr>writes_outstanding := a\<rparr>) = imm_in_flight t"
    "imm_in_flight (t\<lparr>writes_outstanding := a, imm_outstanding := b\<rparr>) = imm_in_flight t" for a b
    by (simp_all add: plain_in_flight_def imm_in_flight_def write_ids_def send_ids_def)
  have w: "accounted (t\<lparr>writes_outstanding := writes_outstanding t - 1\<rparr>)"
    if "is_write ?i" "\<not> is_imm_write ?i"
    using acc that by (auto simp: accounted_def fields plain imm keep)
  have wi: "accounted (t\<lparr>writes_outstanding := writes_outstanding t - 1,
      imm_outstanding := imm_outstanding t - 1\<rparr>)" if "is_write ?i" "is_imm_write ?i"
    using acc that by (auto simp: accounted_def fields plain imm keep)
  have same: "accounted (snd (post_recv_slot slot u)) = accounted u"
    "accounted (snd (handle_recv wc u)) = accounted u" for slot u wc
    by (intro accounted_ledger post_recv_slot_ledger handle_recv_ledger)+
  show ?thesis
    using t w wi by (simp add: handle_completion_def Let_def reclaim_send_def same)
qed

interpretation wr: stream_safe write_ok
proof unfold_locales
  fix s ev assume "write_ok s" "qp (conn s) \<noteq> None"
  then show "write_ok (s\<lparr>conn := nic_step ev (conn s)\<rparr>)"
    using accounted_ledger [OF nic_step_ledger] queue.P_nic by (auto simp: write_ok_def queue_ok_def)
next
  fix s r rest assume "write_ok s" "cq (conn s) = CqWc r # rest"
  then show "write_ok (snd (handle_completion (completion_of_raw r) (s\<lparr>conn := (conn s)\<lparr>cq := rest\<rparr>\<rparr>)))"
    using reap_accounted queue.P_reap by (auto simp: write_ok_def queue_ok_def)
next
  fix s and payload :: bytes assume "write_ok s" "can_send_data s" "length payload \<le> payload_cap s"
  then show "write_ok (snd (post_data_message payload s))"
    using accounted_ledger [OF post_data_message_ledger] queue.P_post_data
    by (auto simp: write_ok_def queue_ok_def)
next
  fix s assume "write_ok s"
  then show "write_ok (snd (send_credit_return s))"
    using accounted_ledger [OF send_credit_return_ledger] queue.P_credit
    by (auto simp: write_ok_def queue_ok_def)
next
  fix s m ms assume "write_ok s" "rx_ready s = m # ms"
  moreover have "accounted (snd (post_recv_slot slot u)) = accounted u" for slot u
    by (intro accounted_ledger post_recv_slot_ledger)
  ultimately show "write_ok (snd (and_then (post_recv_slot (rm_slot m) (s\<lparr>rx_ready := ms\<rparr>))
           (\<lambda>_ s. (Inr (), s\<lparr>grant_pending := wrap_add32 (grant_pending s) 1\<rparr>))))"
    using queue.P_consume [of s m ms] by (auto simp: write_ok_def snd_and_then split: sum.split)
next
  fix s and evs :: "nic_event list list" assume "write_ok s"
  then show "write_ok (s\<lparr>conn := (conn s)\<lparr>arrivals := evs\<rparr>\<rparr>)"
    using accounted_ledger [OF ledger_conn] queue.P_script by (auto simp: write_ok_def)
next
  fix s and es :: "cm_poll list" assume "write_ok s"
  then show "write_ok (s\<lparr>conn := (conn s)\<lparr>cm_events := es\<rparr>\<rparr>)"
    using accounted_ledger [OF ledger_conn] queue.P_cm by (auto simp: write_ok_def)
next
  fix s rest assume "write_ok s" "cq (conn s) = CqFault # rest"
  then show "write_ok (s\<lparr>conn := (conn s)\<lparr>cq := rest\<rparr>\<rparr>)"
    using accounted_ledger [OF ledger_conn] queue.P_cq_fault by (auto simp: write_ok_def)
qed (use queue.P_rx_bounds queue.P_rx_buf in \<open>auto simp: write_ok_def queue.P_closed queue.P_take
    queue.P_stage queue.P_unstage queue.P_partial queue.P_stage_cap queue.P_reap_safe
    queue.P_post_safe queue.P_credit_safe\<close>)

section \<open>Posting writes keeps it\<close>

lemma gather_wr_lane:
  assumes "idx < slot_bound"
  shows "is_write (sw_id (gather_wr n raddr rkey imm idx w))"
    "\<not> is_send (sw_id (gather_wr n raddr rkey imm idx w))"
    "is_imm_write (sw_id (gather_wr n raddr rkey imm idx w)) \<longleftrightarrow> idx = n - 1 \<and> imm \<noteq> None"
  using wr_id_lanes [OF assms] by (auto simp: gather_wr_def Let_def)

lemma gather_sends_lane:
  assumes "idx + length ws \<le> slot_bound"
  shows "list_all (\<lambda>w. is_write (sw_id w) \<and> \<not> is_send (sw_id w)) (gather_sends n raddr rkey imm idx ws)"
    and "length (filter (\<lambda>w. is_imm_write (sw_id w)) (gather_sends n raddr rkey imm idx ws))
         = imm_count n imm idx (length ws)"
    and "length (gather_sends n raddr rkey imm idx ws) = length ws"
proof -
  show "list_all (\<lambda>w. is_write (sw_id w) \<and> \<not> is_send (sw_id w)) (gather_sends n raddr rkey imm idx ws)"
    "length (gather_sends n raddr rkey imm idx ws) = length ws"
    using assms by (induction ws arbitrary: idx) (simp_all add: gather_wr_lane)
  show "length (filter (\<lambda>w. is_imm_write (sw_id w)) (gather_sends n raddr rkey imm idx ws))
         = imm_count n imm idx (length ws)"
    using assms
    by (induction ws arbitrary: idx)
       (auto simp: gather_wr_lane imm_count_def simp del: length_0_conv)
qed

lemma stream_ok_posted:
  assumes inv: "stream_ok s" and ws: "list_all (\<lambda>w. is_write (sw_id w) \<and> \<not> is_send (sw_id w)) ws"
  shows "stream_ok (posted_state ws k i fs s)"
proof -
  let ?t = "s\<lparr>conn := (conn s)\<lparr>post_faults := fs, sq := sq (conn s) @ ws\<rparr>\<rparr>"
  note D = stream_okD [OF inv]
  have none: "filter_mset data_lane (mset (map sw_id ws)) = {#}"
    "filter_mset ctrl_lane (mset (map sw_id ws)) = {#}"
    using ws by (auto simp: list_all_iff data_lane_def ctrl_lane_def)
  have "send_owned ?t = send_owned s" "recv_owned ?t = recv_owned s"
    "ctrl_in_flight ?t = ctrl_in_flight s"
    using none by (simp_all add: owned_defs)
  moreover have "recv_posted_ok ?t" using D(5) by (simp add: recv_posted_ok_def)
  moreover have "list_all (sq_entry_ok s) (sq (conn ?t))"
    using D(11) ws by (auto simp: list_all_iff sq_entry_ok_def recv_lane_def data_lane_def ctrl_lane_def)
  ultimately have "stream_ok ?t" using D by (simp add: stream_ok_def)
  then show ?thesis by (simp add: posted_state_def)
qed

lemma size_filter_map: "size (filter_mset P (mset (map f xs))) = length (filter (\<lambda>x. P (f x)) xs)"
  by (induction xs) simp_all

lemma posted_write_ok:
  assumes ok: "write_ok s" and ws: "list_all (\<lambda>w. is_write (sw_id w) \<and> \<not> is_send (sw_id w)) ws"
    and i: "length (filter (\<lambda>w. is_imm_write (sw_id w)) ws) = i"
    and cap: "writes_outstanding s + length ws \<le> send_pool s"
  shows "write_ok (posted_state ws (length ws) i fs s)"
proof -
  let ?t = "posted_state ws (length ws) i fs s"
  have "fixtures ?t = fixtures s" by (simp add: fixtures_def posted_state_def statics_def)
  then have "layout_ok ?t = layout_ok s" by (rule layout_ok_fixtures)
  then have q: "queue_ok ?t"
    using ok stream_ok_posted [OF _ ws] by (simp add: write_ok_def queue_ok_def)
  have "filter is_write (map sw_id ws) = map sw_id ws"
    using ws by (simp add: list_all_iff)
  then have "filter_mset is_write (mset (map sw_id ws)) = mset (map sw_id ws)"
    by (metis mset_filter)
  then have ids: "write_ids ?t = write_ids s + mset (map sw_id ws)"
    by (simp add: write_ids_def send_ids_def posted_state_def ac_simps)
  have "size (filter_mset is_imm_write (mset (map sw_id ws))) = i"
    using i by (simp only: size_filter_map)
  moreover have "size (filter_mset (\<lambda>w. \<not> is_imm_write w) (mset (map sw_id ws))) + i = length ws"
    using i sum_length_filter_compl [of "\<lambda>w. is_imm_write (sw_id w)" ws]
    by (simp only: size_filter_map)
  ultimately have "plain_in_flight ?t + i = plain_in_flight s + length ws"
    "imm_in_flight ?t = imm_in_flight s + i"
    by (simp_all add: plain_in_flight_def imm_in_flight_def ids del: mset_map)
  then have "accounted ?t"
    using ok cap by (simp add: write_ok_def accounted_def) (simp add: posted_state_def)
  with q show ?thesis by (simp add: write_ok_def)
qed

lemma free_le_pool: "stream_ok s \<Longrightarrow> length (send_free s) \<le> send_pool s"
  using size_mset_mono [OF stream_okD(3)] by (fastforce simp: send_owned_def)

lemma capacity_room:
  assumes "check_write_capacity n has_imm s = Inr ()" and "0 < n"
  shows "writes_outstanding s + n \<le> length (send_free s)" "n \<le> send_pool s"
  using assms by (auto simp: check_write_capacity_ok)

lemma write_ok_caps:
  assumes "write_ok s"
  shows "length (send_free s) \<le> u32_max" "imm_outstanding s \<le> writes_outstanding s"
    "length (send_free s) \<le> send_pool s" "send_pool s < slot_bound"
proof -
  note q = assms [unfolded write_ok_def queue_ok_def]
  show "length (send_free s) \<le> send_pool s" using q free_le_pool by blast
  then show "length (send_free s) \<le> u32_max" using q by (simp add: accounted_def)
  show "imm_outstanding s \<le> writes_outstanding s" using q by (simp add: accounted_def)
  show "send_pool s < slot_bound" using q stream_okD(1) by (auto simp: geometry_def)
qed

lemma begin_gather_write_ok:
  assumes ok: "write_ok s" and ra: "raddr < 2 ^ 64"
  shows "safe_outcome write_ok (begin_rdma_write_gather_inner segs raddr rkey imm s)"
proof -
  let ?ws = "write_wrs s segs imm"
  note free = write_ok_caps [OF ok]
  show ?thesis
  proof (cases rule: begin_gather_cases [OF free(1,2) ra, where segs = segs and imm = imm and rkey = rkey,
        case_names closed nothing denied posted refused])
    case (posted fs)
    have cap: "writes_outstanding s + length ?ws \<le> send_pool s" "length ?ws \<le> slot_bound"
      using capacity_room [OF posted(3)] posted(2) free by auto
    have "imm_count (length ?ws) imm 0 (length ?ws) = (if imm \<noteq> None then 1 else 0)"
      using posted(2) by (simp add: imm_count_def)
    then have "write_ok (posted_state (gather_sends (length ?ws) raddr rkey imm 0 ?ws) (length ?ws)
        (if imm \<noteq> None then 1 else 0) fs s)"
      using posted_write_ok [OF ok, of "gather_sends (length ?ws) raddr rkey imm 0 ?ws" _ fs] cap
      by (simp add: gather_sends_lane)
    then show ?thesis by (simp add: posted(1))
  next
    case (refused fs k)
    have cap: "writes_outstanding s + k \<le> send_pool s" "k \<le> slot_bound"
      using capacity_room [OF refused(3) order.strict_trans1 [OF le0 refused(2)]] refused(2) free by auto
    have "imm_count (length ?ws) imm 0 (length (take k ?ws)) = 0"
      using refused(2) by (auto simp: imm_count_def)
    then have "write_ok (posted_state (gather_sends (length ?ws) raddr rkey imm 0 (take k ?ws)) k 0 fs s)"
      using posted_write_ok [OF ok, of "gather_sends (length ?ws) raddr rkey imm 0 (take k ?ws)" 0 fs]
        cap refused(2)
      by (simp add: gather_sends_lane)
    then show ?thesis by (simp add: refused(1) wr.P_closed)
  qed (use ok in simp_all)
qed

section \<open>Driving a write\<close>

text \<open>
  The harness for any posting operation that keeps a safe property of the stream: it keeps
  the property and does not panic.
\<close>

locale write_driver = stream_safe +
  fixes begin_op :: "hord_stream \<Rightarrow> unit res \<times> hord_stream"
  assumes begin_safe: "P s \<Longrightarrow> safe_outcome P (begin_op s)"
begin

lemma drive_post_loop_safe:
  assumes "drive_post_loop b s = Some y"
  shows "b = begin_op \<longrightarrow> P s \<longrightarrow> safe_outcome P y \<and> fst y \<noteq> Inr (Inl Panic)"
  using assms
proof (induction b s y rule: drive_post_loop.raw_induct [rotated, consumes 1, case_names 1])
  case (1 f b s y)
  show ?case
  proof (intro impI)
    assume b: "b = begin_op" and P: "P s"
    define t where "t = snd (begin_op s)"
    have t: "P t" "fst (begin_op s) \<noteq> Inl Panic"
      using begin_safe [OF P] by (simp_all add: safe_outcome_def t_def)
    have IH: "safe_outcome P y \<and> fst y \<noteq> Inr (Inl Panic)"
      if tl: "then_loop (pump True t) (\<lambda>_ s. f b s) = Some y"
    proof -
      obtain z where z: "pump True t = Some z" using tl by (cases "pump True t") auto
      have "safe_outcome P z" by (rule pump_safe [OF z t(1)])
      with tl z 1(1) [of b "snd z" y] b show ?thesis
        by (auto simp: then_loop_def safe_outcome_def split: sum.splits)
    qed
    show "safe_outcome P y \<and> fst y \<noteq> Inr (Inl Panic)"
      using 1(2) t IH
      by (auto simp: b Let_def t_def [symmetric] split: sum.splits if_splits fault.splits)
  qed
qed

lemma drain_writes_loop_safe:
  assumes "drain_writes_loop s = Some y"
  shows "P s \<longrightarrow> safe_outcome P y"
  using assms
proof (induction s y rule: drain_writes_loop.raw_induct [rotated, consumes 1, case_names 1])
  case (1 f s y)
  then show ?case using pump_then_safe [of True s f y] by (auto split: if_splits)
qed

lemma drive_write_all_safe:
  assumes "drive_write_all begin_op s = Some y" and "P s"
  shows "safe_outcome P y"
proof -
  obtain z where z: "drive_post_loop begin_op s = Some z"
    using assms(1) by (cases "drive_post_loop begin_op s") (auto simp: drive_write_all_def)
  have Z: "safe_outcome P z" "fst z \<noteq> Inr (Inl Panic)"
    using drive_post_loop_safe [OF z] assms(2) by auto
  show ?thesis
  proof (cases "fst z")
    case (Inl e)
    with Z z assms(1) show ?thesis by (auto simp: drive_write_all_def then_loop_def safe_outcome_def)
  next
    case (Inr posted)
    then have "then_loop (drain_writes_loop (snd z)) (\<lambda>_ s. case posted of Inl e \<Rightarrow> Some (Inl e, s)
        | Inr _ \<Rightarrow> if peer_closed s then Some (Inl (io_err BrokenPipe), s) else Some (Inr (), s)) = Some y"
      using assms(1) z by (simp add: drive_write_all_def then_loop_def [of "Some z"])
    then show ?thesis
      by (rule then_loop_safe)
         (use Z Inr drain_writes_loop_safe [of "snd z"] in
           \<open>auto simp: safe_outcome_def split: sum.splits if_splits\<close>)
  qed
qed

end

text \<open>
  A driven write that succeeds has no request left in the send queue or the completion
  queue: the NIC is done with its source.
\<close>

lemma drive_write_all_released:
  assumes "drive_write_all begin_op s = Some (Inr (), s')" and "write_ok s'"
  shows "write_ids s' = {#}"
  using drive_write_all_drained [OF assms(1)] no_writes_pending assms(2) by (simp add: write_ok_def)

lemma wrap64_word: "wrap64 a = unat (of_nat a :: u64)"
  by (simp add: wrap64_def unat_of_nat take_bit_eq_mod)

text \<open>The batch loop of a long gather list.\<close>

lemma next_gather_batch_ok:
  assumes "start < length segs"
  defines "rest \<equiv> drop start segs"
  obtains n where "next_gather_batch s segs start = Inr (n, sum_list (map seg_len (take n rest)))"
    "next_batch_len rest (max_send_sge (conn s)) (send_pool s) = Inr (n, sum_list (map seg_len (take n rest)))"
    "1 \<le> n" "start + n \<le> length segs"
proof -
  have ne: "rest \<noteq> []" and pos: "0 < max (send_pool s) 1" using assms by simp_all
  have "next_batch_len rest mx (max pool 1) = next_batch_len rest mx pool" for mx pool
    by (simp add: next_batch_len_def)
  moreover obtain n where "next_batch_len rest (max_send_sge (conn s)) (max (send_pool s) 1) =
      Inr (n, sum_list (map seg_len (take n rest)))" "1 \<le> n" "n \<le> length rest"
    using next_batch_len_spec [OF ne pos, of "max_send_sge (conn s)"] by metis
  ultimately show thesis
    by (intro that [of n]) (use assms in \<open>auto simp: next_gather_batch_def\<close>)
qed

interpretation frozen: stream_safe "\<lambda>s. write_ok s \<and> fixtures s = k" for k
  by unfold_locales
     (use wr.P_rx_bounds wr.P_rx_buf in \<open>auto simp: wr.P_nic wr.P_script wr.P_cm wr.P_closed wr.P_cq_fault
        wr.P_reap wr.P_take wr.P_stage wr.P_unstage wr.P_post_data wr.P_credit wr.P_partial wr.P_consume
        wr.P_stage_cap wr.P_reap_safe wr.P_post_safe wr.P_credit_safe
        fixed.P_nic fixed.P_script fixed.P_cm fixed.P_cq_fault fixed.P_reap fixed.P_post_data
        fixed.P_credit fixed.P_consume simp del: One_nat_def\<close>)

lemma begin_gather_frozen:
  assumes "write_ok s" and "raddr < 2 ^ 64"
  shows "fixtures (snd (begin_rdma_write_gather_inner segs raddr rkey imm s)) = fixtures s"
  by (cases rule: begin_gather_cases [OF write_ok_caps(1,2) [OF assms(1)] assms(2),
        where segs = segs and imm = imm and rkey = rkey])
     (simp_all add: posted_state_def fixtures_def statics_def)

interpretation held: write_driver "\<lambda>s. write_ok s \<and> fixtures s = k"
  "begin_rdma_write_gather_inner segs (wrap64 raddr) rkey imm" for k segs raddr rkey imm
proof unfold_locales
  fix s assume s: "write_ok s \<and> fixtures s = k"
  have "wrap64 raddr < 2 ^ 64" by (simp add: wrap64_def)
  with s begin_gather_write_ok begin_gather_frozen
  show "safe_outcome (\<lambda>s. write_ok s \<and> fixtures s = k)
      (begin_rdma_write_gather_inner segs (wrap64 raddr) rkey imm s)"
    by (auto simp: safe_outcome_def)
qed

text \<open>The reference: the batches of the list, each driven to completion before the next.\<close>

fun run_batches ::
  "nat \<Rightarrow> u32 \<Rightarrow> u32 option \<Rightarrow> (write_segment list \<times> nat) list \<Rightarrow> hord_stream
     \<Rightarrow> (unit res \<times> hord_stream) option" where
  "run_batches raddr rkey imm [] s = Some (Inr (), s)"
| "run_batches raddr rkey imm (b # bs) s =
     then_loop (drive_write_all (begin_rdma_write_gather_inner (fst b) (wrap64 (raddr + snd b)) rkey
                  (if bs = [] then imm else None)) s)
       (\<lambda>_ s. run_batches raddr rkey imm bs s)"

lemma then_loop_cong:
  assumes "\<And>a t. r = Some (Inr a, t) \<Longrightarrow> f a t = g a t"
  shows "then_loop r f = then_loop r g"
  using assms by (cases r) (auto simp: then_loop_def split: sum.split)

lemma gather_batches_Nil: "gather_batches mx pool segs base = [] \<longleftrightarrow> segs = []"
proof -
  have "segs \<noteq> [] \<Longrightarrow> \<exists>b. next_batch_len segs mx pool = Inr b"
    by (auto simp: next_batch_len_def Let_def split: list.split)
  then show ?thesis by (auto simp: gather_batches.simps)
qed

lemma gather_all_loop_batches:
  assumes "write_ok s" and "start \<le> length segs"
  shows "gather_all_loop segs raddr rkey imm start base s =
    run_batches raddr rkey imm
      (gather_batches (max_send_sge (conn s)) (send_pool s) (drop start segs) base) s"
  using assms
proof (induction "length segs - start" arbitrary: start base s rule: less_induct)
  case less
  show ?case
  proof (cases "start < length segs")
    case False
    then show ?thesis by (simp add: gather_all_loop.simps gather_batches.simps)
  next
    case True
    let ?rest = "drop start segs" and ?mx = "max_send_sge (conn s)" and ?pool = "send_pool s"
    obtain n where n: "next_gather_batch s segs start = Inr (n, sum_list (map seg_len (take n ?rest)))"
      "next_batch_len ?rest ?mx ?pool = Inr (n, sum_list (map seg_len (take n ?rest)))"
      "1 \<le> n" "start + n \<le> length segs"
      by (rule next_gather_batch_ok [OF True])
    define base' where "base' = base + sum_list (map seg_len (take n ?rest))"
    have gb: "gather_batches ?mx ?pool ?rest base
        = (take n ?rest, base) # gather_batches ?mx ?pool (drop (start + n) segs) base'"
      using True n(2) by (simp add: gather_batches.simps [of ?mx ?pool ?rest] base'_def add.commute)
    define batch where "batch = begin_rdma_write_gather_inner (take n ?rest) (wrap64 (raddr + base)) rkey
        (if start + n = length segs then imm else None)"
    have step: "gather_all_loop segs raddr rkey imm (start + n) base' t =
        run_batches raddr rkey imm (gather_batches ?mx ?pool (drop (start + n) segs) base') t"
      if "drive_write_all batch s = Some (Inr u, t)" for u t
    proof -
      have "write_ok t \<and> fixtures t = fixtures s"
        using held.drive_write_all_safe [OF that [unfolded batch_def], of "fixtures s"] less.prems(1)
        by simp
      moreover from this have "max_send_sge (conn t) = ?mx" "send_pool t = ?pool"
        by (simp_all add: fixtures_def statics_def)
      ultimately show ?thesis using less.hyps [of "start + n" t base'] n True by simp
    qed
    have "gather_all_loop segs raddr rkey imm start base s =
        then_loop (drive_write_all batch s) (\<lambda>_ t. gather_all_loop segs raddr rkey imm (start + n) base' t)"
      using True n
      by (subst gather_all_loop.simps) (simp add: Let_def subslice_def batch_def base'_def)
    also have "\<dots> = then_loop (drive_write_all batch s)
        (\<lambda>_ t. run_batches raddr rkey imm (gather_batches ?mx ?pool (drop (start + n) segs) base') t)"
      by (rule then_loop_cong) (rule step)
    also have "\<dots> = run_batches raddr rkey imm (gather_batches ?mx ?pool ?rest base) s"
      using n(4) by (simp add: gb batch_def gather_batches_Nil)
    finally show ?thesis .
  qed
qed

lemma run_batches_safe:
  assumes "run_batches raddr rkey imm bs s = Some y" and "write_ok s"
  shows "safe_outcome write_ok y"
  using assms
proof (induction bs arbitrary: s)
  case (Cons b bs)
  let ?op = "begin_rdma_write_gather_inner (fst b) (wrap64 (raddr + snd b)) rkey (if bs = [] then imm else None)"
  from Cons.prems(1) have "then_loop (drive_write_all ?op s) (\<lambda>_ s. run_batches raddr rkey imm bs s) = Some y"
    by simp
  then show ?case
  proof (rule then_loop_safe)
    show "safe_outcome write_ok z" if "drive_write_all ?op s = Some z" for z
      using held.drive_write_all_safe [OF that, of "fixtures s"] Cons.prems(2)
      by (simp add: safe_outcome_def)
  qed (rule Cons.IH)
qed auto

lemma rdma_write_gather_all_safe:
  assumes "rdma_write_gather_all_inner segs raddr rkey imm s = Some y" and "write_ok s"
    and "raddr < 2 ^ 64"
  shows "safe_outcome write_ok y"
proof (cases "segs = []")
  case True
  have "wrap64 raddr = raddr" using assms(3) by (simp add: wrap64_def)
  with assms(1) True have "drive_write_all (begin_rdma_write_gather_inner [] (wrap64 raddr) rkey imm) s = Some y"
    by (simp add: rdma_write_gather_all_inner_def)
  from held.drive_write_all_safe [OF this, of "fixtures s"] assms(2) show ?thesis
    by (simp add: safe_outcome_def)
next
  case False
  with assms show ?thesis
    using run_batches_safe gather_all_loop_batches [OF assms(2), of 0 segs]
    by (auto simp: rdma_write_gather_all_inner_def)
qed

end
