(* ===== verification/Setup.thy ===== *)
theory Setup
  imports Write_Safety
begin

text \<open>
  Connection set-up establishes the endpoint invariant: starting from a connection with idle
  queues, both \<open>from_accepted\<close> and \<open>connect\<close> (and the staged \<open>accept_prepare\<close> path of the
  async server, whose waits are in \<open>Accept_Async\<close>) end, when they succeed, in a stream that satisfies \<open>write_ok\<close>, whatever the
  peer sends during the handshake.
\<close>

section \<open>What set-up starts from\<close>

definition below_brk :: "connection \<Rightarrow> bool" where
  "below_brk c \<longleftrightarrow> list_all (\<lambda>r. reg_addr r + reg_len r \<le> brk c) (regions c)"

definition fresh_conn :: "connection \<Rightarrow> bool" where
  "fresh_conn c \<longleftrightarrow> sq c = [] \<and> rq c = [] \<and> cq c = [] \<and> below_brk c"

definition config_ok :: "hord_config \<Rightarrow> bool" where
  "config_ok cfg \<longleftrightarrow>
     max_message_size cfg < 2 ^ 32 \<and> recv_wr_count cfg \<le> slot_bound \<and> send_pool_size cfg \<le> u32_max"

definition heap_ok :: "hord_stream \<Rightarrow> bool" where
  "heap_ok s \<longleftrightarrow>
     below_brk (conn s) \<and> list_all (\<lambda>b. rb_addr b + rb_len b \<le> brk (conn s)) (pool_buffers s)"

section \<open>The handshake phase\<close>

text \<open>
  While the handshake runs, two extra work requests with reserved identifiers are posted;
  each is reported once.
\<close>

lemma hs_ids:
  "is_write HS_RECV_WR_ID" "is_write HS_SEND_WR_ID" "HS_RECV_WR_ID \<noteq> HS_SEND_WR_ID"
  "\<not> recv_lane HS_RECV_WR_ID" "\<not> recv_lane HS_SEND_WR_ID"
proof -
  show "is_write HS_RECV_WR_ID" "is_write HS_SEND_WR_ID" "HS_RECV_WR_ID \<noteq> HS_SEND_WR_ID"
    by (simp_all add: is_write_def HS_RECV_WR_ID_def HS_SEND_WR_ID_def WRITE_FLAG_def)
  then show "\<not> recv_lane HS_RECV_WR_ID" "\<not> recv_lane HS_SEND_WR_ID"
    by (simp_all add: recv_lane_def)
qed

definition setup_rq_ok :: "hord_stream \<Rightarrow> bool" where
  "setup_rq_ok s \<longleftrightarrow>
     list_all (\<lambda>w. rw_id w = HS_RECV_WR_ID
       \<or> (slot_of (rw_id w) < split_base s \<and> w = slot_wr s (slot_of (rw_id w)))) (rq (conn s))"

definition setup_cq_ok :: "hord_stream \<Rightarrow> bool" where
  "setup_cq_ok s \<longleftrightarrow>
     list_all (\<lambda>i. recv_lane i \<or> i = HS_RECV_WR_ID \<or> i = HS_SEND_WR_ID) (cq_ids (cq (conn s)))"

definition recv_ids :: "hord_stream \<Rightarrow> u64 multiset" where
  "recv_ids s = mset (map rw_id (rq (conn s))) + mset (cq_ids (cq (conn s)))"

definition setup_idle :: "hord_stream \<Rightarrow> bool" where
  "setup_idle s \<longleftrightarrow>
     rx_ready s = [] \<and> tx_stage s = [] \<and> send_free s = rev [0..<send_pool s]
     \<and> \<not> ctrl_send_busy s \<and> writes_outstanding s = 0 \<and> imm_outstanding s = 0
     \<and> grant_pending s = 0 \<and> split_recv s = None"

definition setup_ok :: "hord_stream \<Rightarrow> bool" where
  "setup_ok s \<longleftrightarrow>
     geometry (s\<lparr>payload_cap := 1\<rparr>) \<and> send_pool s \<le> u32_max \<and> setup_idle s
     \<and> setup_rq_ok s \<and> setup_cq_ok s \<and> list_all (\<lambda>w. sw_id w = HS_SEND_WR_ID) (sq (conn s))
     \<and> image_mset slot_of (filter_mset recv_lane (recv_ids s)) \<subseteq># mset [0..<split_base s]
     \<and> count (recv_ids s) HS_RECV_WR_ID + of_bool (hs_got_recv s) \<le> 1
     \<and> count (send_ids s) HS_SEND_WR_ID + of_bool (hs_got_send s) \<le> 1
     \<and> layout_ok s \<and> heap_ok s"

lemma nic_step_moves:
  obtains (stay) "rq (nic_step ev c) = rq c" "sq (nic_step ev c) = sq c"
      "cq_ids (cq (nic_step ev c)) = cq_ids (cq c)"
  | (recv) w where "rq c = w # rq (nic_step ev c)" "sq (nic_step ev c) = sq c"
      "cq_ids (cq (nic_step ev c)) = cq_ids (cq c) @ [rw_id w]"
  | (send) w where "sq c = w # sq (nic_step ev c)" "rq (nic_step ev c) = rq c"
      "cq_ids (cq (nic_step ev c)) = cq_ids (cq c) @ [sw_id w]"
proof -
  have "(rq (nic_step ev c) = rq c \<and> sq (nic_step ev c) = sq c \<and> cq_ids (cq (nic_step ev c)) = cq_ids (cq c))
    \<or> (\<exists>w. rq c = w # rq (nic_step ev c) \<and> sq (nic_step ev c) = sq c
        \<and> cq_ids (cq (nic_step ev c)) = cq_ids (cq c) @ [rw_id w])
    \<or> (\<exists>w. sq c = w # sq (nic_step ev c) \<and> rq (nic_step ev c) = rq c
        \<and> cq_ids (cq (nic_step ev c)) = cq_ids (cq c) @ [sw_id w])"
    by (cases ev) (auto simp: report_def split: list.split)
  then show thesis using stay recv send by blast
qed

lemma setup_ok_nic_step:
  assumes "setup_ok s"
  shows "setup_ok (s\<lparr>conn := nic_step ev (conn s)\<rparr>)" (is "setup_ok ?t")
proof -
  have fx: "fixtures ?t = fixtures s" by (rule nic_step_fixtures)
  have "layout_ok ?t = layout_ok s" "heap_ok ?t = heap_ok s" "setup_idle ?t = setup_idle s"
    "geometry (?t\<lparr>payload_cap := 1\<rparr>) = geometry (s\<lparr>payload_cap := 1\<rparr>)"
    using layout_ok_fixtures [OF fx] fx
    by (simp_all add: fixtures_def heap_ok_def below_brk_def pool_buffers_def setup_idle_def geometry_def)
  note frame = this
  have lanes: "recv_lane (rw_id w) \<or> rw_id w = HS_RECV_WR_ID" if "w \<in> set (rq (conn s))" for w
  proof -
    have "rw_id w = HS_RECV_WR_ID \<or> (slot_of (rw_id w) < slot_bound \<and> w = slot_wr s (slot_of (rw_id w)))"
      using assms that by (auto simp: setup_ok_def setup_rq_ok_def list_all_iff geometry_def)
    then show ?thesis by (metis recv_lane_def slot_wr_simps(1) wr_id_lanes(1,2))
  qed
  show ?thesis
  proof (cases rule: nic_step_moves [of ev "conn s", case_names stay recv send])
    case stay
    then show ?thesis
      using assms frame
      by (simp add: setup_ok_def setup_rq_ok_def setup_cq_ok_def recv_ids_def send_ids_def)
  next
    case (recv w)
    then show ?thesis
      using assms frame lanes [of w] hs_ids(3)
      by (simp add: setup_ok_def setup_rq_ok_def setup_cq_ok_def recv_ids_def send_ids_def)
         (auto simp: hs_ids)
  next
    case (send w)
    then have "sw_id w = HS_SEND_WR_ID" using assms by (simp add: setup_ok_def)
    with send show ?thesis
      using assms frame
      by (auto simp: setup_ok_def setup_rq_ok_def setup_cq_ok_def recv_ids_def send_ids_def hs_ids
          hs_ids(3) [symmetric])
  qed
qed

text \<open>The part of a connection the invariant looks at; CM calls leave it alone.\<close>

definition core where
  "core c = (sq c, rq c, cq c, regions c, brk c)"

lemma setup_ok_core:
  assumes "core c = core (conn s)"
  shows "setup_ok (s\<lparr>conn := c\<rparr>) = setup_ok s"
proof -
  have "layout_ok (s\<lparr>conn := c\<rparr>) = layout_ok s"
    using assms by (intro layout_ok_cong) (simp_all add: core_def)
  then show ?thesis
    using assms
    by (simp add: core_def setup_ok_def setup_idle_def setup_rq_ok_def setup_cq_ok_def recv_ids_def
        send_ids_def heap_ok_def below_brk_def pool_buffers_def geometry_def)
qed

lemma setup_ok_arrivals: "setup_ok (s\<lparr>conn := c\<lparr>arrivals := evs\<rparr>\<rparr>) = setup_ok (s\<lparr>conn := c\<rparr>)"
  using setup_ok_core [of "c\<lparr>arrivals := evs\<rparr>" "s\<lparr>conn := c\<rparr>"] by (simp add: core_def)

lemma setup_ok_settle:
  assumes "setup_ok s"
  shows "setup_ok (s\<lparr>conn := settle (conn s)\<rparr>)"
proof -
  have "setup_ok u \<Longrightarrow> setup_ok (u\<lparr>conn := fold nic_step evs (conn u)\<rparr>)" for u evs
  proof (induction evs arbitrary: u)
    case (Cons ev evs)
    then show ?case using Cons.IH [OF setup_ok_nic_step [OF Cons.prems, of ev]] by simp
  qed simp
  then have "setup_ok (s\<lparr>conn := c\<rparr>)"
    if "c = (if qp (conn s) = None then conn s else fold nic_step evs (conn s))" for c evs
    using assms that by simp
  from this [OF refl] show ?thesis
    using assms by (auto simp: settle_def setup_ok_arrivals split: list.split)
qed

lemma setup_ok_flags [simp]:
  "setup_ok (s\<lparr>hs_recv_len := n\<rparr>) = setup_ok s"
  by (simp add: setup_ok_def setup_idle_def setup_rq_ok_def setup_cq_ok_def recv_ids_def
        send_ids_def heap_ok_def below_brk_def pool_buffers_def geometry_def layout_ok_def
        slot_wr_def slot_buf_def slot_off_def)

text \<open>Reaping a handshake completion turns its identifier into a flag.\<close>

lemma setup_reap:
  assumes "setup_ok s" and cq: "cq (conn s) = CqWc r # rest"
  defines "t \<equiv> s\<lparr>conn := (conn s)\<lparr>cq := rest\<rparr>\<rparr>"
  shows "raw_wr_id r = HS_RECV_WR_ID \<Longrightarrow> setup_ok (t\<lparr>hs_got_recv := True\<rparr>)"
    and "raw_wr_id r = HS_SEND_WR_ID \<Longrightarrow> setup_ok (t\<lparr>hs_got_send := True\<rparr>)"
proof -
  have same: "geometry (t\<lparr>payload_cap := 1\<rparr>)" "send_pool t \<le> u32_max" "setup_idle t" "setup_rq_ok t"
    "setup_cq_ok t" "list_all (\<lambda>w. sw_id w = HS_SEND_WR_ID) (sq (conn t))" "layout_ok t" "heap_ok t"
    using assms
    by (simp_all add: setup_ok_def setup_idle_def setup_rq_ok_def setup_cq_ok_def heap_ok_def
        below_brk_def pool_buffers_def geometry_def)
  have flags: "geometry (t\<lparr>hs_got_recv := b, payload_cap := k\<rparr>) = geometry (t\<lparr>payload_cap := k\<rparr>)"
    "geometry (t\<lparr>hs_got_send := b, payload_cap := k\<rparr>) = geometry (t\<lparr>payload_cap := k\<rparr>)"
    "setup_idle (t\<lparr>hs_got_recv := b\<rparr>) = setup_idle t" "setup_idle (t\<lparr>hs_got_send := b\<rparr>) = setup_idle t"
    "setup_rq_ok (t\<lparr>hs_got_recv := b\<rparr>) = setup_rq_ok t" "setup_rq_ok (t\<lparr>hs_got_send := b\<rparr>) = setup_rq_ok t"
    "layout_ok (t\<lparr>hs_got_recv := b\<rparr>) = layout_ok t" "layout_ok (t\<lparr>hs_got_send := b\<rparr>) = layout_ok t"
    for b k
    by (simp_all add: geometry_def setup_idle_def setup_rq_ok_def layout_ok_def pool_buffers_def
        slot_wr_def slot_buf_def slot_off_def)
  have ids: "recv_ids s = add_mset (raw_wr_id r) (recv_ids t)" "send_ids s = add_mset (raw_wr_id r) (send_ids t)"
    by (simp_all add: recv_ids_def send_ids_def t_def cq)
  have R: "image_mset slot_of (filter_mset recv_lane (recv_ids s)) \<subseteq># mset [0..<split_base t]"
    "count (recv_ids s) HS_RECV_WR_ID + of_bool (hs_got_recv t) \<le> 1"
    "count (send_ids s) HS_SEND_WR_ID + of_bool (hs_got_send t) \<le> 1"
    using assms by (simp_all add: setup_ok_def t_def)
  have upd: "recv_ids (t\<lparr>hs_got_recv := b\<rparr>) = recv_ids t" "send_ids (t\<lparr>hs_got_recv := b\<rparr>) = send_ids t"
    "recv_ids (t\<lparr>hs_got_send := b\<rparr>) = recv_ids t" "send_ids (t\<lparr>hs_got_send := b\<rparr>) = send_ids t"
    "setup_cq_ok (t\<lparr>hs_got_recv := b\<rparr>) = setup_cq_ok t" "setup_cq_ok (t\<lparr>hs_got_send := b\<rparr>) = setup_cq_ok t"
    "heap_ok (t\<lparr>hs_got_recv := b\<rparr>) = heap_ok t" "heap_ok (t\<lparr>hs_got_send := b\<rparr>) = heap_ok t" for b
    by (simp_all add: recv_ids_def send_ids_def setup_cq_ok_def heap_ok_def pool_buffers_def)
  show "setup_ok (t\<lparr>hs_got_recv := True\<rparr>)" if "raw_wr_id r = HS_RECV_WR_ID"
    using same R that hs_ids
    by (simp add: setup_ok_def flags upd ids)
  show "setup_ok (t\<lparr>hs_got_send := True\<rparr>)" if "raw_wr_id r = HS_SEND_WR_ID"
    using same R that hs_ids
    by (simp add: setup_ok_def flags upd ids)
qed

lemma poll_handshake_loop_setup:
  "setup_ok s \<Longrightarrow> poll_handshake_loop s = (Inr b, s') \<Longrightarrow>
     setup_ok s' \<and> (b \<longrightarrow> hs_got_recv s' \<and> hs_got_send s')"
proof (induction s rule: poll_handshake_loop.induct)
  case (1 s)
  let ?t = "s\<lparr>conn := settle (conn s)\<rparr>"
  note t = setup_ok_settle [OF 1(3)]
  show ?case
  proof (cases "hs_got_recv s \<and> hs_got_send s")
    case True
    then show ?thesis using 1(3,4) by (simp add: poll_handshake_loop.simps)
  next
    case False
    show ?thesis
    proof (cases "cq (settle (conn s))")
      case Nil
      then have "poll (conn s) = (Inr None, settle (conn s))" by (simp add: poll_def Let_def)
      then show ?thesis using 1(4) False t by (auto simp: poll_handshake_loop.simps [of s] Let_def)
    next
      case (Cons e rest)
      show ?thesis
      proof (cases e)
        case CqFault
        then show ?thesis
          using 1(4) False Cons by (auto simp: poll_handshake_loop.simps [of s] Let_def poll_def)
      next
        case (CqWc r)
        define s1 where "s1 = s\<lparr>conn := (settle (conn s))\<lparr>cq := rest\<rparr>\<rparr>"
        have p: "poll (conn s) = (Inr (Some (completion_of_raw r)), (settle (conn s))\<lparr>cq := rest\<rparr>)"
          using Cons CqWc by (simp add: poll_def Let_def)
        have reap: "raw_wr_id r = HS_RECV_WR_ID \<Longrightarrow> setup_ok (s1\<lparr>hs_got_recv := True, hs_recv_len := n\<rparr>)"
          "raw_wr_id r = HS_SEND_WR_ID \<Longrightarrow> setup_ok (s1\<lparr>hs_got_send := True\<rparr>)" for n
          using setup_reap [OF t, of r rest] Cons CqWc setup_ok_flags [where s = "s1\<lparr>hs_got_recv := True\<rparr>"]
          by (simp_all add: s1_def)
        show ?thesis
          using 1(1) [OF False refl refl, unfolded p] 1(2) [OF False refl refl, unfolded p]
            1(4) False reap
          by (auto simp: poll_handshake_loop.simps [of s] Let_def p s1_def split: if_splits)
      qed
    qed
  qed
qed

lemma poll_handshake_setup:
  assumes "setup_ok s" and "poll_handshake s = (Inr h, s')"
  shows "setup_ok s' \<and> (h \<noteq> None \<longrightarrow> hs_got_recv s' \<and> hs_got_send s')"
proof -
  obtain b where "poll_handshake_loop s = (Inr b, s')" "h \<noteq> None \<longrightarrow> b"
    using assms(2)
    by (auto simp: poll_handshake_def Let_def split: and_then_splits if_splits sum.splits)
  then show ?thesis using poll_handshake_loop_setup [OF assms(1)] by blast
qed

lemma exchange_loop_setup:
  "setup_ok s \<Longrightarrow> exchange_loop budget s = (Inr h, s') \<Longrightarrow> setup_ok s' \<and> hs_got_recv s' \<and> hs_got_send s'"
proof (induction budget arbitrary: s)
  case (Suc budget)
  from Suc.prems(2) obtain peer t where p: "poll_handshake s = (Inr peer, t)"
    and r: "(case peer of Some h \<Rightarrow> (Inr h, t) | None \<Rightarrow> exchange_loop budget t) = (Inr h, s')"
    unfolding exchange_loop.simps [of "Suc budget"] nat.case by (rule and_then_InrD)
  with poll_handshake_setup [OF Suc.prems(1) p] Suc.IH [of t] show ?case by (cases peer) auto
next
  case 0
  from 0(2) obtain peer t where p: "poll_handshake s = (Inr peer, t)"
    and r: "(case peer of Some h \<Rightarrow> (Inr h, t) | None \<Rightarrow> (Inl (io_err TimedOut), t)) = (Inr h, s')"
    unfolding exchange_loop.simps [of 0] nat.case by (rule and_then_InrD)
  with poll_handshake_setup [OF 0(1) p] show ?case by (cases peer) auto
qed

text \<open>Our own handshake goes out once, before anything else is sent.\<close>

definition unsent :: "hord_stream \<Rightarrow> bool" where
  "unsent s \<longleftrightarrow> sq (conn s) = [] \<and> cq (conn s) = [] \<and> \<not> hs_got_send s \<and> \<not> hs_got_recv s"

lemma begin_handshake_send_setup:
  assumes ok: "setup_ok s" and un: "unsent s" and run: "begin_handshake_send cfg s = (Inr u, s')"
  shows "setup_ok s'"
proof -
  let ?b = "hs_buf s"
  obtain m where m: "copy_in ?b HANDSHAKE_LEN (handshake_encode (my_handshake cfg)) (smem s) = Inr m"
    using run by (cases "copy_in ?b HANDSHAKE_LEN (handshake_encode (my_handshake cfg)) (smem s)")
      (auto simp: begin_handshake_send_def)
  define wr where "wr = \<lparr>sw_id = HS_SEND_WR_ID, sw_op = SendOp,
    sw_sges = [\<lparr>sge_addr = rb_addr ?b + HANDSHAKE_LEN, sge_length = HANDSHAKE_LEN, sge_lkey = rb_lkey ?b\<rparr>]\<rparr>"
  obtain fs where s': "s' = s\<lparr>conn := (conn s)\<lparr>mem := m, post_faults := fs, sq := [wr]\<rparr>\<rparr>"
    using run un m
    by (cases rule: post_send_cases [of HS_SEND_WR_ID "rb_addr ?b + HANDSHAKE_LEN" HANDSHAKE_LEN
          "rb_lkey ?b" "(conn s)\<lparr>mem := m\<rparr>"])
       (auto simp: begin_handshake_send_def on_conn_eq unsent_def wr_def)
  have "layout_ok s' = layout_ok s" unfolding s' by (rule layout_ok_cong) simp_all
  then show ?thesis
    using ok un
    by (simp add: setup_ok_def)
       (auto simp: s' wr_def unsent_def setup_idle_def setup_rq_ok_def setup_cq_ok_def recv_ids_def
        send_ids_def heap_ok_def below_brk_def pool_buffers_def geometry_def)
qed

section \<open>The invariant holds once the handshake is done\<close>

definition world_ok :: "hord_stream \<Rightarrow> bool" where
  "world_ok s \<longleftrightarrow> write_ok s \<and> heap_ok s"

text \<open>The fields the invariant depends on.\<close>

definition live where
  "live s = ((rx_ready s, tx_stage s, send_free s, ctrl_send_busy s),
     (send_credits s, grant_pending s, writes_outstanding s, imm_outstanding s))"

lemma world_ok_cong:
  assumes st: "statics t = statics s" and co: "core (conn t) = core (conn s)" and li: "live t = live s"
  shows "world_ok t = world_ok s"
proof -
  have q: "sq (conn t) = sq (conn s)" "rq (conn t) = rq (conn s)" "cq (conn t) = cq (conn s)"
    "regions (conn t) = regions (conn s)" "brk (conn t) = brk (conn s)"
    using co by (simp_all add: core_def)
  have l: "rx_ready t = rx_ready s" "tx_stage t = tx_stage s" "send_free t = send_free s"
    "ctrl_send_busy t = ctrl_send_busy s" "send_credits t = send_credits s"
    "grant_pending t = grant_pending s" "writes_outstanding t = writes_outstanding s"
    "imm_outstanding t = imm_outstanding s"
    using li by (simp_all add: live_def)
  have p: "payload_cap t = payload_cap s" "send_pool t = send_pool s" "pool_buffers t = pool_buffers s"
    using st by (simp_all add: statics_def pool_buffers_def)
  have "stream_ok t = stream_ok s"
    by (simp add: stream_ok_def statics_cong [OF st] owned_defs q l p)
  moreover have "layout_ok t = layout_ok s" by (rule layout_ok_cong [OF st q(4)])
  ultimately show ?thesis
    by (simp add: world_ok_def write_ok_def queue_ok_def accounted_def plain_in_flight_def
        imm_in_flight_def write_ids_def send_ids_def heap_ok_def below_brk_def q l p)
qed

lemma setup_ok_drained:
  assumes "setup_ok s" and "hs_got_recv s" and "hs_got_send s"
  shows "sq (conn s) = []" and "\<And>w. w \<in> set (rq (conn s)) \<Longrightarrow>
      slot_of (rw_id w) < split_base s \<and> w = slot_wr s (slot_of (rw_id w)) \<and> recv_lane (rw_id w)"
    and "\<And>i. i \<in> set (cq_ids (cq (conn s))) \<Longrightarrow> recv_lane i"
proof -
  have zero: "count (recv_ids s) HS_RECV_WR_ID = 0" "count (send_ids s) HS_SEND_WR_ID = 0"
    using assms by (simp_all add: setup_ok_def)
  then have no: "HS_RECV_WR_ID \<notin># recv_ids s" "HS_SEND_WR_ID \<notin># send_ids s"
    by (simp_all add: not_in_iff)
  show "sq (conn s) = []"
    using assms(1) no(2) by (cases "sq (conn s)") (auto simp: setup_ok_def send_ids_def)
  show "recv_lane i" if "i \<in> set (cq_ids (cq (conn s)))" for i
    using assms(1) no that by (auto simp: setup_ok_def setup_cq_ok_def list_all_iff recv_ids_def send_ids_def)
  show "slot_of (rw_id w) < split_base s \<and> w = slot_wr s (slot_of (rw_id w)) \<and> recv_lane (rw_id w)"
    if w: "w \<in> set (rq (conn s))" for w
  proof -
    have "rw_id w \<noteq> HS_RECV_WR_ID" using no(1) w by (force simp: recv_ids_def)
    moreover have "setup_rq_ok s" using assms(1) by (simp add: setup_ok_def)
    ultimately have sl: "slot_of (rw_id w) < split_base s \<and> w = slot_wr s (slot_of (rw_id w))"
      using w by (auto simp: setup_rq_ok_def list_all_iff)
    then have "slot_of (rw_id w) < slot_bound" using assms(1) by (auto simp: setup_ok_def geometry_def)
    with sl show ?thesis by (metis recv_lane_def slot_wr_simps(1) wr_id_lanes(1,2))
  qed
qed

lemma filter_mset_all: "(\<And>x. x \<in> set xs \<Longrightarrow> P x) \<Longrightarrow> filter_mset P (mset xs) = mset xs"
  by (induction xs) auto

lemma cq_ok_recv: "(\<And>i. i \<in> set (cq_ids es) \<Longrightarrow> recv_lane i) \<Longrightarrow> cq_ok es"
  by (induction es rule: cq_ids.induct) (auto simp: cq_ok_def)

lemma setup_done:
  assumes ok: "setup_ok s" and got: "hs_got_recv s" "hs_got_send s"
    and cap: "0 < cap" "cap + ENVELOPE_LEN \<le> msg_size s" and cr: "k \<le> u32_max"
  shows "world_ok (s\<lparr>payload_cap := cap, send_credits := k\<rparr>)" (is "world_ok ?t")
proof -
  note dr = setup_ok_drained [OF ok got]
  have idle: "rx_ready s = []" "tx_stage s = []" "send_free s = rev [0..<send_pool s]"
    "\<not> ctrl_send_busy s" "writes_outstanding s = 0" "imm_outstanding s = 0" "grant_pending s = 0"
    "split_recv s = None"
    using ok by (simp_all add: setup_ok_def setup_idle_def)
  have rq: "filter_mset recv_lane (mset (map rw_id (rq (conn s)))) = mset (map rw_id (rq (conn s)))"
    by (rule filter_mset_all) (use dr(2) in auto)
  have "recv_owned ?t = image_mset slot_of (filter_mset recv_lane (recv_ids s))"
    using rq by (simp add: recv_owned_def recv_ids_def idle image_mset.compositionality o_def)
  then have owned: "recv_owned ?t \<subseteq># mset [0..<recv_slots ?t]"
    using ok by (simp add: setup_ok_def recv_slots_def idle)
  have cqs: "filter_mset data_lane (mset (cq_ids (cq (conn s)))) = {#}"
    "filter_mset ctrl_lane (mset (cq_ids (cq (conn s)))) = {#}"
    "filter_mset is_write (mset (cq_ids (cq (conn s)))) = {#}"
    using dr(3) by (auto simp: recv_lane_def data_lane_def ctrl_lane_def)
  have "cq_ok (cq (conn s))" using dr(3) by (rule cq_ok_recv)
  moreover have "geometry ?t" using ok cap by (auto simp: setup_ok_def geometry_def)
  moreover have "slot_wr ?t = slot_wr s"
    by (simp add: fun_eq_iff slot_wr_def slot_buf_def slot_off_def)
  then have "recv_posted_ok ?t"
    using dr(2) by (simp add: recv_posted_ok_def list_all_iff recv_slots_def idle)
  moreover have "send_owned ?t \<subseteq># mset [0..<send_pool s]" "ctrl_in_flight ?t = 0"
    using cqs dr(1) by (simp_all add: send_owned_def ctrl_in_flight_def send_ids_def idle)
  ultimately have "stream_ok ?t"
    using owned cap cr dr(1) by (simp add: stream_ok_def idle)
  moreover have "write_ids ?t = {#}" using cqs(3) dr(1) by (simp add: write_ids_def send_ids_def)
  then have "accounted ?t"
    using ok by (simp add: accounted_def plain_in_flight_def imm_in_flight_def idle setup_ok_def)
  moreover have "layout_ok ?t" "heap_ok ?t"
    using ok by (simp_all add: setup_ok_def layout_ok_def heap_ok_def pool_buffers_def)
  ultimately show ?thesis by (simp add: world_ok_def write_ok_def queue_ok_def)
qed

section \<open>The split-mode headroom\<close>

lemma post_recv_slot_owned:
  assumes "post_recv_slot slot s = (Inr u, s')" and "slot < slot_bound"
  shows "recv_owned s' = add_mset slot (recv_owned s)" "recv_slots s' = recv_slots s"
  using assms
  by (cases rule: post_recv_slot_cases [of slot s];
      auto simp: recv_owned_def slot_of_wr_id)+

lemma post_recv_slots_world:
  "world_ok s \<Longrightarrow> mset slots + recv_owned s \<subseteq># mset [0..<recv_slots s] \<Longrightarrow>
     post_recv_slots slots s = (Inr u, s') \<Longrightarrow> world_ok s'"
proof (induction slots arbitrary: s)
  case (Cons slot slots)
  from Cons.prems(3) obtain t where t: "post_recv_slot slot s = (Inr (), t)"
    and rest: "post_recv_slots slots t = (Inr u, s')"
    by (auto elim: and_then_InrD)
  note inv = Cons.prems(1) [unfolded world_ok_def write_ok_def queue_ok_def]
  have sub: "add_mset slot (recv_owned s) \<subseteq># mset [0..<recv_slots s]"
    by (rule subset_mset.order_trans [OF _ Cons.prems(2)]) simp
  have bound: "slot < slot_bound"
    using slot_small [OF stream_okD(1)] inv in_owned_less [OF _ sub] by auto
  note own = post_recv_slot_owned [OF t bound]
  have "stream_ok t" using post_recv_slot_inv(1) [of s slot] inv sub t by simp
  moreover have "layout_ok t" using layout_snd(4) [of s slot] inv t by simp
  moreover have "accounted t"
    using accounted_ledger [OF post_recv_slot_ledger [of slot s]] inv t by simp
  moreover have "heap_ok t"
    using inv post_recv_slot_fixtures [of slot s] t
    by (simp add: heap_ok_def below_brk_def pool_buffers_def fixtures_def statics_def)
  ultimately have "world_ok t" by (simp add: world_ok_def write_ok_def queue_ok_def)
  then show ?case using Cons.IH [OF _ _ rest] Cons.prems(2) own by (simp add: ac_simps)
qed simp

lemma access_local: "access_flags ACCESS_LOCAL_WRITE = {LocalWrite}"
  by (simp add: access_flags_def ACCESS_LOCAL_WRITE_def ACCESS_REMOTE_WRITE_def)

text \<open>Fresh storage is disjoint from everything registered so far.\<close>

lemma register_buffer_cases:
  obtains (ok) fs m k where
      "register_buffer len access c = (Inr \<lparr>rb_addr = brk c, rb_len = len, rb_lkey = k, rb_rkey = k\<rparr>,
         c\<lparr>mem := m, brk := brk c + len, reg_faults := fs, next_key := Suc (next_key c),
            regions := regions c @ [\<lparr>reg_addr = brk c, reg_len = len, reg_key = k,
                                      reg_access = access_flags access\<rparr>]\<rparr>)"
  | (refused) c' where "register_buffer len access c = (Inl (io_err ErrOther), c')"
  by (cases "next_fault (reg_faults c)"; cases "fst (next_fault (reg_faults c))")
     (auto simp: register_buffer_def Let_def)

lemma split_buffer_world:
  assumes ok: "world_ok s" and none: "split_recv s = None" "rx_ready s = []"
    and run: "register_buffer (split_headroom s * msg_size s) ACCESS_LOCAL_WRITE (conn s) = (Inr buf, c)"
  shows "world_ok (s\<lparr>conn := c, split_recv := Some buf\<rparr>)"
    and "recv_owned (s\<lparr>conn := c, split_recv := Some buf\<rparr>) = recv_owned s"
proof -
  let ?t = "s\<lparr>conn := c, split_recv := Some buf\<rparr>"
  obtain fs m k where buf: "buf = \<lparr>rb_addr = brk (conn s), rb_len = split_headroom s * msg_size s,
      rb_lkey = k, rb_rkey = k\<rparr>"
    and c: "c = (conn s)\<lparr>mem := m, brk := brk (conn s) + split_headroom s * msg_size s, reg_faults := fs,
      next_key := Suc (next_key (conn s)),
      regions := regions (conn s) @ [\<lparr>reg_addr = brk (conn s), reg_len = split_headroom s * msg_size s,
        reg_key = k, reg_access = {LocalWrite}\<rparr>]\<rparr>"
    using run
    by (cases rule: register_buffer_cases [of "split_headroom s * msg_size s" ACCESS_LOCAL_WRITE "conn s"])
       (auto simp: access_local)
  note inv = ok [unfolded world_ok_def write_ok_def queue_ok_def]
  note D = stream_okD [OF conjunct1 [OF conjunct1 [OF conjunct1 [OF inv]]]]
  show own: "recv_owned ?t = recv_owned s" by (simp add: recv_owned_def c)
  have slots: "recv_slots s = split_base s" "recv_slots ?t = split_base s + split_headroom s"
    by (simp_all add: recv_slots_def none)
  have wr: "slot_wr ?t i = slot_wr s i" if "i < split_base s" for i
    using that by (simp add: slot_wr_def slot_buf_def slot_off_def)
  have sq: "sq_entry_ok ?t = sq_entry_ok s"
    by (auto simp: fun_eq_iff sq_entry_ok_def send_wr_of_def send_addr_def)
  have sub: "mset [0..<split_base s] \<subseteq># mset [0..<recv_slots ?t]"
    unfolding slots by (simp add: upt_add_eq_append [of 0, simplified])
  have "recv_owned ?t \<subseteq># mset [0..<recv_slots ?t]"
    using subset_mset.order_trans [OF _ sub] D(2) by (simp add: own slots(1))
  moreover have "rq c = rq (conn s)" by (simp add: c)
  then have "recv_posted_ok ?t"
    using D(5) wr by (auto simp: recv_posted_ok_def list_all_iff slots)
  moreover have "geometry ?t" using D(1) none by (simp add: geometry_def buf)
  moreover have "send_owned ?t = send_owned s" "ctrl_in_flight ?t = ctrl_in_flight s"
    "cq (conn ?t) = cq (conn s)" "sq (conn ?t) = sq (conn s)"
    by (simp_all add: owned_defs c)
  ultimately have "stream_ok ?t"
    using D none by (simp add: stream_ok_def sq)
  moreover have "accounted ?t"
    using inv accounted_ledger [of ?t s] by (simp add: ledger_def write_ids_def send_ids_def c)
  moreover have "layout_ok ?t"
    using inv none
    by (auto simp: layout_ok_def heap_ok_def below_brk_def pool_buffers_def span_disjoint_def buf c
        list_all_iff)
  moreover have "heap_ok ?t"
    using inv none by (auto simp: heap_ok_def below_brk_def pool_buffers_def buf c list_all_iff)
  ultimately show "world_ok ?t" by (simp add: world_ok_def write_ok_def queue_ok_def)
qed

lemma post_split_recvs_world:
  assumes ok: "world_ok s" and none: "split_recv s = None" "rx_ready s = []"
    and run: "post_split_recvs s = (Inr u, s')"
  shows "world_ok s'"
proof -
  from run obtain buf t where reg: "on_conn (register_buffer (split_headroom s * msg_size s) ACCESS_LOCAL_WRITE) s = (Inr buf, t)"
    and post: "post_recv_slots [split_base t..<split_base t + split_headroom t] (t\<lparr>split_recv := Some buf\<rparr>) = (Inr u, s')"
    unfolding post_split_recvs_def by (rule and_then_InrD)
  then obtain c where rb: "register_buffer (split_headroom s * msg_size s) ACCESS_LOCAL_WRITE (conn s) = (Inr buf, c)"
    and t: "t = s\<lparr>conn := c\<rparr>"
    by (auto simp: on_conn_def split: prod.splits)
  let ?t = "s\<lparr>conn := c, split_recv := Some buf\<rparr>"
  note W = split_buffer_world [OF ok none rb]
  have "recv_owned s \<subseteq># mset [0..<split_base s]"
    using stream_okD(2) ok none by (fastforce simp: world_ok_def write_ok_def queue_ok_def recv_slots_def)
  then have "mset [split_base s..<split_base s + split_headroom s] + recv_owned ?t
      \<subseteq># mset [0..<recv_slots ?t]"
    by (simp add: W(2) recv_slots_def upt_add_eq_append [of 0, simplified] add.commute)
  then show ?thesis using post_recv_slots_world [OF W(1) _ post [unfolded t, simplified]] by simp
qed

lemma u16_le_u32: "unat (w :: u16) \<le> u32_max"
  using unsigned_less [where 'a = nat and w = w] by (simp add: u32_max_def)

lemma apply_peer_world:
  assumes ok: "setup_ok s" and got: "hs_got_recv s" "hs_got_send s"
    and run: "apply_peer now peer s = (Inr u, s')"
  shows "world_ok s'"
proof -
  define eff where "eff = min (msg_size s) (unat (hs_max_message_size peer))"
  define s1 where "s1 = s\<lparr>payload_cap := eff - ENVELOPE_LEN,
    send_credits := unat (hs_max_recv_buffers peer), zero_copy := (zero_copy s \<and> zero_copy_capable peer)\<rparr>"
  define s2 where "s2 = s1\<lparr>split_mode := negotiate_split (split_mode s1) (zero_copy s1) peer,
    peer_split_credits := unat (hs_split_credits peer)\<rparr>"
  have eff: "\<not> eff \<le> ENVELOPE_LEN"
    using run by (auto simp: apply_peer_def eff_def Let_def split: if_splits)
  have "world_ok (s\<lparr>payload_cap := eff - ENVELOPE_LEN, send_credits := unat (hs_max_recv_buffers peer)\<rparr>)"
    using eff by (intro setup_done [OF ok got] u16_le_u32) (auto simp: eff_def)
  moreover have "world_ok s2 = world_ok
      (s\<lparr>payload_cap := eff - ENVELOPE_LEN, send_credits := unat (hs_max_recv_buffers peer)\<rparr>)"
    by (rule world_ok_cong) (simp_all add: s2_def s1_def statics_def live_def)
  ultimately have w2: "world_ok s2" by simp
  have idle: "split_recv s2 = None" "rx_ready s2 = []"
    using ok by (simp_all add: s2_def s1_def setup_ok_def setup_idle_def)
  from run eff have "and_then (if split_mode s2 \<and> split_headroom s2 > 0 then post_split_recvs s2
        else (Inr (), s2)) (\<lambda>_ s3. let p = set_cm_nonblock (conn s3)
        in (Inr (), s3\<lparr>conn := snd p, cm_watch := (\<not> isl (fst p)),
              peer_addr := id_peer_addr (snd p), established_at := now\<rparr>)) = (Inr u, s')"
    by (simp only: apply_peer_def Let_def eff_def [symmetric] s1_def [symmetric] s2_def [symmetric]
        if_False)
  then obtain s3 where r: "(if split_mode s2 \<and> split_headroom s2 > 0 then post_split_recvs s2
        else (Inr (), s2)) = (Inr (), s3)"
    and s': "s' = s3\<lparr>conn := snd (set_cm_nonblock (conn s3)),
        cm_watch := (\<not> isl (fst (set_cm_nonblock (conn s3)))),
        peer_addr := id_peer_addr (snd (set_cm_nonblock (conn s3))), established_at := now\<rparr>"
    by (rule and_then_InrD) (simp add: Let_def)
  have "world_ok s3"
    using r w2 post_split_recvs_world [OF w2 idle] by (auto split: if_splits)
  moreover have "core (snd (set_cm_nonblock (conn s3))) = core (conn s3)"
    by (simp add: set_cm_nonblock_def cm_call_def core_def split: prod.split)
  then have "world_ok s' = world_ok s3"
    unfolding s' by (intro world_ok_cong) (simp_all add: statics_def live_def)
  ultimately show ?thesis by simp
qed

section \<open>Construction\<close>

lemma post_recv_slots_setup:
  "setup_ok s \<Longrightarrow> mset slots + image_mset slot_of (filter_mset recv_lane (recv_ids s)) \<subseteq># mset [0..<split_base s]
     \<Longrightarrow> post_recv_slots slots s = (Inr u, s') \<Longrightarrow>
     setup_ok s' \<and> sq (conn s') = sq (conn s) \<and> cq (conn s') = cq (conn s)
     \<and> hs_got_send s' = hs_got_send s \<and> hs_got_recv s' = hs_got_recv s"
proof (induction slots arbitrary: s)
  case (Cons slot slots)
  from Cons.prems(3) obtain t where t: "post_recv_slot slot s = (Inr (), t)"
    and rest: "post_recv_slots slots t = (Inr u, s')"
    by (auto elim: and_then_InrD)
  have sub: "add_mset slot {#} \<subseteq># mset [0..<split_base s]"
    by (rule subset_mset.order_trans [OF _ Cons.prems(2)]) simp
  have less: "slot < split_base s" using in_owned_less [OF _ sub] by simp
  then have "slot < slot_bound"
    using Cons.prems(1) by (auto simp: setup_ok_def geometry_def)
  note L = wr_id_simps [OF this]
  have lane: "recv_lane (recv_wr_id slot)" using L by (simp add: recv_lane_def)
  obtain fs where tt: "t = s\<lparr>conn := (conn s)\<lparr>post_faults := fs, rq := rq (conn s) @ [slot_wr s slot]\<rparr>\<rparr>"
    using t by (cases rule: post_recv_slot_cases [of slot s]) auto
  have wr: "slot_wr t = slot_wr s" "layout_ok t = layout_ok s"
    unfolding tt by (simp, rule layout_ok_cong) simp_all
  have ids: "recv_ids t = add_mset (recv_wr_id slot) (recv_ids s)" "send_ids t = send_ids s"
    by (simp_all add: recv_ids_def send_ids_def tt)
  have "recv_wr_id slot \<noteq> HS_RECV_WR_ID" using lane hs_ids(4) by metis
  then have "setup_ok t"
    using Cons.prems(1,2) less lane L wr
    by (simp add: setup_ok_def ids)
       (auto simp: tt setup_idle_def setup_rq_ok_def setup_cq_ok_def heap_ok_def pool_buffers_def
        below_brk_def geometry_def intro: subset_mset.order_trans [rotated])
  moreover have "mset slots + image_mset slot_of (filter_mset recv_lane (recv_ids t))
      \<subseteq># mset [0..<split_base t]"
    using Cons.prems(2) lane L by (simp add: ids) (simp add: tt)
  ultimately show ?case using Cons.IH [OF _ _ rest] by (simp add: tt)
qed simp

lemma post_handshake_recv_setup:
  assumes ok: "setup_ok s" and un: "unsent s" and rq: "rq (conn s) = []"
    and run: "post_handshake_recv s = (Inr u, t)"
  shows "setup_ok t" "unsent t" "filter_mset recv_lane (recv_ids t) = {#}" "split_base t = split_base s"
proof -
  define wr where "wr = \<lparr>rw_id = HS_RECV_WR_ID, rw_addr = rb_addr (hs_buf s), rw_len = HANDSHAKE_LEN,
    rw_lkey = rb_lkey (hs_buf s)\<rparr>"
  obtain fs where t: "t = s\<lparr>conn := (conn s)\<lparr>post_faults := fs, rq := [wr]\<rparr>\<rparr>"
    using run rq
    by (cases rule: post_recv_cases [of HS_RECV_WR_ID "rb_addr (hs_buf s)" HANDSHAKE_LEN
          "rb_lkey (hs_buf s)" "conn s"])
       (auto simp: post_handshake_recv_def on_conn_eq wr_def)
  have lay: "layout_ok t = layout_ok s" unfolding t by (rule layout_ok_cong) simp_all
  show "unsent t" "split_base t = split_base s" using un by (simp_all add: t unsent_def)
  show "filter_mset recv_lane (recv_ids t) = {#}"
    using un by (simp add: t recv_ids_def unsent_def wr_def hs_ids)
  show "setup_ok t"
    using ok un rq lay
    by (simp add: setup_ok_def)
       (auto simp: t wr_def unsent_def setup_idle_def setup_rq_ok_def setup_cq_ok_def recv_ids_def
        send_ids_def heap_ok_def below_brk_def pool_buffers_def geometry_def hs_ids)
qed

lemma register_local:
  assumes "register_buffer len ACCESS_LOCAL_WRITE c = (Inr b, c')"
  shows "rb_addr b = brk c" "rb_len b = len" "brk c' = brk c + len" "sq c' = sq c" "rq c' = rq c"
    "cq c' = cq c" "\<exists>k. regions c' = regions c @
       [\<lparr>reg_addr = brk c, reg_len = len, reg_key = k, reg_access = {LocalWrite}\<rparr>]"
  using assms
  by (cases rule: register_buffer_cases [of len ACCESS_LOCAL_WRITE c]; auto simp: access_local)+

lemma register_below_brk:
  assumes "register_buffer len ACCESS_LOCAL_WRITE c = (Inr b, c')" and "below_brk c"
  shows "below_brk c'"
proof -
  have "reg_addr r + reg_len r \<le> brk c + len" if "r \<in> set (regions c)" for r
    using assms(2) that by (force simp: below_brk_def list_all_iff intro: trans_le_add1)
  then show ?thesis using register_local [OF assms(1)] by (auto simp: below_brk_def list_all_iff)
qed

lemma new_common_setup:
  assumes fresh: "fresh_conn c" and cfg: "config_ok cfg" and run: "new_common c cfg = Inr s'"
  shows "setup_ok s' \<and> unsent s'"
proof -
  let ?msz = "max_message_size cfg" and ?base = "recv_base_count cfg" and ?pool = "send_pool_size cfg"
  define s where "s c3 rbuf sbuf hbuf = \<lparr>conn = c3, recv = rbuf, split_recv = None, send = sbuf,
     hs_buf = hbuf, msg_size = ?msz, payload_cap = 0, recv_pool = recv_pool_size cfg, split_base = ?base,
     split_headroom = split_slack cfg, send_pool = ?pool, send_free = rev [0..<?pool], send_credits = 0,
     grant_pending = 0, ctrl_slot = ?pool, ctrl_send_busy = False, tx_stage = [], rx_ready = [],
     peer_closed = False, cm_watch = False, peer_addr = None, established_at = 0,
     zero_copy = cfg_zero_copy cfg, writes_outstanding = 0, split_mode = cfg_split_mode cfg,
     completed_transfers = [], peer_split_credits = 0, imm_outstanding = 0, hs_got_send = False,
     hs_got_recv = False, hs_recv_len = 0\<rparr>" for c3 rbuf sbuf hbuf
  have msz: "ENVELOPE_LEN < ?msz" using run by (rule contrapos_pp) (simp add: new_common_def)
  have stage: "\<exists>b c'. p = (Inr b, c')" if "(case p of (Inl e, _) \<Rightarrow> Inl e | (Inr b, c') \<Rightarrow> f b c') = Inr y"
    for p :: "registered_buffer res \<times> connection" and f and y :: hord_stream
    using that by (cases p; cases "fst p") auto
  note run1 = run [unfolded new_common_def Let_def if_not_P [OF not_not [THEN iffD2, OF msz]]]
  obtain rbuf c1 where r1: "register_buffer (?base * ?msz) ACCESS_LOCAL_WRITE c = (Inr rbuf, c1)"
    using stage [OF run1] by blast
  note run2 = run1 [unfolded r1 prod.case sum.case]
  obtain sbuf c2 where r2: "register_buffer ((?pool + CTRL_SEND_SLOTS) * ?msz) ACCESS_LOCAL_WRITE c1 = (Inr sbuf, c2)"
    using stage [OF run2] by blast
  note run3 = run2 [unfolded r2 prod.case sum.case]
  obtain hbuf c3 where r3: "register_buffer (2 * HANDSHAKE_LEN) ACCESS_LOCAL_WRITE c2 = (Inr hbuf, c3)"
    using stage [OF run3] by blast
  note run4 = run3 [unfolded r3 prod.case sum.case, folded s_def]
  have post: "and_then (post_handshake_recv (s c3 rbuf sbuf hbuf)) (\<lambda>_. post_all_recvs) = (Inr (), s')"
    using run4 by (auto split: prod.splits sum.splits)
  define s0 where "s0 = s c3 rbuf sbuf hbuf"
  note R1 = register_local [OF r1] and R2 = register_local [OF r2] and R3 = register_local [OF r3]
  have q: "sq c3 = []" "rq c3 = []" "cq c3 = []" "brk c3 = brk c + ?base * ?msz + (?pool + CTRL_SEND_SLOTS) * ?msz
      + 2 * HANDSHAKE_LEN"
    using fresh R1 R2 R3 by (simp_all add: fresh_conn_def)
  have bufs: "rb_addr rbuf = brk c" "rb_len rbuf = ?base * ?msz" "rb_addr sbuf = brk c + ?base * ?msz"
    "rb_len sbuf = (?pool + CTRL_SEND_SLOTS) * ?msz"
    using R1 R2 by simp_all
  have regs: "list_all (\<lambda>r. reg_addr r + reg_len r \<le> brk c \<or> reg_access r = {LocalWrite}) (regions c3)"
    "below_brk c3"
    using fresh R1(7) R2(7) R3(7) register_below_brk [OF r3] register_below_brk [OF r2]
      register_below_brk [OF r1]
    by (auto simp: fresh_conn_def list_all_iff below_brk_def [of c])
  have "layout_ok s0"
    using regs(1) bufs
    by (auto simp: layout_ok_def s0_def s_def pool_buffers_def span_disjoint_def list_all_iff)
  moreover have "heap_ok s0"
    using regs(2) bufs q by (auto simp: heap_ok_def s0_def s_def pool_buffers_def)
  moreover have "u32_max < slot_bound" by (simp add: u32_max_def slot_bound_def)
  ultimately have ok: "setup_ok s0" and un: "unsent s0" and rq: "rq (conn s0) = []"
    using cfg msz bufs q
    by (auto simp: setup_ok_def unsent_def s0_def s_def config_ok_def setup_idle_def setup_rq_ok_def
        setup_cq_ok_def recv_ids_def send_ids_def geometry_def recv_wr_count_def ENVELOPE_LEN_def)
  from post obtain t where hr: "post_handshake_recv s0 = (Inr (), t)"
    and all: "post_recv_slots [0..<split_base t] t = (Inr (), s')"
    unfolding s0_def [symmetric] post_all_recvs_def by (auto elim: and_then_InrD)
  note T = post_handshake_recv_setup [OF ok un rq hr]
  show ?thesis
    using post_recv_slots_setup [OF T(1) _ all] T(2,3) by (simp add: unsent_def)
qed

section \<open>Establishment leaves the queues alone\<close>

lemma core_then:
  "core (snd r) = k \<Longrightarrow> (\<And>a c. core c = k \<Longrightarrow> core (snd (f a c)) = k) \<Longrightarrow> core (snd (and_then r f)) = k"
  by (simp add: snd_and_then split: sum.split)

lemma core_cm_call [simp]: "core (snd (cm_call c)) = core c"
  by (simp add: cm_call_def core_def split: prod.split)

lemma core_try_wait_event [simp]: "core (snd (try_wait_event want c)) = core c"
  by (simp add: try_wait_event_def get_cm_event_def core_def split: list.split cm_poll.split)

lemma core_poll_readable [simp]: "core (snd (poll_readable n c)) = core c"
  by (simp add: poll_readable_def Let_def core_def)

lemma core_wait_event_loop [simp]: "core (snd (wait_event_loop want n c)) = core c"
proof (induction want n c rule: wait_event_loop.induct)
  case (1 want n c)
  show ?case
  proof (cases "fst (try_wait_event want c)")
    case (Inr got)
    show ?thesis
    proof (cases "got \<or> n = 0")
      case True
      with Inr show ?thesis by (subst wait_event_loop.simps) (auto simp: Let_def split: bool.split)
    next
      case False
      then have f: "fst (try_wait_event want c) = Inr False" "n \<noteq> 0" using Inr by auto
      show ?thesis
      proof (cases "fst (poll_readable n (snd (try_wait_event want c)))")
        case (Inr d)
        from 1 [OF refl refl f(1) refl f(2) refl Inr] show ?thesis
          using f Inr by (subst wait_event_loop.simps) (simp add: Let_def)
      qed (subst wait_event_loop.simps, use f in \<open>simp add: Let_def\<close>)
    qed
  qed (subst wait_event_loop.simps, simp add: Let_def)
qed

lemma core_wait_event [simp]: "core (snd (wait_event want n c)) = core c"
  by (simp add: wait_event_def core_then)

lemma core_modify_qp [simp]: "core (snd (modify_qp st c)) = core c"
proof -
  have "core (snd (with_qp (\<lambda>c. and_then (cm_call c) (\<lambda>_ c. (Inr (), c\<lparr>qp := Some st\<rparr>))) d)) = core d" for d
    by (auto simp: with_qp_def snd_and_then core_def [of "_\<lparr>qp := _\<rparr>"] split: option.split sum.split)
       (simp add: core_def [symmetric])
  then show ?thesis unfolding modify_qp_def by (intro core_then) auto
qed

lemma core_with_qp [simp]: "core (snd (with_qp (\<lambda>c. (Inr (), c)) c)) = core c"
  by (simp add: with_qp_def split: option.split)

lemma core_accept_establish_begin [simp]: "core (snd (accept_establish_begin c)) = core c"
  unfolding accept_establish_begin_def by (intro core_then) simp_all

lemma core_accept_finish [simp]: "core (snd (accept_finish c)) = core c"
  unfolding accept_finish_def by (intro core_then) simp_all

lemma core_connect_finish [simp]: "core (snd (connect_finish c)) = core c"
  unfolding connect_finish_def by (intro core_then) simp_all

lemma core_endpoint_build [simp]: "core (snd (endpoint_build c)) = core c"
  unfolding endpoint_build_def
  by (intro core_then) (simp_all add: core_def [of "_\<lparr>qp := _, max_send_sge := _\<rparr>"], simp add: core_def)

lemma core_connection_connect [simp]: "core (snd (connection_connect addr_ok p c)) = core c"
proof -
  have "core (snd (endpoint_build (d\<lparr>role := Client, disconnected := False\<rparr>))) = core d" for d
    by simp (simp add: core_def)
  then show ?thesis unfolding connection_connect_def by (auto intro!: core_then)
qed

lemma on_conn_setup:
  assumes "\<And>c. core (snd (f c)) = core c" and "on_conn f s = (Inr u, t)" and "setup_ok s" and "unsent s"
  shows "setup_ok t" "unsent t"
proof -
  have t: "t = s\<lparr>conn := snd (f (conn s))\<rparr>" using assms(2) by (simp add: on_conn_eq)
  show "setup_ok t" using assms(1,3) by (simp add: t setup_ok_core)
  show "unsent t" using assms(1) [of "conn s"] assms(4) by (simp add: t unsent_def core_def)
qed

lemma handshake_world:
  assumes "setup_ok s" and "unsent s" and "and_then (exchange_handshake budget cfg s)
      (\<lambda>peer. apply_peer now peer) = (Inr u, s')"
  shows "world_ok s'"
proof -
  from assms(3) obtain peer t where ex: "exchange_handshake budget cfg s = (Inr peer, t)"
    and ap: "apply_peer now peer t = (Inr u, s')" by (rule and_then_InrD)
  from ex obtain v r where bs: "begin_handshake_send cfg s = (Inr v, r)"
    and lo: "exchange_loop budget r = (Inr peer, t)"
    unfolding exchange_handshake_def by (rule and_then_InrD)
  have "setup_ok t \<and> hs_got_recv t \<and> hs_got_send t"
    by (rule exchange_loop_setup [OF begin_handshake_send_setup [OF assms(1,2) bs] lo])
  then show ?thesis using apply_peer_world [OF _ _ _ ap] by blast
qed

lemma from_accepted_world:
  assumes "fresh_conn c" and "config_ok cfg" and "from_accepted budget now c cfg = Inr s'"
  shows "world_ok s'"
proof -
  obtain s where nc: "new_common c cfg = Inr s"
    using assms(3) by (cases "new_common c cfg") (auto simp: from_accepted_def)
  note S = new_common_setup [OF assms(1,2) nc]
  obtain u where "and_then (on_conn accept_finish s) (\<lambda>_ s.
      and_then (exchange_handshake budget cfg s) (\<lambda>peer. apply_peer now peer)) = (Inr u, s')"
    using assms(3) by (auto simp: from_accepted_def nc split: prod.splits sum.splits)
  then obtain v t where af: "on_conn accept_finish s = (Inr v, t)"
    and hs: "and_then (exchange_handshake budget cfg t) (\<lambda>peer. apply_peer now peer) = (Inr u, s')"
    by (rule and_then_InrD)
  note T = on_conn_setup [OF core_accept_finish af conjunct1 [OF S] conjunct2 [OF S]]
  show ?thesis by (rule handshake_world [OF T hs])
qed

lemma hord_connect_world:
  assumes "fresh_conn c" and "config_ok cfg" and "hord_connect budget now addr_ok c cfg = Inr s'"
  shows "world_ok s'"
proof -
  obtain c1 where cc: "connection_connect addr_ok (cfg_cm cfg) c = (Inr (), c1)"
    using assms(3) by (cases "connection_connect addr_ok (cfg_cm cfg) c"; cases "fst (connection_connect addr_ok (cfg_cm cfg) c)")
      (auto simp: hord_connect_def)
  obtain s where nc: "new_common c1 cfg = Inr s"
    using assms(3) cc by (cases "new_common c1 cfg") (auto simp: hord_connect_def)
  have "fresh_conn c1"
    using assms(1) core_connection_connect [of addr_ok "cfg_cm cfg" c] cc
    by (simp add: fresh_conn_def below_brk_def core_def)
  note S = new_common_setup [OF this assms(2) nc]
  obtain u where "and_then (on_conn connect_finish s) (\<lambda>_ s.
      and_then (exchange_handshake budget cfg s) (\<lambda>peer. apply_peer now peer)) = (Inr u, s')"
    using assms(3) by (auto simp: hord_connect_def cc nc split: prod.splits sum.splits)
  then obtain v t where cf: "on_conn connect_finish s = (Inr v, t)"
    and hs: "and_then (exchange_handshake budget cfg t) (\<lambda>peer. apply_peer now peer) = (Inr u, s')"
    by (rule and_then_InrD)
  note T = on_conn_setup [OF core_connect_finish cf conjunct1 [OF S] conjunct2 [OF S]]
  show ?thesis by (rule handshake_world [OF T hs])
qed

end
