(* ===== verification/Rust_Text.thy ===== *)
theory Rust_Text
  imports Hord_Prelude
begin

text \<open>
  The parts of Rust's \<open>str\<close> and integer formatting the header codecs use: \<open>trim\<close>, \<open>split\<close>,
  \<open>split_once\<close>, \<open>strip_prefix\<close>, \<open>from_str_radix\<close> / \<open>parse\<close> on unsigned integers, and the
  \<open>{}\<close> and \<open>{:x}\<close> formats. A string is a list of characters of code at most 255; header text
  is ASCII, and white space is the Unicode set restricted to those codes.
\<close>

section \<open>Slicing\<close>

definition is_whitespace :: "char \<Rightarrow> bool" where
  "is_whitespace c \<longleftrightarrow>
     (let n = of_char c :: nat in 9 \<le> n \<and> n \<le> 13 \<or> n = 32 \<or> n = 133 \<or> n = 160)"

definition trim :: "string \<Rightarrow> string" where
  "trim s = rev (dropWhile is_whitespace (rev (dropWhile is_whitespace s)))"

fun split_on :: "'a \<Rightarrow> 'a list \<Rightarrow> 'a list list" where
  "split_on sep [] = [[]]"
| "split_on sep (c # cs) =
     (if c = sep then [] # split_on sep cs
      else case split_on sep cs of [] \<Rightarrow> [[c]] | p # ps \<Rightarrow> (c # p) # ps)"

fun split_once :: "'a \<Rightarrow> 'a list \<Rightarrow> ('a list \<times> 'a list) option" where
  "split_once sep [] = None"
| "split_once sep (c # cs) =
     (if c = sep then Some ([], cs)
      else case split_once sep cs of None \<Rightarrow> None | Some (a, b) \<Rightarrow> Some (c # a, b))"

fun strip_prefix :: "'a list \<Rightarrow> 'a list \<Rightarrow> 'a list option" where
  "strip_prefix [] s = Some s"
| "strip_prefix (p # ps) [] = None"
| "strip_prefix (p # ps) (c # cs) = (if p = c then strip_prefix ps cs else None)"

lemma trim_id:
  assumes "s \<noteq> []" and "\<not> is_whitespace (hd s)" and "\<not> is_whitespace (last s)"
  shows "trim s = s"
proof -
  have "dropWhile is_whitespace s = s" using assms by (cases s) auto
  moreover have "dropWhile is_whitespace (rev s) = rev s"
    using assms by (cases s rule: rev_cases) auto
  ultimately show ?thesis by (simp add: trim_def)
qed

lemma trim_Nil [simp]: "trim [] = []"
  by (simp add: trim_def)

lemma split_on_no_sep: "sep \<notin> set s \<Longrightarrow> split_on sep s = [s]"
  by (induction s) auto

lemma split_on_append: "sep \<notin> set a \<Longrightarrow> split_on sep (a @ sep # b) = a # split_on sep b"
  by (induction a) auto

lemma split_once_append: "sep \<notin> set a \<Longrightarrow> split_once sep (a @ sep # b) = Some (a, b)"
  by (induction a) auto

lemma split_once_None: "split_once sep s = None \<longleftrightarrow> sep \<notin> set s"
  by (induction s) (auto split: option.splits)

lemma strip_prefix_append [simp]: "strip_prefix p (p @ s) = Some s"
  by (induction p) auto

section \<open>Unsigned integers\<close>

definition digit_val :: "nat \<Rightarrow> char \<Rightarrow> nat option" where
  "digit_val radix c =
     (let n = of_char c :: nat;
          v = (if 48 \<le> n \<and> n \<le> 57 then n - 48
               else if 97 \<le> n \<and> n \<le> 122 then n - 87
               else if 65 \<le> n \<and> n \<le> 90 then n - 55 else 36)
      in if v < radix then Some v else None)"

text \<open>The digit loop with its checked multiplication and addition.\<close>

fun parse_digits :: "nat \<Rightarrow> nat \<Rightarrow> nat \<Rightarrow> string \<Rightarrow> nat option" where
  "parse_digits radix mx acc [] = Some acc"
| "parse_digits radix mx acc (c # cs) =
     (case digit_val radix c of
        None \<Rightarrow> None
      | Some d \<Rightarrow>
          if acc * radix > mx then None
          else if acc * radix + d > mx then None
          else parse_digits radix mx (acc * radix + d) cs)"

text \<open>\<open>from_str_radix\<close> on an unsigned type: an empty string or a lone sign is an error, one
  leading plus sign is accepted.\<close>

definition from_str_radix :: "nat \<Rightarrow> nat \<Rightarrow> string \<Rightarrow> nat option" where
  "from_str_radix radix mx s =
     (case s of
        [] \<Rightarrow> None
      | c # cs \<Rightarrow>
          if c = CHR ''+'' then (if cs = [] then None else parse_digits radix mx 0 cs)
          else parse_digits radix mx 0 s)"

definition digit_char :: "nat \<Rightarrow> char" where
  "digit_char d = (if d < 10 then char_of (48 + d) else char_of (87 + d))"

fun show_radix :: "nat \<Rightarrow> nat \<Rightarrow> string" where
  "show_radix radix n =
     (if n < radix \<or> radix < 2 then [digit_char n]
      else show_radix radix (n div radix) @ [digit_char (n mod radix)])"

declare show_radix.simps [simp del]

lemma of_char_digit_char [simp]:
  "d < 16 \<Longrightarrow> of_char (digit_char d) = (if d < 10 then 48 + d else 87 + d :: nat)"
  by (simp add: digit_char_def)

lemma digit_val_char: "d < radix \<Longrightarrow> radix \<le> 16 \<Longrightarrow> digit_val radix (digit_char d) = Some d"
  by (auto simp: digit_val_def Let_def)

lemma show_radix_nonempty [simp]: "show_radix radix n \<noteq> []"
  by (subst show_radix.simps) simp

lemma show_radix_digits:
  "2 \<le> radix \<Longrightarrow> c \<in> set (show_radix radix n) \<Longrightarrow> \<exists>d < radix. c = digit_char d"
proof (induction radix n rule: show_radix.induct)
  case (1 radix n)
  show ?case
  proof (cases "n < radix")
    case True
    then show ?thesis using 1(3) by (subst (asm) show_radix.simps) auto
  next
    case False
    then have "c \<in> set (show_radix radix (n div radix)) \<or> c = digit_char (n mod radix)"
      using 1(2,3) by (subst (asm) show_radix.simps) auto
    moreover have "n mod radix < radix" using 1(2) by simp
    moreover have "\<not> (n < radix \<or> radix < 2)" using False 1(2) by simp
    ultimately show ?thesis using 1(1) [OF _ 1(2)] by blast
  qed
qed

lemma parse_digits_append:
  "parse_digits radix mx acc (xs @ ys) =
     (case parse_digits radix mx acc xs of None \<Rightarrow> None | Some a \<Rightarrow> parse_digits radix mx a ys)"
  by (induction xs arbitrary: acc) (auto split: option.split)

lemma parse_show_radix:
  "2 \<le> radix \<Longrightarrow> radix \<le> 16 \<Longrightarrow> n \<le> mx \<Longrightarrow> parse_digits radix mx 0 (show_radix radix n) = Some n"
proof (induction radix n rule: show_radix.induct)
  case (1 radix n)
  show ?case
  proof (cases "n < radix")
    case True
    with 1 show ?thesis by (subst show_radix.simps) (simp add: digit_val_char)
  next
    case False
    have le: "n div radix * radix \<le> mx" "n div radix \<le> mx"
      using div_times_less_eq_dividend [of n radix] div_le_dividend [of n radix] 1(4) by linarith+
    have "parse_digits radix mx 0 (show_radix radix (n div radix)) = Some (n div radix)"
      using 1 False le(2) by simp
    moreover have "digit_val radix (digit_char (n mod radix)) = Some (n mod radix)"
      using 1(2,3) by (intro digit_val_char) simp_all
    ultimately show ?thesis
      using 1(2,4) False le(1) by (subst show_radix.simps) (simp add: parse_digits_append not_less)
  qed
qed

lemma digit_char_plain:
  assumes "d < 16"
  shows "\<not> is_whitespace (digit_char d)" "digit_char d \<noteq> CHR ''+''" "digit_char d \<noteq> CHR '';''"
    "digit_char d \<noteq> CHR ''=''" "digit_char d \<noteq> CHR ''-''" "digit_char d \<noteq> CHR ''/''"
    "digit_char d \<noteq> CHR '','' " "digit_char d \<noteq> CHR ''*''"
proof -
  have ne: "digit_char d \<noteq> c" if "of_char c < (48 :: nat) \<or> 57 < (of_char c :: nat) \<and> of_char c < (97 :: nat)" for c
  proof
    assume "digit_char d = c"
    then have "of_char c = (if d < 10 then 48 + d else 87 + d :: nat)" using assms by auto
    with that show False by (simp split: if_splits)
  qed
  show "\<not> is_whitespace (digit_char d)" using assms by (simp add: is_whitespace_def Let_def)
  show "digit_char d \<noteq> CHR ''+''" "digit_char d \<noteq> CHR '';''"
    "digit_char d \<noteq> CHR ''=''" "digit_char d \<noteq> CHR ''-''" "digit_char d \<noteq> CHR ''/''"
    "digit_char d \<noteq> CHR '','' " "digit_char d \<noteq> CHR ''*''"
    by (rule ne; simp)+
qed

lemma from_str_show:
  assumes "2 \<le> radix" "radix \<le> 16" "n \<le> mx"
  shows "from_str_radix radix mx (show_radix radix n) = Some n"
proof -
  obtain c cs where s: "show_radix radix n = c # cs" by (cases "show_radix radix n") auto
  then obtain d where "d < radix" "c = digit_char d"
    using show_radix_digits [OF assms(1), of c n] by auto
  then have "c \<noteq> CHR ''+''" using digit_char_plain(2) [of d] assms(2) by simp
  then show ?thesis using parse_show_radix [OF assms] by (simp add: from_str_radix_def s)
qed

text \<open>What is printed has no separator and no white space in it.\<close>

lemma show_radix_plain:
  assumes "2 \<le> radix" "radix \<le> 16" "c \<in> set (show_radix radix n)"
  shows "\<not> is_whitespace c" "c \<noteq> CHR '';''" "c \<noteq> CHR ''=''" "c \<noteq> CHR ''-''" "c \<noteq> CHR ''/''"
    "c \<noteq> CHR '','' " "c \<noteq> CHR ''*''"
proof -
  obtain d where "d < radix" "c = digit_char d" using show_radix_digits assms(1,3) by blast
  with assms(2) digit_char_plain [of d]
  show "\<not> is_whitespace c" "c \<noteq> CHR '';''" "c \<noteq> CHR ''=''" "c \<noteq> CHR ''-''" "c \<noteq> CHR ''/''"
    "c \<noteq> CHR '','' " "c \<noteq> CHR ''*''" by auto
qed

end
