(* ===== verification/Header_Codec.thy ===== *)
theory Header_Codec
  imports Rust_Text
begin

text \<open>
  The \<open>X-HORD-RDMA-Write\<close> header codec and the server policy, \<open>hord-zerocopy/src/lib.rs\<close>:
  request and response header values with their parsers and printers, and the decision how
  a body is delivered.
\<close>

section \<open>The contract of a header codec\<close>

locale header_codec =
  fixes show_header :: "'a \<Rightarrow> string"
    and parse_header :: "string \<Rightarrow> 'a option"
    and valid :: "'a \<Rightarrow> bool"
  assumes parse_show: "valid x \<Longrightarrow> parse_header (show_header x) = Some x"
begin

lemma show_inj: "valid x \<Longrightarrow> valid y \<Longrightarrow> show_header x = show_header y \<Longrightarrow> x = y"
  by (metis parse_show option.inject)

text \<open>Printing what was parsed gives a canonical form that parses to the same value.\<close>

lemma reprint: "parse_header v = Some x \<Longrightarrow> valid x \<Longrightarrow> parse_header (show_header x) = parse_header v"
  by (simp add: parse_show)

end

section \<open>The request header\<close>

definition HEADER :: string where "HEADER = ''X-HORD-RDMA-Write''"

record rdma_write_req =
  req_addr :: u64
  req_rkey :: u32
  req_len :: u64
  req_id :: "u32 option"

abbreviation u64_max :: nat where "u64_max \<equiv> 2 ^ 64 - 1"

text \<open>Strip \<open>0x\<close> or \<open>0X\<close> when present.\<close>

definition strip_hex :: "string \<Rightarrow> string" where
  "strip_hex s =
     (case strip_prefix ''0x'' s of
        Some t \<Rightarrow> t
      | None \<Rightarrow> (case strip_prefix ''0X'' s of Some t \<Rightarrow> t | None \<Rightarrow> s))"

definition parse_hex_u64 :: "string \<Rightarrow> u64 option" where
  "parse_hex_u64 s = map_option of_nat (from_str_radix 16 u64_max (strip_hex s))"

definition parse_hex_u32 :: "string \<Rightarrow> u32 option" where
  "parse_hex_u32 s = map_option of_nat (from_str_radix 16 u32_max (strip_hex s))"

definition parse_u64 :: "string \<Rightarrow> u64 option" where
  "parse_u64 s = map_option of_nat (from_str_radix 10 u64_max s)"

definition parse_u32 :: "string \<Rightarrow> u32 option" where
  "parse_u32 s = map_option of_nat (from_str_radix 10 u32_max s)"

record req_fields =
  rf_addr :: "u64 option"
  rf_rkey :: "u32 option"
  rf_len :: "u64 option"
  rf_id :: "u32 option"

text \<open>One \<open>key=value\<close> part: unknown keys are ignored, a malformed known value fails the parse.\<close>

definition req_field :: "string \<Rightarrow> string \<Rightarrow> req_fields \<Rightarrow> req_fields option" where
  "req_field k v f =
     (if k = ''addr'' then map_option (\<lambda>a. f\<lparr>rf_addr := Some a\<rparr>) (parse_hex_u64 v)
      else if k = ''rkey'' then map_option (\<lambda>r. f\<lparr>rf_rkey := Some r\<rparr>) (parse_hex_u32 v)
      else if k = ''len'' then map_option (\<lambda>n. f\<lparr>rf_len := Some n\<rparr>) (parse_u64 v)
      else if k = ''id'' then map_option (\<lambda>i. f\<lparr>rf_id := Some i\<rparr>) (parse_u32 v)
      else Some f)"

text \<open>The loop both header parsers share: split at semicolons, trim, skip empty parts.\<close>

fun parse_parts ::
  "(string \<Rightarrow> string \<Rightarrow> 'f \<Rightarrow> 'f option) \<Rightarrow> string list \<Rightarrow> 'f \<Rightarrow> 'f option" where
  "parse_parts field [] f = Some f"
| "parse_parts field (p # ps) f =
     (let part = trim p in
      if part = [] then parse_parts field ps f
      else case split_once (CHR ''='') part of
             None \<Rightarrow> None
           | Some (k, v) \<Rightarrow> (case field (trim k) (trim v) f of
                               None \<Rightarrow> None | Some f' \<Rightarrow> parse_parts field ps f'))"

definition parse_req :: "string \<Rightarrow> rdma_write_req option" where
  "parse_req value =
     (case parse_parts req_field (split_on (CHR '';'') value)
             \<lparr>rf_addr = None, rf_rkey = None, rf_len = None, rf_id = None\<rparr> of
        None \<Rightarrow> None
      | Some f \<Rightarrow>
          (case (rf_addr f, rf_rkey f, rf_len f) of
             (Some a, Some r, Some n) \<Rightarrow>
               Some \<lparr>req_addr = a, req_rkey = r, req_len = n, req_id = rf_id f\<rparr>
           | _ \<Rightarrow> None))"

definition req_header_value :: "rdma_write_req \<Rightarrow> string" where
  "req_header_value r =
     ''addr=0x'' @ show_radix 16 (unat (req_addr r)) @
     '';rkey=0x'' @ show_radix 16 (unat (req_rkey r)) @
     '';len='' @ show_radix 10 (unat (req_len r)) @
     (case req_id r of None \<Rightarrow> [] | Some i \<Rightarrow> '';id='' @ show_radix 10 (unat i))"

definition req_header_line :: "rdma_write_req \<Rightarrow> string" where
  "req_header_line r = HEADER @ '': '' @ req_header_value r"

section \<open>The response header\<close>

datatype rdma_write_status = Complete u64 | TooLarge u64 | Declined

record status_fields =
  sf_status :: "string option"
  sf_bytes_written :: "u64 option"
  sf_object_size :: "u64 option"

text \<open>Here a malformed number only leaves the field unset: \<open>.parse().ok()\<close> without \<open>?\<close>.\<close>

definition status_field :: "string \<Rightarrow> string \<Rightarrow> status_fields \<Rightarrow> status_fields option" where
  "status_field k v f =
     (if k = ''status'' then Some (f\<lparr>sf_status := Some v\<rparr>)
      else if k = ''bytes_written'' then Some (f\<lparr>sf_bytes_written := parse_u64 v\<rparr>)
      else if k = ''object_size'' then Some (f\<lparr>sf_object_size := parse_u64 v\<rparr>)
      else Some f)"

definition parse_status :: "string \<Rightarrow> rdma_write_status option" where
  "parse_status value =
     (case parse_parts status_field (split_on (CHR '';'') value)
             \<lparr>sf_status = None, sf_bytes_written = None, sf_object_size = None\<rparr> of
        None \<Rightarrow> None
      | Some f \<Rightarrow>
          (case sf_status f of
             None \<Rightarrow> None
           | Some st \<Rightarrow>
               if st = ''complete'' then map_option Complete (sf_bytes_written f)
               else if st = ''too_large'' then map_option TooLarge (sf_object_size f)
               else if st = ''declined'' then Some Declined
               else None))"

definition status_header_value :: "rdma_write_status \<Rightarrow> string" where
  "status_header_value st =
     (case st of
        Complete n \<Rightarrow> ''status=complete;bytes_written='' @ show_radix 10 (unat n)
      | TooLarge n \<Rightarrow> ''status=too_large;object_size='' @ show_radix 10 (unat n)
      | Declined \<Rightarrow> ''status=declined'')"

definition status_header_line :: "rdma_write_status \<Rightarrow> string" where
  "status_header_line st = HEADER @ '': '' @ status_header_value st"

section \<open>The server policy\<close>

datatype rdma_write_action =
    Respond rdma_write_status
  | WriteBody (payload_len: nat) (source_len: nat) (transfer_id: "u32 option")

text \<open>\<open>usize\<close> is 64 bits wide, so \<open>usize::try_from(object_size)\<close> succeeds.\<close>

definition decide :: "rdma_write_req \<Rightarrow> u64 \<Rightarrow> bool \<Rightarrow> rdma_write_action" where
  "decide req object_size split_negotiated =
     (if object_size > req_len req then Respond (TooLarge object_size)
      else
        let n = unat object_size;
            split_id = (if split_negotiated then req_id req else None)
        in case split_id of
             Some i \<Rightarrow> WriteBody n (max n 1) (Some i)
           | None \<Rightarrow> if n = 0 then Respond (Complete 0) else WriteBody n n None)"

section \<open>Round trips\<close>

lemma parse_parts_field:
  assumes "trim k = k" "trim v = v" "CHR ''='' \<notin> set k" "trim (k @ CHR ''='' # v) = k @ CHR ''='' # v"
  shows "parse_parts field ((k @ CHR ''='' # v) # ps) f =
    (case field k v f of None \<Rightarrow> None | Some f' \<Rightarrow> parse_parts field ps f')"
  using assms by (simp add: split_once_append)

lemma trim_plain:
  assumes "s \<noteq> []" and "\<And>c. c \<in> set s \<Longrightarrow> \<not> is_whitespace c"
  shows "trim s = s"
  using assms by (intro trim_id) (simp_all add: last_in_set hd_in_set)

lemma part_plain:
  assumes "k \<noteq> []" "list_all (\<lambda>c. \<not> is_whitespace c \<and> c \<noteq> CHR ''='') k"
    "v \<noteq> []" "list_all (\<lambda>c. \<not> is_whitespace c) v"
  shows "parse_parts field ((k @ CHR ''='' # v) # ps) f =
    (case field k v f of None \<Rightarrow> None | Some f' \<Rightarrow> parse_parts field ps f')"
proof (rule parse_parts_field)
  have eq: "\<not> is_whitespace (CHR ''='')" by (simp add: is_whitespace_def)
  show "trim k = k" "trim v = v" "CHR ''='' \<notin> set k"
    using assms by (auto simp: list_all_iff intro!: trim_plain)
  show "trim (k @ CHR ''='' # v) = k @ CHR ''='' # v"
    using assms eq by (intro trim_plain) (auto simp: list_all_iff)
qed

lemma show_radix_list_all:
  assumes "2 \<le> radix" "radix \<le> 16"
  shows "list_all (\<lambda>c. \<not> is_whitespace c) (show_radix radix n)" "CHR '';'' \<notin> set (show_radix radix n)"
  using show_radix_plain [OF assms] by (auto simp: list_all_iff)

definition show_hex :: "nat \<Rightarrow> string" where
  "show_hex n = ''0x'' @ show_radix 16 n"

lemma parse_number_show [simp]:
  "parse_u64 (show_radix 10 (unat n)) = Some n" "parse_u32 (show_radix 10 (unat i)) = Some i"
  "parse_hex_u64 (show_hex (unat n)) = Some n" "parse_hex_u32 (show_hex (unat i)) = Some i"
proof -
  have "unat n < 2 ^ 64" "unat i < 2 ^ 32"
    using unsigned_less [of n, where ?'a = nat] unsigned_less [of i, where ?'a = nat] by simp_all
  then have le: "unat n \<le> u64_max" "unat i \<le> u32_max" by (simp_all add: u32_max_def)
  have strip: "strip_hex (''0x'' @ s) = s" for s by (simp only: strip_hex_def strip_prefix_append option.case)
  show "parse_u64 (show_radix 10 (unat n)) = Some n" "parse_u32 (show_radix 10 (unat i)) = Some i"
    using le by (simp_all add: parse_u64_def parse_u32_def from_str_show)
  show "parse_hex_u64 (show_hex (unat n)) = Some n" "parse_hex_u32 (show_hex (unat i)) = Some i"
    using le unfolding parse_hex_u64_def parse_hex_u32_def show_hex_def strip by (simp_all add: from_str_show)
qed

text \<open>A key and a printed value, as one part of a header value.\<close>

definition kv :: "string \<Rightarrow> string \<Rightarrow> string" where
  "kv k v = k @ CHR ''='' # v"

definition plain :: "string \<Rightarrow> bool" where
  "plain s \<longleftrightarrow> s \<noteq> [] \<and> list_all (\<lambda>c. \<not> is_whitespace c \<and> c \<noteq> CHR '';'') s"

lemma plain_show [simp]: "2 \<le> radix \<Longrightarrow> radix \<le> 16 \<Longrightarrow> plain (show_radix radix n)"
  using show_radix_plain [of radix] by (auto simp: plain_def list_all_iff)

lemma plain_hex [simp]: "plain (show_hex n)"
  using plain_show [of 16 n] by (simp add: plain_def is_whitespace_def show_hex_def)

lemma parse_parts_kv:
  assumes "plain k" "CHR ''='' \<notin> set k" "plain v"
  shows "parse_parts field (kv k v # ps) f =
    (case field k v f of None \<Rightarrow> None | Some f' \<Rightarrow> parse_parts field ps f')"
  unfolding kv_def using assms by (intro part_plain) (auto simp: plain_def list_all_iff)

lemma kv_no_sep: "plain k \<Longrightarrow> plain v \<Longrightarrow> CHR '';'' \<notin> set (kv k v)"
  by (auto simp: kv_def plain_def list_all_iff)

lemma plain_keys [simp]:
  "plain ''addr''" "plain ''rkey''" "plain ''len''" "plain ''id''" "plain ''status''"
  "plain ''bytes_written''" "plain ''object_size''" "plain ''complete''" "plain ''too_large''"
  "plain ''declined''"
  by (simp_all add: plain_def is_whitespace_def)

lemma req_header_parts:
  "split_on (CHR '';'') (req_header_value r) =
     kv ''addr'' (show_hex (unat (req_addr r))) #
     kv ''rkey'' (show_hex (unat (req_rkey r))) #
     kv ''len'' (show_radix 10 (unat (req_len r))) #
     (case req_id r of None \<Rightarrow> [] | Some i \<Rightarrow> [kv ''id'' (show_radix 10 (unat i))])"
proof -
  define a where "a = kv ''addr'' (show_hex (unat (req_addr r)))"
  define k where "k = kv ''rkey'' (show_hex (unat (req_rkey r)))"
  define l where "l = kv ''len'' (show_radix 10 (unat (req_len r)))"
  define d where "d i = kv ''id'' (show_radix 10 (unat i))" for i :: u32
  have no_sep: "CHR '';'' \<notin> set a" "CHR '';'' \<notin> set k" "CHR '';'' \<notin> set l" "CHR '';'' \<notin> set (d i)" for i
    by (simp_all add: a_def k_def l_def d_def kv_no_sep)
  have "req_header_value r = a @ CHR '';'' # k @ CHR '';'' # l @
      (case req_id r of None \<Rightarrow> [] | Some i \<Rightarrow> CHR '';'' # d i)"
    by (simp add: req_header_value_def a_def k_def l_def d_def kv_def show_hex_def split: option.split)
  then show ?thesis
    using no_sep
    by (cases "req_id r")
       (simp_all add: split_on_append split_on_no_sep a_def [symmetric] k_def [symmetric]
         l_def [symmetric] d_def [symmetric])
qed

lemma parse_req_header_value: "parse_req (req_header_value r) = Some r"
  by (cases "req_id r")
     (simp_all add: parse_req_def req_header_parts parse_parts_kv req_field_def del: parse_parts.simps(2))

lemma status_header_parts:
  "split_on (CHR '';'') (status_header_value st) =
     (case st of
        Complete n \<Rightarrow> [kv ''status'' ''complete'', kv ''bytes_written'' (show_radix 10 (unat n))]
      | TooLarge n \<Rightarrow> [kv ''status'' ''too_large'', kv ''object_size'' (show_radix 10 (unat n))]
      | Declined \<Rightarrow> [kv ''status'' ''declined''])"
proof -
  have two: "split_on (CHR '';'') (kv a b @ CHR '';'' # kv c d) = [kv a b, kv c d]"
    if "plain a" "plain b" "plain c" "plain d" for a b c d
    using that by (simp add: split_on_append split_on_no_sep kv_no_sep)
  have one: "split_on (CHR '';'') (kv a b) = [kv a b]" if "plain a" "plain b" for a b
    using that by (simp add: split_on_no_sep kv_no_sep)
  show ?thesis
  proof (cases st)
    case (Complete n)
    have "status_header_value st = kv ''status'' ''complete'' @ CHR '';'' #
        kv ''bytes_written'' (show_radix 10 (unat n))"
      by (simp add: status_header_value_def Complete kv_def)
    then show ?thesis by (simp add: two Complete)
  next
    case (TooLarge n)
    have "status_header_value st = kv ''status'' ''too_large'' @ CHR '';'' #
        kv ''object_size'' (show_radix 10 (unat n))"
      by (simp add: status_header_value_def TooLarge kv_def)
    then show ?thesis by (simp add: two TooLarge)
  next
    case Declined
    have "status_header_value st = kv ''status'' ''declined''"
      by (simp add: status_header_value_def Declined kv_def)
    then show ?thesis by (simp add: one Declined)
  qed
qed

lemma parse_status_header_value: "parse_status (status_header_value st) = Some st"
  by (cases st)
     (simp_all add: parse_status_def status_header_parts parse_parts_kv status_field_def del: parse_parts.simps(2))

interpretation req: header_codec req_header_value parse_req "\<lambda>_. True"
  by unfold_locales (rule parse_req_header_value)

interpretation status: header_codec status_header_value parse_status "\<lambda>_. True"
  by unfold_locales (rule parse_status_header_value)

end
