(* ===== verification/Zero_Copy.thy ===== *)
theory Zero_Copy
  imports Gather Header_Codec "HOL-Library.Multiset"
begin

text \<open>
  The zero-copy orchestration of \<open>hord-zerocopy/src/rdma.rs\<close>: the client's request
  descriptor, serving a body by one-sided write from a freshly registered or a pooled source
  buffer, the source pool with its leases, and the split-mode receiver.
\<close>

section \<open>The client's request\<close>

record zero_copy_request =
  zc_buf :: registered_buffer
  zc_id :: "u32 option"

definition zc_from_buffer :: "registered_buffer \<Rightarrow> zero_copy_request" where
  "zc_from_buffer buf = \<lparr>zc_buf = buf, zc_id = None\<rparr>"

definition zc_new :: "nat \<Rightarrow> hord_stream \<Rightarrow> zero_copy_request res \<times> hord_stream" where
  "zc_new capacity s =
     and_then (register_remote_writable capacity s) (\<lambda>buf s. (Inr (zc_from_buffer buf), s))"

definition zc_with_id :: "u32 \<Rightarrow> zero_copy_request \<Rightarrow> zero_copy_request" where
  "zc_with_id i z = z\<lparr>zc_id := Some i\<rparr>"

definition zc_request :: "zero_copy_request \<Rightarrow> rdma_write_req" where
  "zc_request z =
     \<lparr>req_addr = of_nat (rb_addr (zc_buf z)), req_rkey = rb_rkey (zc_buf z),
      req_len = of_nat (rb_len (zc_buf z)), req_id = zc_id z\<rparr>"

definition zc_header_line :: "zero_copy_request \<Rightarrow> string" where
  "zc_header_line z = req_header_line (zc_request z)"

definition zc_capacity :: "zero_copy_request \<Rightarrow> nat" where
  "zc_capacity z = rb_len (zc_buf z)"

definition zc_copy_out :: "zero_copy_request \<Rightarrow> nat \<Rightarrow> nat \<Rightarrow> memory \<Rightarrow> bytes res" where
  "zc_copy_out z off n m = copy_out (zc_buf z) off n m"

section \<open>Serving a body\<close>

text \<open>\<open>fill\<close> writes through the buffer it is given; it may panic.\<close>

type_synonym filler = "registered_buffer \<Rightarrow> memory \<Rightarrow> memory res"

definition run_fill :: "filler \<Rightarrow> registered_buffer \<Rightarrow> hord_stream \<Rightarrow> unit res \<times> hord_stream" where
  "run_fill fill buf s =
     (case fill buf (smem s) of
        Inl e \<Rightarrow> (Inl e, s) | Inr m \<Rightarrow> (Inr (), s\<lparr>conn := (conn s)\<lparr>mem := m\<rparr>\<rparr>))"

definition run_write_plan ::
  "registered_buffer \<Rightarrow> rdma_write_req \<Rightarrow> nat \<Rightarrow> u32 option \<Rightarrow> filler \<Rightarrow> hord_stream
     \<Rightarrow> (unit res \<times> hord_stream) option" where
  "run_write_plan src req plen tid fill s =
     then_loop (Some (if plen > 0 then run_fill fill src s else (Inr (), s))) (\<lambda>_ s.
       case tid of
         Some i \<Rightarrow> rdma_write_all_with_imm src 0 (unat (req_addr req)) (req_rkey req) plen i s
       | None \<Rightarrow> rdma_write_all src 0 (unat (req_addr req)) (req_rkey req) plen s)"

text \<open>Dropping a \<open>RegisteredBuffer\<close> deregisters its memory region.\<close>

definition drop_buffer :: "registered_buffer \<Rightarrow> hord_stream \<Rightarrow> hord_stream" where
  "drop_buffer buf s =
     s\<lparr>conn := (conn s)\<lparr>regions := filter (\<lambda>r. \<not> (reg_addr r = rb_addr buf \<and> reg_len r = rb_len buf
        \<and> reg_key r = rb_rkey buf)) (regions (conn s))\<rparr>\<rparr>"

text \<open>Run the rest of a block, then drop what it owned, on the error path too.\<close>

definition finally_drop ::
  "(hord_stream \<Rightarrow> hord_stream) \<Rightarrow> ('a res \<times> hord_stream) option \<Rightarrow> ('a res \<times> hord_stream) option" where
  "finally_drop cleanup r = map_option (\<lambda>(x, s). (x, cleanup s)) r"

definition serve_rdma_write ::
  "rdma_write_req \<Rightarrow> u64 \<Rightarrow> filler \<Rightarrow> hord_stream
     \<Rightarrow> (rdma_write_status res \<times> hord_stream) option" where
  "serve_rdma_write req object_size fill s =
     (case decide req object_size (split_mode_negotiated s) of
        Respond st \<Rightarrow> Some (Inr st, s)
      | WriteBody plen slen tid \<Rightarrow>
          then_loop (Some (register_source slen s)) (\<lambda>src s.
            finally_drop (drop_buffer src)
              (then_loop (run_write_plan src req plen tid fill s) (\<lambda>_ s.
                 Some (Inr (Complete (of_nat plen)), s)))))"

section \<open>The source pool\<close>

record source_pool =
  sp_buf_size :: nat
  sp_capacity :: nat
  sp_free :: "registered_buffer list"
  sp_registered :: nat
  sp_fallbacks :: nat

record source_lease =
  ls_buf :: registered_buffer
  ls_pooled :: bool

definition source_pool_new :: "nat \<Rightarrow> nat \<Rightarrow> source_pool" where
  "source_pool_new capacity bsize =
     \<lparr>sp_buf_size = max bsize 1, sp_capacity = capacity, sp_free = [], sp_registered = 0,
      sp_fallbacks = 0\<rparr>"

definition pool_available :: "source_pool \<Rightarrow> nat" where
  "pool_available p = length (sp_free p)"

definition pool_acquire ::
  "(nat \<Rightarrow> 's \<Rightarrow> registered_buffer res \<times> 's) \<Rightarrow> nat \<Rightarrow> source_pool \<times> 's
     \<Rightarrow> source_lease res \<times> source_pool \<times> 's" where
  "pool_acquire register len ps =
     (let p = fst ps; s = snd ps; fits = (len \<le> sp_buf_size p) in
      if fits \<and> sp_free p \<noteq> []
      then (Inr \<lparr>ls_buf = last (sp_free p), ls_pooled = True\<rparr>,
            p\<lparr>sp_free := butlast (sp_free p)\<rparr>, s)
      else if fits \<and> sp_registered p < sp_capacity p
      then (case register (sp_buf_size p) s of
              (Inl e, s1) \<Rightarrow> (Inl e, p, s1)
            | (Inr buf, s1) \<Rightarrow>
                (Inr \<lparr>ls_buf = buf, ls_pooled = True\<rparr>, p\<lparr>sp_registered := sp_registered p + 1\<rparr>, s1))
      else (case register (max len 1) s of
              (Inl e, s1) \<Rightarrow> (Inl e, p, s1)
            | (Inr buf, s1) \<Rightarrow>
                (Inr \<lparr>ls_buf = buf, ls_pooled = False\<rparr>, p\<lparr>sp_fallbacks := sp_fallbacks p + 1\<rparr>, s1)))"

text \<open>Dropping a lease: a pooled buffer goes back, a one-off is deregistered.\<close>

definition lease_return :: "source_lease \<Rightarrow> source_pool \<Rightarrow> source_pool" where
  "lease_return l p = (if ls_pooled l then p\<lparr>sp_free := sp_free p @ [ls_buf l]\<rparr> else p)"

definition lease_drop :: "source_lease \<Rightarrow> source_pool \<times> hord_stream \<Rightarrow> source_pool \<times> hord_stream" where
  "lease_drop l ps =
     (if ls_pooled l then (lease_return l (fst ps), snd ps) else (fst ps, drop_buffer (ls_buf l) (snd ps)))"

definition serve_rdma_write_pooled ::
  "rdma_write_req \<Rightarrow> u64 \<Rightarrow> filler \<Rightarrow> source_pool \<times> hord_stream
     \<Rightarrow> (rdma_write_status res \<times> source_pool \<times> hord_stream) option" where
  "serve_rdma_write_pooled req object_size fill ps =
     (case decide req object_size (split_mode_negotiated (snd ps)) of
        Respond st \<Rightarrow> Some (Inr st, ps)
      | WriteBody plen slen tid \<Rightarrow>
          (case pool_acquire register_source slen ps of
             (Inl e, ps1) \<Rightarrow> Some (Inl e, ps1)
           | (Inr l, (p1, s1)) \<Rightarrow>
               map_option (\<lambda>(r, s2). (map_sum id (\<lambda>_. Complete (of_nat plen)) r, lease_drop l (p1, s2)))
                 (run_write_plan (ls_buf l) req plen tid fill s1)))"

section \<open>The split-mode receiver\<close>

definition split_receiver_new :: "hord_stream \<Rightarrow> unit res" where
  "split_receiver_new s =
     (if \<not> split_mode_negotiated s then Inl (io_err Unsupported) else Inr ())"

definition poll_completion :: "hord_stream \<Rightarrow> (u32 option res \<times> hord_stream) option" where
  "poll_completion s = poll_completed_transfer s"

definition try_completion :: "hord_stream \<Rightarrow> u32 option res \<times> hord_stream" where
  "try_completion s =
     and_then (drain_completions s) (\<lambda>_ s.
       let p = next_completed_transfer s in (Inr (fst p), snd p))"

section \<open>A pool of lendable resources\<close>

text \<open>
  What a client of the pool relies on: lending moves a resource from the free ones to the lent
  ones, or makes a new one; giving back moves it the other way; the number ever made stays
  bounded. Over any run no resource is lent twice at once.
\<close>

datatype 'b pool_event = Lent 'b | Returned 'b

locale lender =
  fixes free :: "'p \<Rightarrow> 'b list"
    and made :: "'p \<Rightarrow> nat"
    and cap :: "'p \<Rightarrow> nat"
    and step :: "'p \<Rightarrow> 'b pool_event \<Rightarrow> 'p \<Rightarrow> bool"
  assumes lend: "step p (Lent b) q \<Longrightarrow>
      (mset (free p) = add_mset b (mset (free q)) \<and> made q = made p)
      \<or> (free q = free p \<and> made q = Suc (made p) \<and> made p < cap p)"
    and give: "step p (Returned b) q \<Longrightarrow> mset (free q) = add_mset b (mset (free p)) \<and> made q = made p"
    and cap_step: "step p ev q \<Longrightarrow> cap q = cap p"
begin

text \<open>With \<open>lent\<close> the multiset of resources out, every resource made is free or out.\<close>

lemma lend_conserves:
  assumes "step p (Lent b) q" and "length (free p) + size lent = made p" and "made p \<le> cap p"
  shows "length (free q) + size (add_mset b lent) = made q \<and> made q \<le> cap q"
  using lend [OF assms(1)] cap_step [OF assms(1)] assms(2,3)
  by (auto dest: arg_cong [where f = size])

lemma give_conserves:
  assumes "step p (Returned b) q" and "length (free p) + size (add_mset b lent) = made p"
    and "made p \<le> cap p"
  shows "length (free q) + size lent = made q \<and> made q \<le> cap q"
  using give [OF assms(1)] cap_step [OF assms(1)] assms(2,3)
  by (auto dest: arg_cong [where f = size])

end

text \<open>The pool's own steps: a pooled lease is taken or dropped.\<close>

definition pool_step :: "source_pool \<Rightarrow> registered_buffer pool_event \<Rightarrow> source_pool \<Rightarrow> bool" where
  "pool_step p ev q \<longleftrightarrow>
     (case ev of
        Lent b \<Rightarrow> \<exists>register len s s'. pool_acquire register len (p, s :: hord_stream)
                    = (Inr \<lparr>ls_buf = b, ls_pooled = True\<rparr>, q, s')
      | Returned b \<Rightarrow> q = lease_return \<lparr>ls_buf = b, ls_pooled = True\<rparr> p)"

lemma pool_acquire_lent:
  assumes "pool_acquire register len (p, s) = (Inr \<lparr>ls_buf = b, ls_pooled = True\<rparr>, q, s')"
  shows "(mset (sp_free p) = add_mset b (mset (sp_free q)) \<and> sp_registered q = sp_registered p)
      \<or> (sp_free q = sp_free p \<and> sp_registered q = Suc (sp_registered p)
         \<and> sp_registered p < sp_capacity p)"
    and "sp_capacity q = sp_capacity p" and "sp_buf_size q = sp_buf_size p"
proof -
  have split: "xs \<noteq> [] \<Longrightarrow> mset xs = add_mset (last xs) (mset (butlast xs))" for xs :: "registered_buffer list"
    by (metis append_butlast_last_id mset.simps(1,2) mset_append union_mset_add_mset_right add.right_neutral)
  show "(mset (sp_free p) = add_mset b (mset (sp_free q)) \<and> sp_registered q = sp_registered p)
      \<or> (sp_free q = sp_free p \<and> sp_registered q = Suc (sp_registered p)
         \<and> sp_registered p < sp_capacity p)"
    "sp_capacity q = sp_capacity p" "sp_buf_size q = sp_buf_size p"
    using assms split [of "sp_free p"]
    by (auto simp: pool_acquire_def Let_def split: if_splits prod.splits sum.splits)
qed

interpretation pool: lender sp_free sp_registered sp_capacity pool_step
proof unfold_locales
  fix p q b assume "pool_step p (Lent b) q"
  then show "(mset (sp_free p) = add_mset b (mset (sp_free q)) \<and> sp_registered q = sp_registered p)
      \<or> (sp_free q = sp_free p \<and> sp_registered q = Suc (sp_registered p)
         \<and> sp_registered p < sp_capacity p)"
    unfolding pool_step_def pool_event.case by (elim exE) (rule pool_acquire_lent)
next
  fix p q b assume "pool_step p (Returned b) q"
  then show "mset (sp_free q) = add_mset b (mset (sp_free p)) \<and> sp_registered q = sp_registered p"
    by (simp add: pool_step_def lease_return_def)
next
  fix p ev q assume "pool_step p ev q"
  then show "sp_capacity q = sp_capacity p"
    using pool_acquire_lent(2) by (cases ev) (fastforce simp: pool_step_def lease_return_def)+
qed

end
