(* ===== verification/Serving.thy ===== *)
theory Serving
  imports Setup Zero_Copy
begin

text \<open>
  Serving a body end to end: registering the source, filling it, driving the one-sided write
  and releasing the source keep the endpoint invariant, leave the registrations as they were
  (or one more in the pool), and answer with the status the policy decides.
\<close>

section \<open>Registering and dropping memory on a live endpoint\<close>

lemma world_ok_regions:
  assumes ok: "world_ok s" and same: "sq c = sq (conn s)" "rq c = rq (conn s)" "cq c = cq (conn s)"
    and brk: "brk (conn s) \<le> brk c"
    and reg: "\<And>r. r \<in> set (regions c) \<Longrightarrow> r \<in> set (regions (conn s))
        \<or> (brk (conn s) \<le> reg_addr r \<and> reg_addr r + reg_len r \<le> brk c)"
  shows "world_ok (s\<lparr>conn := c\<rparr>)"
proof -
  let ?t = "s\<lparr>conn := c\<rparr>"
  note inv = ok [unfolded world_ok_def write_ok_def queue_ok_def]
  have st: "statics ?t = statics s" by (simp add: statics_def)
  have pb: "pool_buffers ?t = pool_buffers s" by (simp add: pool_buffers_def)
  have "stream_ok ?t = stream_ok s"
    by (simp add: stream_ok_def statics_cong [OF st] owned_defs same)
  moreover have "accounted ?t" using inv accounted_ledger [OF ledger_conn] same by metis
  moreover have "heap_ok ?t"
    using inv brk reg order_trans [OF _ brk]
    by (auto simp: heap_ok_def below_brk_def list_all_iff pb)
  moreover have "layout_ok ?t"
    unfolding layout_ok_def pb
  proof (intro conjI)
    show "list_all (\<lambda>r. RemoteWrite \<in> reg_access r \<longrightarrow> list_all (\<lambda>b. span_disjoint (reg_addr r) (reg_len r)
        (rb_addr b) (rb_len b)) (pool_buffers s)) (regions (conn ?t))"
      using inv reg
      by (auto simp: layout_ok_def heap_ok_def list_all_iff span_disjoint_def) (meson order_trans)+
  qed (use inv in \<open>simp_all add: layout_ok_def\<close>)
  ultimately show ?thesis using inv by (simp add: world_ok_def write_ok_def queue_ok_def)
qed

lemma register_world:
  assumes "world_ok s"
  shows "world_ok (snd (on_conn (register_buffer len access) s))"
  by (cases "next_fault (reg_faults (conn s))"; cases "fst (next_fault (reg_faults (conn s)))")
     (auto simp: on_conn_eq register_buffer_def Let_def intro!: world_ok_regions [OF assms])

lemma drop_world: "world_ok s \<Longrightarrow> world_ok (drop_buffer buf s)"
  unfolding drop_buffer_def by (rule world_ok_regions) auto

lemma fill_world: "world_ok s \<Longrightarrow> world_ok (snd (run_fill fill buf s))"
  by (auto simp: run_fill_def intro!: world_ok_regions split: sum.split)

section \<open>Driving a write\<close>

lemma world_ok_frozen:
  assumes "world_ok s" and "write_ok t" and "fixtures t = fixtures s"
  shows "world_ok t"
  using assms by (auto simp: world_ok_def heap_ok_def below_brk_def fixtures_def statics_def pool_buffers_def)

lemma rdma_write_all_world:
  assumes ok: "world_ok s" and run: "rdma_write_all_inner src off raddr rkey len imm s = Some y"
    and fits: "off + len \<le> rb_len src" "off + len < 2 ^ 64" "raddr < 2 ^ 64"
  shows "safe_outcome world_ok y \<and> fixtures (snd y) = fixtures s
    \<and> (\<forall>u. fst y = Inr u \<longrightarrow> write_ids (snd y) = {#})"
proof -
  define seg where "seg = \<lparr>seg_addr = rb_addr src + off, seg_lkey = rb_lkey src, seg_len = len\<rparr>"
  have "begin_rdma_write_inner src off raddr rkey len imm =
      begin_rdma_write_gather_inner [seg] (wrap64 raddr) rkey imm"
    using fits by (simp add: fun_eq_iff begin_rdma_write_inner_def from_registered_def seg_def wrap64_def)
  with run have dr: "drive_write_all (begin_rdma_write_gather_inner [seg] (wrap64 raddr) rkey imm) s = Some y"
    by (simp add: rdma_write_all_inner_def)
  have w: "safe_outcome (\<lambda>t. write_ok t \<and> fixtures t = fixtures s) y"
    using held.drive_write_all_safe [OF dr, of "fixtures s"] ok by (simp add: world_ok_def)
  have "fst y = Inr u \<Longrightarrow> write_ids (snd y) = {#}" for u
    using drive_write_all_released [of _ s "snd y"] dr w by (cases y) (auto simp: safe_outcome_def)
  then show ?thesis using w world_ok_frozen [OF ok] by (auto simp: safe_outcome_def)
qed

text \<open>What a filler owes: given a buffer that is long enough, it returns.\<close>

definition fills :: "filler \<Rightarrow> nat \<Rightarrow> bool" where
  "fills fill n \<longleftrightarrow> (\<forall>buf m. n \<le> rb_len buf \<longrightarrow> (\<exists>m'. fill buf m = Inr m'))"

lemma run_write_plan_world:
  assumes ok: "world_ok s" and run: "run_write_plan src req plen tid fill s = Some y"
    and fits: "plen \<le> rb_len src" "plen < 2 ^ 64" and fl: "fills fill plen"
  shows "safe_outcome world_ok y \<and> fixtures (snd y) = fixtures s
    \<and> (\<forall>u. fst y = Inr u \<longrightarrow> write_ids (snd y) = {#})"
proof -
  define t where "t = (if plen > 0 then snd (run_fill fill src s) else s)"
  have fr: "(if plen > 0 then run_fill fill src s else (Inr (), s)) = (Inr (), t)"
    using fl fits(1) by (auto simp: t_def run_fill_def fills_def split: sum.split) (metis sum.distinct(1))
  have t: "world_ok t" "fixtures t = fixtures s"
    using ok fill_world by (auto simp: t_def run_fill_def fixtures_def statics_def split: sum.split)
  have "unat (req_addr req) < 2 ^ 64" using unsigned_less [where 'a = nat and w = "req_addr req"] by simp
  moreover have "rdma_write_all_inner src 0 (unat (req_addr req)) (req_rkey req) plen tid t = Some y"
    using run unfolding run_write_plan_def fr
    by (cases tid) (simp_all add: rdma_write_all_def rdma_write_all_with_imm_def)
  ultimately show ?thesis using rdma_write_all_world [OF t(1)] fits t(2) by fastforce
qed

section \<open>A body from a fresh source\<close>

lemma decide_plan:
  assumes "decide req object_size split = WriteBody plen slen tid"
  shows "plen = unat object_size" "plen \<le> slen" "0 < slen" "plen < 2 ^ 64"
    "\<not> object_size > req_len req" "unat object_size \<le> unat (req_len req)"
  using assms unsigned_less [where 'a = nat and w = object_size]
  by (auto simp: decide_def Let_def word_le_nat_alt not_less split: if_splits option.splits)

definition served :: "rdma_write_req \<Rightarrow> u64 \<Rightarrow> rdma_write_status" where
  "served req object_size =
     (if object_size > req_len req then TooLarge object_size else Complete object_size)"

lemma decide_respond: "decide req object_size split = Respond st \<Longrightarrow> st = served req object_size"
  by (auto simp: decide_def served_def Let_def unat_eq_0 split: if_splits option.splits)

lemma decide_served:
  "decide req object_size split = WriteBody plen slen tid \<Longrightarrow> Complete (of_nat plen) = served req object_size"
  using decide_plan(1,5) by (fastforce simp: served_def)

lemma register_drop:
  assumes ok: "world_ok s" and reg: "register_source len s = (Inr src, s1)" and pos: "0 < len"
    and fx: "fixtures t = fixtures s1"
  shows "regions (conn (drop_buffer src t)) = regions (conn s)" "rb_len src = len"
proof -
  obtain c where c: "register_buffer len ACCESS_LOCAL_WRITE (conn s) = (Inr src, c)" "s1 = s\<lparr>conn := c\<rparr>"
    using reg by (auto simp: register_source_def on_conn_def split: prod.splits)
  have old: "\<not> (reg_addr r = brk (conn s) \<and> reg_len r = len)" if "r \<in> set (regions (conn s))" for r
    using ok that pos by (auto simp: world_ok_def heap_ok_def below_brk_def list_all_iff)
  have "regions (conn t) = regions c" using fx c by (simp add: fixtures_def)
  moreover have "rb_addr src = brk (conn s) \<and> rb_len src = len
      \<and> (\<exists>k. rb_rkey src = k \<and> regions c = regions (conn s) @ [\<lparr>reg_addr = brk (conn s), reg_len = len,
            reg_key = k, reg_access = access_flags ACCESS_LOCAL_WRITE\<rparr>])"
    using c(1) by (cases rule: register_buffer_cases [of len ACCESS_LOCAL_WRITE "conn s"]) auto
  ultimately show "regions (conn (drop_buffer src t)) = regions (conn s)" "rb_len src = len"
    using old by (auto simp: drop_buffer_def filter_id_conv)
qed

lemma register_source_refused:
  assumes "register_source len s = (Inl e, s1)"
  shows "regions (conn s1) = regions (conn s)" "e = io_err ErrOther"
    "writes_outstanding s1 = writes_outstanding s" "write_ids s1 = write_ids s"
  using assms
  by (auto simp: register_source_def on_conn_eq register_buffer_def Let_def write_ids_def send_ids_def
      split: if_splits prod.splits)

lemma then_loop_const:
  "then_loop r (\<lambda>_ s. Some (Inr c, s)) = map_option (\<lambda>p. (map_sum id (\<lambda>_. c) (fst p), snd p)) r"
  by (cases r) (auto simp: then_loop_def split: sum.split)

lemma serve_rdma_write_world:
  assumes ok: "world_ok s" and run: "serve_rdma_write req object_size fill s = Some y"
    and fl: "fills fill (unat object_size)"
  shows "safe_outcome world_ok y" "regions (conn (snd y)) = regions (conn s)"
    "fst y = Inr st \<Longrightarrow> st = served req object_size"
    "fst y = Inr st \<Longrightarrow> s \<noteq> snd y \<Longrightarrow> write_ids (snd y) = {#}"
proof -
  have "safe_outcome world_ok y \<and> regions (conn (snd y)) = regions (conn s)
      \<and> (\<forall>st. fst y = Inr st \<longrightarrow> st = served req object_size \<and> (s = snd y \<or> write_ids (snd y) = {#}))"
  proof (cases "decide req object_size (split_mode_negotiated s)")
    case (Respond st)
    with run ok decide_respond [OF Respond] show ?thesis by (auto simp: serve_rdma_write_def safe_outcome_def)
  next
    case (WriteBody plen slen tid)
    note plan = decide_plan [OF WriteBody]
    have w: "world_ok (snd (register_source slen s))"
      unfolding register_source_def by (rule register_world [OF ok])
    show ?thesis
    proof (cases "register_source slen s")
      case (Pair r s1)
      show ?thesis
      proof (cases r)
        case (Inl e)
        with run WriteBody Pair w register_source_refused [of slen s e s1] show ?thesis
          by (auto simp: serve_rdma_write_def safe_outcome_def)
      next
        case (Inr src)
        have len: "rb_len src = slen" using register_drop(2) [OF ok _ plan(3)] Pair Inr by blast
        obtain z where z: "run_write_plan src req plen tid fill s1 = Some z"
          and y: "y = (map_sum id (\<lambda>_. Complete (of_nat plen)) (fst z), drop_buffer src (snd z))"
          using run WriteBody Pair Inr
          by (auto simp: serve_rdma_write_def finally_drop_def then_loop_const)
        have p: "safe_outcome world_ok z \<and> fixtures (snd z) = fixtures s1
            \<and> (\<forall>u. fst z = Inr u \<longrightarrow> write_ids (snd z) = {#})"
          using run_write_plan_world [OF _ z] w Pair Inr plan len fl by simp
        have "regions (conn (snd y)) = regions (conn s)"
          using register_drop(1) [OF ok _ plan(3)] Pair Inr p y by auto
        moreover have "write_ids (drop_buffer src t) = write_ids t" for t
          by (simp add: drop_buffer_def write_ids_def send_ids_def)
        ultimately show ?thesis
          using p y drop_world decide_served [OF WriteBody]
          by (cases "fst z") (auto simp: safe_outcome_def)
      qed
    qed
  qed
  then show "safe_outcome world_ok y" "regions (conn (snd y)) = regions (conn s)"
    "fst y = Inr st \<Longrightarrow> st = served req object_size"
    "fst y = Inr st \<Longrightarrow> s \<noteq> snd y \<Longrightarrow> write_ids (snd y) = {#}"
    by auto
qed

section \<open>A body from the pool\<close>

text \<open>A pool with nothing out: all it ever registered is free, and of the pool's size.\<close>

definition pool_idle :: "source_pool \<Rightarrow> bool" where
  "pool_idle p \<longleftrightarrow>
     length (sp_free p) = sp_registered p \<and> sp_registered p \<le> sp_capacity p \<and> 0 < sp_buf_size p
     \<and> list_all (\<lambda>b. rb_len b = sp_buf_size p) (sp_free p)"

lemma pool_idle_new: "pool_idle (source_pool_new capacity bsize)"
  by (simp add: pool_idle_def source_pool_new_def)

lemma register_source_ok:
  assumes "register_source len s = (Inr b, s1)"
  shows "rb_len b = len \<and> length (regions (conn s1)) = Suc (length (regions (conn s)))"
proof -
  obtain c where c: "register_buffer len ACCESS_LOCAL_WRITE (conn s) = (Inr b, c)" "s1 = s\<lparr>conn := c\<rparr>"
    using assms by (auto simp: register_source_def on_conn_def split: prod.splits)
  then show ?thesis by (cases rule: register_buffer_cases [of len ACCESS_LOCAL_WRITE "conn s"]) auto
qed

text \<open>What a lease gives: a long enough buffer, the pool short of it, one registration at most.\<close>

lemma pool_acquire_cases:
  assumes idle: "pool_idle p" and run: "pool_acquire register_source len (p, s) = (r, p1, s1)" and pos: "0 < len"
  obtains
    (failed) "r = Inl (io_err ErrOther)" "p1 = p" "snd (register_source (if len \<le> sp_buf_size p
        \<and> sp_registered p < sp_capacity p then sp_buf_size p else max len 1) s) = s1" "regions (conn s1) = regions (conn s)"
  | (pooled) b where "r = Inr \<lparr>ls_buf = b, ls_pooled = True\<rparr>" "rb_len b = sp_buf_size p" "len \<le> sp_buf_size p"
      "pool_idle (lease_return \<lparr>ls_buf = b, ls_pooled = True\<rparr> p1)"
      "s1 = s \<or> s1 = snd (register_source (sp_buf_size p) s)"
      "length (regions (conn s1)) + sp_registered p = length (regions (conn s)) + sp_registered p1"
  | (single) b where "r = Inr \<lparr>ls_buf = b, ls_pooled = False\<rparr>" "register_source len s = (Inr b, s1)"
      "p1 = p\<lparr>sp_fallbacks := sp_fallbacks p + 1\<rparr>"
proof -
  have last: "xs \<noteq> [] \<Longrightarrow> list_all P xs \<Longrightarrow> P (last xs) \<and> list_all P (butlast xs)" for P and xs :: "registered_buffer list"
    by (auto simp: list_all_iff dest: in_set_butlastD)
  have mx: "max len 1 = len" using pos by simp
  consider (a) "len \<le> sp_buf_size p" "sp_free p \<noteq> []"
    | (b) "len \<le> sp_buf_size p" "sp_free p = []" "sp_registered p < sp_capacity p"
    | (c) "\<not> (len \<le> sp_buf_size p \<and> sp_free p \<noteq> [])" "\<not> (len \<le> sp_buf_size p \<and> sp_registered p < sp_capacity p)"
    by blast
  then show thesis
  proof cases
    case a
    then have eq: "r = Inr \<lparr>ls_buf = last (sp_free p), ls_pooled = True\<rparr>"
      "p1 = p\<lparr>sp_free := butlast (sp_free p)\<rparr>" "s1 = s"
      using run by (simp_all add: pool_acquire_def Let_def)
    show thesis
      using a idle last [of "sp_free p" "\<lambda>b. rb_len b = sp_buf_size p"]
      by (intro pooled [OF eq(1)]) (simp_all add: eq pool_idle_def lease_return_def)
  next
    case b
    obtain q t where reg: "register_source (sp_buf_size p) s = (q, t)" by fastforce
    show thesis
    proof (cases q)
      case (Inl e)
      then show thesis
        using run b reg register_source_refused [of "sp_buf_size p" s e t]
        by (intro failed) (auto simp: pool_acquire_def Let_def)
    next
      case (Inr buf)
      then have eq: "r = Inr \<lparr>ls_buf = buf, ls_pooled = True\<rparr>"
          "p1 = p\<lparr>sp_registered := sp_registered p + 1\<rparr>" "s1 = t"
        using run b reg by (simp_all add: pool_acquire_def Let_def)
      show thesis
        using b idle register_source_ok [of "sp_buf_size p" s buf t] reg Inr
        by (intro pooled [OF eq(1)]) (simp_all add: eq pool_idle_def lease_return_def)
    qed
  next
    case c
    obtain q t where reg: "register_source len s = (q, t)" by fastforce
    show thesis
    proof (cases q)
      case (Inl e)
      then show thesis
        using run c reg register_source_refused [of len s e t] mx
        by (intro failed) (auto simp: pool_acquire_def Let_def)
    next
      case (Inr buf)
      then show thesis
        using run c reg mx by (intro single [of buf]) (auto simp: pool_acquire_def Let_def)
    qed
  qed
qed

lemma lease_drop_world: "world_ok s \<Longrightarrow> world_ok (snd (lease_drop l (p, s)))"
  by (simp add: lease_drop_def drop_world)

lemma serve_pooled_world:
  assumes ok: "world_ok s" and idle: "pool_idle p"
    and run: "serve_rdma_write_pooled req object_size fill (p, s) = Some (r, p', s')"
    and fl: "fills fill (unat object_size)"
  shows "world_ok s' \<and> r \<noteq> Inl Panic \<and> pool_idle p'
    \<and> length (regions (conn s')) + sp_registered p = length (regions (conn s)) + sp_registered p'
    \<and> (\<forall>st. r = Inr st \<longrightarrow> st = served req object_size)"
proof (cases "decide req object_size (split_mode_negotiated s)")
  case (Respond st)
  with run ok idle decide_respond [OF Respond] show ?thesis by (auto simp: serve_rdma_write_pooled_def)
next
  case (WriteBody plen slen tid)
  note plan = decide_plan [OF WriteBody]
  obtain q p1 s1 where acq: "pool_acquire register_source slen (p, s) = (q, p1, s1)" by (metis prod.exhaust)
  have reg: "world_ok (snd (register_source n s))" for n
    unfolding register_source_def by (rule register_world [OF ok])
  have driven: "world_ok s' \<and> r \<noteq> Inl Panic \<and> p' = fst (lease_drop l (p1, s1)) \<and> (\<forall>st. r = Inr st \<longrightarrow> st = served req object_size)
      \<and> (\<exists>t. fixtures t = fixtures s1 \<and> s' = snd (lease_drop l (p1, t)))"
    if q: "q = Inr l" and w: "world_ok s1" and len: "plen \<le> rb_len (ls_buf l)" for l
  proof -
    obtain z where z: "run_write_plan (ls_buf l) req plen tid fill s1 = Some z"
      and y: "r = map_sum id (\<lambda>_. Complete (of_nat plen)) (fst z)" "(p', s') = lease_drop l (p1, snd z)"
      using run WriteBody acq q by (auto simp: serve_rdma_write_pooled_def split: prod.splits)
    have P: "safe_outcome world_ok z" "fixtures (snd z) = fixtures s1"
      using run_write_plan_world [OF w z len plan(4)] fl plan(1) by auto
    have "fst (lease_drop l (p1, t)) = fst (lease_drop l (p1, s1))" for t by (simp add: lease_drop_def)
    then have "p' = fst (lease_drop l (p1, s1))" "s' = snd (lease_drop l (p1, snd z))"
      using y(2) by (metis fst_conv, metis snd_conv)
    then show ?thesis
      using P y lease_drop_world [of "snd z" l p1] decide_served [OF WriteBody]
      by (cases "fst z") (auto simp: safe_outcome_def)
  qed
  show ?thesis
  proof (cases rule: pool_acquire_cases [OF idle acq plan(3), case_names failed pooled single])
    case failed
    then show ?thesis
      using run WriteBody acq idle reg by (auto simp: serve_rdma_write_pooled_def)
  next
    case (pooled b)
    have "plen \<le> rb_len b" using pooled(2,3) plan(2) by simp
    moreover have "world_ok s1" using pooled(5) ok reg by auto
    ultimately show ?thesis
      using driven [OF pooled(1)] pooled(4,6)
      by (auto simp: lease_drop_def fixtures_def lease_return_def)
  next
    case (single b)
    have "rb_len b = slen" using register_drop(2) [OF ok single(2) plan(3)] by simp
    moreover have "world_ok s1" using reg [of slen] single(2) by simp
    ultimately show ?thesis
      using driven [OF single(1)] plan(2) single(3) idle register_drop(1) [OF ok single(2) plan(3)]
      by (auto simp: lease_drop_def pool_idle_def)
  qed
qed

end
