(* ===== verification/Http_Demo.thy ===== *)
theory Http_Demo
  imports Byte_Queue Header_Codec
begin

text \<open>
  The HTTP helpers of \<open>hord-demo/src/lib.rs\<close>: reading a head and a body from a byte source,
  the head parser, the \<open>Range\<close> / \<open>Content-Range\<close> codec, and the verifiable byte pattern.

  A reader (\<open>R: Read\<close>) is an operation \<open>rd n s\<close> that returns at most \<open>n\<close> bytes and the state
  it leaves, or does not return (\<open>None\<close>). \<open>usize\<close> values are naturals below \<open>2 ^ 64\<close>.
\<close>

section \<open>Reading a head and a body\<close>

definition MAX_HEAD_BYTES :: nat where "MAX_HEAD_BYTES = 64 * 1024"

definition CRLF2 :: bytes where "CRLF2 = [13, 10, 13, 10]"

fun find_from :: "nat \<Rightarrow> bytes \<Rightarrow> nat option" where
  "find_from i buf =
     (if length buf < 4 then None
      else if take 4 buf = CRLF2 then Some i else find_from (i + 1) (tl buf))"

declare find_from.simps [simp del]

definition find_double_crlf :: "bytes \<Rightarrow> nat option" where
  "find_double_crlf buf = find_from 0 buf"

type_synonym 's reader = "nat \<Rightarrow> 's \<Rightarrow> (bytes res \<times> 's) option"

function read_head_loop :: "'s reader \<Rightarrow> bytes \<Rightarrow> 's \<Rightarrow> ((bytes \<times> bytes) res \<times> 's) option" where
  "read_head_loop rd buf s =
     (case find_double_crlf buf of
        Some idx \<Rightarrow> Some (Inr (take (idx + 4) buf, drop (idx + 4) buf), s)
      | None \<Rightarrow>
          if length buf > MAX_HEAD_BYTES then Some (Inl (io_err InvalidData), s)
          else case rd 1024 s of
                 None \<Rightarrow> None
               | Some p \<Rightarrow>
                   (case fst p of
                      Inl e \<Rightarrow> Some (Inl e, snd p)
                    | Inr got \<Rightarrow> if got = [] then Some (Inl (io_err UnexpectedEof), snd p)
                                 else read_head_loop rd (buf @ got) (snd p)))"
  by pat_completeness auto
termination
  by (relation "measure (\<lambda>(rd, buf, s). Suc MAX_HEAD_BYTES - length buf)")
     (auto intro!: diff_less_mono2 simp: less_Suc_eq_le)

declare read_head_loop.simps [simp del]

definition read_head :: "'s reader \<Rightarrow> 's \<Rightarrow> ((bytes \<times> bytes) res \<times> 's) option" where
  "read_head rd s = read_head_loop rd [] s"

function read_body :: "'s reader \<Rightarrow> bytes \<Rightarrow> nat \<Rightarrow> 's \<Rightarrow> (bytes res \<times> 's) option" where
  "read_body rd body sz s =
     (if length body < sz
      then case rd (min (sz - length body) (2 ^ 20)) s of
             None \<Rightarrow> None
           | Some p \<Rightarrow>
               (case fst p of
                  Inl e \<Rightarrow> Some (Inl e, snd p)
                | Inr got \<Rightarrow> if got = [] then Some (Inl (io_err UnexpectedEof), snd p)
                             else read_body rd (body @ got) sz (snd p))
      else Some (Inr body, s))"
  by pat_completeness auto
termination
  by (relation "measure (\<lambda>(rd, body, sz, s). sz - length body)")
     (auto intro!: diff_less_mono2)

declare read_body.simps [simp del]

section \<open>Parsing a head\<close>

record head =
  head_start :: "string \<times> string \<times> string"
  head_headers :: "(string \<times> string) list"

text \<open>\<open>split("\r\n")\<close> and \<open>splitn(3, ' ')\<close>.\<close>

fun split_crlf :: "string \<Rightarrow> string list" where
  "split_crlf [] = [[]]"
| "split_crlf [c] = [[c]]"
| "split_crlf (c # d # cs) =
     (if c = CHR 0x0D \<and> d = CHR 0x0A then [] # split_crlf cs
      else case split_crlf (d # cs) of [] \<Rightarrow> [[c]] | l # ls \<Rightarrow> (c # l) # ls)"

definition splitn3 :: "string \<Rightarrow> string \<times> string \<times> string" where
  "splitn3 s =
     (case split_once (CHR '' '') s of
        None \<Rightarrow> (s, [], [])
      | Some (a, r) \<Rightarrow> (case split_once (CHR '' '') r of
                          None \<Rightarrow> (a, r, []) | Some (b, c) \<Rightarrow> (a, b, c)))"

text \<open>\<open>Head::parse\<close> on the text \<open>String::from_utf8_lossy\<close> gives for the head bytes.\<close>

definition head_parse :: "string \<Rightarrow> head res" where
  "head_parse text =
     (case filter (\<lambda>l. l \<noteq> []) (split_crlf text) of
        [] \<Rightarrow> Inl (io_err InvalidData)
      | start_line # lines \<Rightarrow>
          Inr \<lparr>head_start = splitn3 start_line,
               head_headers = List.map_filter
                 (\<lambda>l. map_option (\<lambda>(k, v). (trim k, trim v)) (split_once (CHR '':'') l)) lines\<rparr>)"

definition ascii_lower :: "char \<Rightarrow> char" where
  "ascii_lower c = (let n = of_char c :: nat in if 65 \<le> n \<and> n \<le> 90 then char_of (n + 32) else c)"

definition eq_ignore_ascii_case :: "string \<Rightarrow> string \<Rightarrow> bool" where
  "eq_ignore_ascii_case a b \<longleftrightarrow> map ascii_lower a = map ascii_lower b"

definition head_header :: "head \<Rightarrow> string \<Rightarrow> string option" where
  "head_header h name =
     map_option snd (List.find (\<lambda>(k, v). eq_ignore_ascii_case k name) (head_headers h))"

definition parse_usize :: "string \<Rightarrow> nat option" where
  "parse_usize s = from_str_radix 10 u64_max s"

definition head_content_length :: "head \<Rightarrow> nat option" where
  "head_content_length h =
     (case head_header h ''Content-Length'' of None \<Rightarrow> None | Some v \<Rightarrow> parse_usize (trim v))"

section \<open>Ranges\<close>

datatype range_spec = Range (range_start: nat) (range_end: nat) | Unsatisfiable | Full

definition parse_range :: "string \<Rightarrow> nat \<Rightarrow> range_spec" where
  "parse_range value sz =
     (case strip_prefix ''bytes='' (trim value) of
        None \<Rightarrow> Full
      | Some s \<Rightarrow>
          (let spec = trim s in
           if CHR '','' \<in> set spec then Full
           else case split_once (CHR ''-'') spec of
                  None \<Rightarrow> Full
                | Some (a0, b0) \<Rightarrow>
                    (let a = trim a0; b = trim b0 in
                     if a = [] \<and> b \<noteq> []
                     then (case parse_usize b of
                             None \<Rightarrow> Full
                           | Some n \<Rightarrow> if n = 0 \<or> sz = 0 then Unsatisfiable
                                       else Range (sz - n) (sz - 1))
                     else if a \<noteq> [] \<and> b = []
                     then (case parse_usize a of
                             None \<Rightarrow> Full
                           | Some start \<Rightarrow> if start \<ge> sz then Unsatisfiable
                                           else Range start (sz - 1))
                     else if a \<noteq> [] \<and> b \<noteq> []
                     then (case (parse_usize a, parse_usize b) of
                             (Some start, Some fin) \<Rightarrow>
                               if start > fin then Full
                               else if start \<ge> sz then Unsatisfiable
                               else Range start (min fin (sz - 1))
                           | _ \<Rightarrow> Full)
                     else Full)))"

definition content_range :: "nat \<Rightarrow> nat \<Rightarrow> nat \<Rightarrow> string" where
  "content_range start fin sz =
     ''bytes '' @ show_radix 10 start @ ''-'' @ show_radix 10 fin @ ''/'' @ show_radix 10 sz"

definition content_range_unsatisfied :: "nat \<Rightarrow> string" where
  "content_range_unsatisfied sz = ''bytes */'' @ show_radix 10 sz"

definition parse_content_range :: "string \<Rightarrow> (nat \<times> nat \<times> nat) option" where
  "parse_content_range value =
     (case strip_prefix ''bytes '' (trim value) of
        None \<Rightarrow> None
      | Some rest \<Rightarrow>
          (case split_once (CHR ''/'') rest of
             None \<Rightarrow> None
           | Some (rng, sz) \<Rightarrow>
               (case split_once (CHR ''-'') (trim rng) of
                  None \<Rightarrow> None
                | Some (start, fin) \<Rightarrow>
                    (case (parse_usize (trim start), parse_usize (trim fin), parse_usize (trim sz)) of
                       (Some a, Some b, Some c) \<Rightarrow> Some (a, b, c)
                     | _ \<Rightarrow> None))))"

definition resolve_range :: "string option \<Rightarrow> nat option \<Rightarrow> nat \<times> nat option" where
  "resolve_range spec sz =
     (case (spec, sz) of
        (Some sp, Some n) \<Rightarrow>
          (case parse_range (''bytes='' @ sp) n of
             Range start fin \<Rightarrow> (start, Some (fin - start + 1))
           | _ \<Rightarrow> (0, None))
      | _ \<Rightarrow> (0, None))"

section \<open>The verifiable pattern\<close>

definition pattern_byte :: "nat \<Rightarrow> u8" where
  "pattern_byte i = of_nat (i mod 251)"

definition pattern_fill_from :: "nat \<Rightarrow> nat \<Rightarrow> bytes" where
  "pattern_fill_from len base = map (\<lambda>i. pattern_byte (base + i)) [0..<len]"

definition pattern_fill :: "nat \<Rightarrow> bytes" where
  "pattern_fill len = pattern_fill_from len 0"

definition FILL_CHUNK :: nat where "FILL_CHUNK = 256 * 1024"

function fill_registered_loop ::
  "registered_buffer \<Rightarrow> nat \<Rightarrow> nat \<Rightarrow> nat \<Rightarrow> memory \<Rightarrow> memory res" where
  "fill_registered_loop buf base n off m =
     (if off < n
      then let tk = min FILL_CHUNK (n - off) in
           case copy_in buf off (map (\<lambda>i. pattern_byte (base + off + i)) [0..<tk]) m of
             Inl e \<Rightarrow> Inl e
           | Inr m' \<Rightarrow> fill_registered_loop buf base n (off + tk) m'
      else Inr m)"
  by pat_completeness auto
termination
  by (relation "measure (\<lambda>(buf, base, n, off, m). n - off)") (auto simp: FILL_CHUNK_def)

declare fill_registered_loop.simps [simp del]

definition pattern_fill_registered_from ::
  "registered_buffer \<Rightarrow> nat \<Rightarrow> nat \<Rightarrow> memory \<Rightarrow> memory res" where
  "pattern_fill_registered_from buf base n m = fill_registered_loop buf base n 0 m"

definition pattern_fill_registered :: "registered_buffer \<Rightarrow> nat \<Rightarrow> memory \<Rightarrow> memory res" where
  "pattern_fill_registered buf n = pattern_fill_registered_from buf 0 n"

definition size_from_path :: "string \<Rightarrow> nat option" where
  "size_from_path path =
     (case strip_prefix ''/size/'' path of None \<Rightarrow> None | Some n \<Rightarrow> parse_usize n)"

text \<open>\<open>Result<bool, String>\<close>: the error text becomes the offset of the first mismatch.\<close>

definition first_mismatch :: "nat \<Rightarrow> bytes \<Rightarrow> nat option" where
  "first_mismatch base body =
     map_option fst (List.find (\<lambda>(i, b). b \<noteq> pattern_byte (base + i)) (enumerate 0 body))"

definition verify_stream_body_at :: "bytes \<Rightarrow> bool \<Rightarrow> string \<Rightarrow> nat \<Rightarrow> nat + bool" where
  "verify_stream_body_at body is_ok path base =
     (if \<not> is_ok \<or> size_from_path path = None then Inr False
      else case first_mismatch base body of Some i \<Rightarrow> Inl (base + i) | None \<Rightarrow> Inr True)"

definition verify_stream_body :: "bytes \<Rightarrow> bool \<Rightarrow> string \<Rightarrow> nat + bool" where
  "verify_stream_body body is_200 path = verify_stream_body_at body is_200 path 0"

text \<open>The zero-copy buffer is read out in chunks; an out-of-range read panics (\<open>None\<close>).\<close>

function verify_zc_loop ::
  "registered_buffer \<Rightarrow> nat \<Rightarrow> nat \<Rightarrow> nat \<Rightarrow> memory \<Rightarrow> (nat + bool) res" where
  "verify_zc_loop buf base n off m =
     (if off < n
      then let tk = min FILL_CHUNK (n - off) in
           case copy_out buf off tk m of
             Inl e \<Rightarrow> Inl e
           | Inr bs \<Rightarrow> (case first_mismatch (base + off) bs of
                          Some i \<Rightarrow> Inr (Inl (base + off + i))
                        | None \<Rightarrow> verify_zc_loop buf base n (off + tk) m)
      else Inr (Inr True))"
  by pat_completeness auto
termination
  by (relation "measure (\<lambda>(buf, base, n, off, m). n - off)") (auto simp: FILL_CHUNK_def)

declare verify_zc_loop.simps [simp del]

definition verify_zero_copy_at ::
  "registered_buffer \<Rightarrow> nat \<Rightarrow> nat \<Rightarrow> string \<Rightarrow> memory \<Rightarrow> (nat + bool) res" where
  "verify_zero_copy_at buf base n path m =
     (if size_from_path path = None then Inr (Inr False) else verify_zc_loop buf base n 0 m)"

definition verify_zero_copy ::
  "registered_buffer \<Rightarrow> nat \<Rightarrow> string \<Rightarrow> memory \<Rightarrow> (nat + bool) res" where
  "verify_zero_copy buf n path m = verify_zero_copy_at buf 0 n path m"

section \<open>Framing loses nothing\<close>

text \<open>
  What a byte source promises its readers: a successful read returns the next bytes of the
  content, which may have grown by what arrived meanwhile.
\<close>

locale byte_source =
  fixes rd :: "'s reader"
    and content :: "'s \<Rightarrow> bytes"
    and inv :: "'s \<Rightarrow> bool"
  assumes rd_inv: "inv s \<Longrightarrow> rd n s = Some p \<Longrightarrow> inv (snd p)"
    and rd_content: "inv s \<Longrightarrow> rd n s = Some (Inr bs, s') \<Longrightarrow> \<exists>new. content s @ new = bs @ content s'"
    and rd_bound: "inv s \<Longrightarrow> rd n s = Some (Inr bs, s') \<Longrightarrow> length bs \<le> n"
begin

lemma read_head_loop_content:
  "inv s \<Longrightarrow> read_head_loop rd buf s = Some (Inr (h, rest), s') \<Longrightarrow>
     inv s' \<and> (\<exists>new. buf @ content s @ new = h @ rest @ content s')
     \<and> (length buf \<le> MAX_HEAD_BYTES + 1024 \<longrightarrow> length (h @ rest) \<le> MAX_HEAD_BYTES + 1024)"
proof (induction "Suc MAX_HEAD_BYTES - length buf" arbitrary: buf s rule: less_induct)
  case less
  show ?case
  proof (cases "find_double_crlf buf")
    case (Some idx)
    then show ?thesis
      using less.prems by (auto simp: read_head_loop.simps [of rd buf s] intro: exI [of _ "[]"])
  next
    case None
    then obtain got s1 where got: "rd 1024 s = Some (Inr got, s1)" "got \<noteq> []" "length buf \<le> MAX_HEAD_BYTES"
        "read_head_loop rd (buf @ got) s1 = Some (Inr (h, rest), s')"
      using less.prems
      by (auto simp: read_head_loop.simps [of rd buf s] split: if_splits option.splits sum.splits prod.splits)
    have lt: "Suc MAX_HEAD_BYTES - length (buf @ got) < Suc MAX_HEAD_BYTES - length buf"
      using got(2,3) by (cases got) auto
    have "inv s1" using rd_inv [OF less.prems(1) got(1)] by simp
    from less.hyps [OF lt this got(4)] obtain new where
      IH: "inv s'" "buf @ got @ content s1 @ new = h @ rest @ content s'"
        "length (buf @ got) \<le> MAX_HEAD_BYTES + 1024 \<longrightarrow> length (h @ rest) \<le> MAX_HEAD_BYTES + 1024"
      by auto
    obtain new' where new': "content s @ new' = got @ content s1"
      using rd_content [OF less.prems(1) got(1)] by blast
    have "buf @ content s @ new' @ new = h @ rest @ content s'"
      using IH(2) new' by (metis append_assoc)
    moreover have "length (buf @ got) \<le> MAX_HEAD_BYTES + 1024"
      using got(3) rd_bound [OF less.prems(1) got(1)] by simp
    ultimately show ?thesis using IH by blast
  qed
qed

lemma read_head_content:
  assumes "inv s" and "read_head rd s = Some (Inr (h, rest), s')"
  shows "inv s'" "\<exists>new. content s @ new = h @ rest @ content s'" "length (h @ rest) \<le> MAX_HEAD_BYTES + 1024"
  using read_head_loop_content [OF assms(1), of "[]" h rest s'] assms(2) by (auto simp: read_head_def)

lemma read_body_content:
  "inv s \<Longrightarrow> read_body rd body sz s = Some (Inr bs, s') \<Longrightarrow>
     inv s' \<and> (\<exists>new. body @ content s @ new = bs @ content s') \<and> length bs = max sz (length body)"
proof (induction "sz - length body" arbitrary: body s rule: less_induct)
  case less
  show ?case
  proof (cases "length body < sz")
    case False
    then show ?thesis
      using less.prems by (auto simp: read_body.simps [of rd body sz s] intro: exI [of _ "[]"])
  next
    case True
    let ?n = "min (sz - length body) (2 ^ 20)"
    obtain got s1 where got: "rd ?n s = Some (Inr got, s1)" "got \<noteq> []"
        "read_body rd (body @ got) sz s1 = Some (Inr bs, s')"
      using less.prems True
      by (auto simp: read_body.simps [of rd body sz s] split: if_splits option.splits sum.splits prod.splits)
    have "sz - length (body @ got) < sz - length body" using got(2) True by (cases got) auto
    moreover have "inv s1" using rd_inv [OF less.prems(1) got(1)] by simp
    ultimately obtain new where IH: "inv s'" "body @ got @ content s1 @ new = bs @ content s'"
        "length bs = max sz (length (body @ got))"
      using less.hyps [OF _ _ got(3)] by auto
    obtain new' where new': "content s @ new' = got @ content s1"
      using rd_content [OF less.prems(1) got(1)] by blast
    have "body @ content s @ new' @ new = bs @ content s'" using IH(2) new' by (metis append_assoc)
    moreover have "length (body @ got) \<le> sz"
      using rd_bound [OF less.prems(1) got(1)] True by auto
    ultimately show ?thesis using IH by (auto simp: max_def)
  qed
qed

end

lemma hord_read_source:
  assumes "queue_ok s"
  shows "hord_read n s = Some p \<Longrightarrow> queue_ok (snd p)"
    and "hord_read n s = Some (Inr bs, s') \<Longrightarrow> read_law n s bs s'"
  using queue.hord_read_pres [of n s p] hord_read_law [of n s "(Inr bs, s')"] assms by auto

interpretation hstream: byte_source hord_read rx_bytes queue_ok
  using hord_read_source by unfold_locales (auto simp: read_law_def)

section \<open>Where a head ends\<close>

lemma find_from_spec:
  "find_from i buf = Some k \<Longrightarrow>
     i \<le> k \<and> k - i + 4 \<le> length buf \<and> take 4 (drop (k - i) buf) = CRLF2
     \<and> (\<forall>j < k - i. take 4 (drop j buf) \<noteq> CRLF2)"
proof (induction i buf rule: find_from.induct)
  case (1 i buf)
  show ?case
  proof (cases "length buf < 4 \<or> take 4 buf = CRLF2")
    case True
    then show ?thesis using 1(2) by (subst (asm) find_from.simps) (auto split: if_splits)
  next
    case False
    then have rec: "find_from (i + 1) (tl buf) = Some k"
      using 1(2) by (subst (asm) find_from.simps) auto
    with 1(1) False have IH: "i + 1 \<le> k" "k - (i + 1) + 4 \<le> length (tl buf)"
      "take 4 (drop (k - (i + 1)) (tl buf)) = CRLF2"
      "\<forall>j < k - (i + 1). take 4 (drop j (tl buf)) \<noteq> CRLF2" by auto
    have tl: "drop j (tl buf) = drop (Suc j) buf" for j by (simp add: drop_Suc)
    have "k - i = Suc (k - (i + 1))" using IH(1) by simp
    moreover have "take 4 (drop j buf) \<noteq> CRLF2" if "j < k - i" for j
      using that IH(1,4) False tl by (cases j) (auto simp: less_diff_conv)
    ultimately show ?thesis using IH tl False by auto
  qed
qed

text \<open>The head ends at the first blank line, and holds no earlier one.\<close>

lemma find_double_crlf_spec:
  assumes "find_double_crlf buf = Some k"
  shows "k + 4 \<le> length buf" "take 4 (drop k buf) = CRLF2" "\<forall>j < k. take 4 (drop j buf) \<noteq> CRLF2"
  using find_from_spec [of 0 buf k] assms by (simp_all add: find_double_crlf_def)

lemma find_from_None: "find_from i buf = None \<Longrightarrow> j + 4 \<le> length buf \<Longrightarrow> take 4 (drop j buf) \<noteq> CRLF2"
proof (induction i buf arbitrary: j rule: find_from.induct)
  case (1 i buf)
  then have ne: "\<not> length buf < 4" "take 4 buf \<noteq> CRLF2" "find_from (i + 1) (tl buf) = None"
    by (auto simp: find_from.simps [of i buf] split: if_splits)
  show ?case
  proof (cases j)
    case (Suc j')
    then have "take 4 (drop j' (tl buf)) \<noteq> CRLF2" using 1(1) [of j'] 1(3) ne by simp
    then show ?thesis by (simp add: Suc drop_Suc)
  qed (use ne in simp)
qed

section \<open>Ranges stay inside the object\<close>

lemma parse_range_bounds:
  "parse_range v sz = Range a b \<Longrightarrow> a \<le> b \<and> b < sz"
  by (auto simp: parse_range_def Let_def split: option.splits if_splits prod.splits)

lemma parse_range_total:
  "parse_range v 0 = Unsatisfiable \<or> parse_range v 0 = Full"
  by (auto simp: parse_range_def Let_def split: option.splits if_splits prod.splits)

lemma resolve_range_bounds:
  assumes "resolve_range spec (Some sz) = (base, Some len)"
  shows "0 < len \<and> base + len \<le> sz"
  using assms parse_range_bounds
  by (fastforce simp: resolve_range_def split: option.splits range_spec.splits)

lemma parse_usize_show: "n \<le> u64_max \<Longrightarrow> parse_usize (show_radix 10 n) = Some n"
  by (simp add: parse_usize_def from_str_show)

lemma show10_plain:
  "c \<in> set (show_radix 10 n) \<Longrightarrow> \<not> is_whitespace c \<and> c \<noteq> CHR ''-'' \<and> c \<noteq> CHR ''/'' \<and> c \<noteq> CHR '',''"
  using show_radix_plain [of 10 c n] by simp

lemma trim_show10 [simp]: "trim (show_radix 10 n) = show_radix 10 n"
  using show10_plain by (intro trim_plain) auto

lemma trim_last_plain:
  assumes "p \<noteq> []" "\<not> is_whitespace (hd p)" "q \<noteq> []" "\<not> is_whitespace (last q)"
  shows "trim (p @ q) = p @ q"
  using assms by (intro trim_id) auto

lemma parse_range_show:
  assumes "a \<le> u64_max" "b \<le> u64_max"
  shows "parse_range (''bytes='' @ show_radix 10 a @ ''-'' @ show_radix 10 b) sz =
    (if b < a then Full else if sz \<le> a then Unsatisfiable else Range a (min b (sz - 1)))"
proof -
  let ?s = "show_radix 10 a @ CHR ''-'' # show_radix 10 b"
  have last: "\<not> is_whitespace (last (show_radix 10 n))" for n
    using show10_plain [of "last (show_radix 10 n)" n] last_in_set [OF show_radix_nonempty] by blast
  have hd: "\<not> is_whitespace (hd (show_radix 10 n))" for n
    using show10_plain [of "hd (show_radix 10 n)" n] hd_in_set [OF show_radix_nonempty] by blast
  have t1: "trim (''bytes='' @ ?s) = ''bytes='' @ ?s"
    using last by (intro trim_last_plain) (auto simp: is_whitespace_def)
  have t2: "trim ?s = ?s" using last hd by (intro trim_last_plain) auto
  have sep: "CHR ''-'' \<notin> set (show_radix 10 a)" "CHR '','' \<notin> set ?s"
    using show10_plain by auto
  have "strip_prefix ''bytes='' (''bytes='' @ ?s) = Some ?s" by (rule strip_prefix_append)
  then show ?thesis
    using assms t1 t2 sep
    by (simp add: parse_range_def split_once_append parse_usize_show Let_def)
qed

lemma parse_content_range_show:
  assumes "a \<le> u64_max" "b \<le> u64_max" "n \<le> u64_max"
  shows "parse_content_range (content_range a b n) = Some (a, b, n)"
proof -
  let ?r = "show_radix 10 a @ CHR ''-'' # show_radix 10 b"
  let ?s = "?r @ CHR ''/'' # show_radix 10 n"
  have last: "\<not> is_whitespace (last (show_radix 10 n))" for n
    using show10_plain [of "last (show_radix 10 n)" n] last_in_set [OF show_radix_nonempty] by blast
  have hd: "\<not> is_whitespace (hd (show_radix 10 n))" for n
    using show10_plain [of "hd (show_radix 10 n)" n] hd_in_set [OF show_radix_nonempty] by blast
  have cr: "content_range a b n = ''bytes '' @ ?s" by (simp add: content_range_def)
  have "trim (''bytes '' @ ?s) = ''bytes '' @ ?s"
    using last by (intro trim_last_plain) (auto simp: is_whitespace_def)
  moreover have "trim ?r = ?r" using last hd by (intro trim_last_plain) auto
  moreover have "CHR ''-'' \<notin> set (show_radix 10 a)" "CHR ''/'' \<notin> set ?r"
    using show10_plain by auto
  moreover have "strip_prefix ''bytes '' (''bytes '' @ ?s) = Some ?s" by (rule strip_prefix_append)
  moreover have "split_once (CHR ''/'') ?s = Some (?r, show_radix 10 n)"
    using calculation(4) by (rule split_once_append)
  ultimately show ?thesis
    using assms by (simp add: parse_content_range_def cr split_once_append parse_usize_show)
qed

interpretation crange: header_codec "\<lambda>(a, b, n). content_range a b n" parse_content_range
  "\<lambda>(a, b, n). a \<le> u64_max \<and> b \<le> u64_max \<and> n \<le> u64_max"
  using parse_content_range_show by unfold_locales auto

section \<open>The pattern is what is verified\<close>

lemma first_mismatch_None:
  "first_mismatch base body = None \<longleftrightarrow> body = pattern_fill_from (length body) base"
proof -
  have "first_mismatch base body = None \<longleftrightarrow> (\<forall>i < length body. body ! i = pattern_byte (base + i))"
    by (auto simp: first_mismatch_def find_None_iff in_set_enumerate_eq)
  also have "\<dots> \<longleftrightarrow> body = map (\<lambda>i. pattern_byte (base + i)) [0..<length body]"
  proof
    show "body = map (\<lambda>i. pattern_byte (base + i)) [0..<length body]"
      if "\<forall>i < length body. body ! i = pattern_byte (base + i)"
      using that by (intro nth_equalityI) simp_all
    show "\<forall>i < length body. body ! i = pattern_byte (base + i)"
      if eq: "body = map (\<lambda>i. pattern_byte (base + i)) [0..<length body]"
      by (subst (2) eq) simp
  qed
  finally show ?thesis by (simp only: pattern_fill_from_def)
qed

lemma pattern_fill_from_append:
  "pattern_fill_from (n + k) base = pattern_fill_from n base @ pattern_fill_from k (base + n)"
  by (rule nth_equalityI) (auto simp: pattern_fill_from_def nth_append)

lemma fill_registered_loop_spec:
  "off \<le> n \<Longrightarrow> n \<le> rb_len buf \<Longrightarrow>
     fill_registered_loop buf base n off m =
       Inr (write_mem m (rb_addr buf + off) (pattern_fill_from (n - off) (base + off)))"
proof (induction buf base n off m rule: fill_registered_loop.induct)
  case (1 buf base n off m)
  show ?case
  proof (cases "off < n")
    case True
    define tk where "tk = min FILL_CHUNK (n - off)"
    define chunk where "chunk = pattern_fill_from tk (base + off)"
    have tk: "tk \<le> n - off" "length chunk = tk" by (simp_all add: tk_def chunk_def pattern_fill_from_def)
    have ci: "copy_in buf off chunk m = Inr (write_mem m (rb_addr buf + off) chunk)"
      using 1(3) tk True by (auto simp: copy_in_def)
    have chunk: "map (\<lambda>i. pattern_byte (base + off + i)) [0..<tk] = chunk"
      by (simp add: chunk_def pattern_fill_from_def)
    have "fill_registered_loop buf base n (off + tk) (write_mem m (rb_addr buf + off) chunk) =
        Inr (write_mem (write_mem m (rb_addr buf + off) chunk) (rb_addr buf + (off + tk))
               (pattern_fill_from (n - (off + tk)) (base + (off + tk))))"
      using 1(1) [OF True tk_def] chunk ci 1(2,3) tk True by auto
    also have "write_mem (write_mem m (rb_addr buf + off) chunk) (rb_addr buf + (off + tk))
               (pattern_fill_from (n - (off + tk)) (base + (off + tk)))
        = write_mem m (rb_addr buf + off) (chunk @ pattern_fill_from (n - (off + tk)) (base + (off + tk)))"
      using write_mem_append [of m "rb_addr buf + off" chunk] tk(2) by (simp add: add.assoc)
    also have "chunk @ pattern_fill_from (n - (off + tk)) (base + (off + tk))
        = pattern_fill_from (n - off) (base + off)"
      using pattern_fill_from_append [of tk "n - (off + tk)" "base + off"] tk(1) True
      by (simp add: chunk_def add.assoc)
    finally show ?thesis
      using True by (subst fill_registered_loop.simps)
        (simp add: Let_def tk_def [symmetric] chunk ci)
  next
    case False
    then show ?thesis using 1(2) by (simp add: fill_registered_loop.simps pattern_fill_from_def)
  qed
qed

lemma length_pattern_fill [simp]: "length (pattern_fill_from n base) = n"
  by (simp add: pattern_fill_from_def)

lemma verify_zc_loop_spec:
  "off \<le> n \<Longrightarrow> n \<le> rb_len buf \<Longrightarrow>
     verify_zc_loop buf base n off m = Inr (Inr True) \<longleftrightarrow>
       read_mem m (rb_addr buf + off) (n - off) = pattern_fill_from (n - off) (base + off)"
proof (induction buf base n off m rule: verify_zc_loop.induct)
  case (1 buf base n off m)
  show ?case
  proof (cases "off < n")
    case True
    define tk where "tk = min FILL_CHUNK (n - off)"
    define bs where "bs = read_mem m (rb_addr buf + off) tk"
    have tk: "tk \<le> n - off" "length bs = tk" by (simp_all add: tk_def bs_def)
    have co: "copy_out buf off tk m = Inr bs" using 1(3) tk True by (auto simp: copy_out_def bs_def)
    have split: "n - off = tk + (n - (off + tk))" using tk(1) True by simp
    have rd: "read_mem m (rb_addr buf + off) (n - off) =
        bs @ read_mem m (rb_addr buf + (off + tk)) (n - (off + tk))"
      by (subst split) (simp add: read_mem_append bs_def add.assoc)
    have pf: "pattern_fill_from (n - off) (base + off) =
        pattern_fill_from tk (base + off) @ pattern_fill_from (n - (off + tk)) (base + (off + tk))"
      by (subst split) (simp add: pattern_fill_from_append add.assoc)
    have eq: "read_mem m (rb_addr buf + off) (n - off) = pattern_fill_from (n - off) (base + off) \<longleftrightarrow>
        bs = pattern_fill_from tk (base + off) \<and>
        read_mem m (rb_addr buf + (off + tk)) (n - (off + tk)) =
          pattern_fill_from (n - (off + tk)) (base + (off + tk))"
      unfolding rd pf using tk(2) by (intro append_eq_append_conv) simp
    have step: "verify_zc_loop buf base n off m = (case first_mismatch (base + off) bs of
        Some i \<Rightarrow> Inr (Inl (base + off + i)) | None \<Rightarrow> verify_zc_loop buf base n (off + tk) m)"
      using True co by (subst verify_zc_loop.simps) (simp add: Let_def tk_def [symmetric])
    show ?thesis
    proof (cases "first_mismatch (base + off) bs")
      case None
      then have "bs = pattern_fill_from tk (base + off)" using tk(2) by (simp add: first_mismatch_None)
      moreover have "off + tk \<le> n" using tk(1) True by simp
      ultimately show ?thesis
        using 1(1) [OF True tk_def co None _ 1(3)] eq step None by simp
    next
      case (Some i)
      then have "bs \<noteq> pattern_fill_from tk (base + off)"
        using first_mismatch_None [of "base + off" bs] tk(2) by auto
      then show ?thesis using eq step Some by simp
    qed
  next
    case False
    then show ?thesis using 1(2) by (simp add: verify_zc_loop.simps pattern_fill_from_def)
  qed
qed

end
