(* ===== verification/Example_State.thy ===== *)
theory Example_State
  imports Serving Http_Demo
begin

text \<open>
  A small established endpoint, evaluated by the witnesses: 16-byte messages, two receive
  credits, two send slots, one received message (a blank line, the shortest head) waiting for the reader, and
  one more message of the peer about to arrive.
\<close>

definition ex_mem :: memory where
  "ex_mem = write_mem (\<lambda>_. 0) 0
     (envelope_bytes \<lparr>env_length = 4, env_credits = 1, env_flags = 0\<rparr> @ [13, 10, 13, 10])"

definition ex_wr :: "nat \<Rightarrow> recv_wr" where
  "ex_wr i = \<lparr>rw_id = recv_wr_id i, rw_addr = i * 16, rw_len = 16, rw_lkey = 1\<rparr>"

definition ex_conn :: connection where
  "ex_conn = \<lparr>qp = Some ReadyToSend, role = Client, max_send_sge = 2, dev_max_sge = 2,
     disconnected = False, disconnects_sent = 0, sq = [], rq = [ex_wr 1, ex_wr 2, ex_wr 3],
     cq = [], mem = ex_mem, brk = 200, next_key = 5,
     regions = [\<lparr>reg_addr = 0, reg_len = 64, reg_key = 1, reg_access = {LocalWrite}\<rparr>,
                \<lparr>reg_addr = 64, reg_len = 48, reg_key = 2, reg_access = {LocalWrite}\<rparr>,
                \<lparr>reg_addr = 180, reg_len = 20, reg_key = 4, reg_access = {LocalWrite, RemoteWrite}\<rparr>],
     arrivals = [[NicRecv (envelope_bytes \<lparr>env_length = 2, env_credits = 0, env_flags = 0\<rparr> @ [5, 6])]],
     cm_events = [CmEvent \<lparr>ev_type = Disconnected, ev_ack_ok = True\<rparr>], parks = [],
     post_faults = [], reg_faults = [], cm_faults = [], id_peer_addr = None\<rparr>"

definition ex_stream :: hord_stream where
  "ex_stream = \<lparr>conn = ex_conn, recv = \<lparr>rb_addr = 0, rb_len = 64, rb_lkey = 1, rb_rkey = 1\<rparr>,
     split_recv = None, send = \<lparr>rb_addr = 64, rb_len = 48, rb_lkey = 2, rb_rkey = 2\<rparr>,
     hs_buf = \<lparr>rb_addr = 112, rb_len = 64, rb_lkey = 3, rb_rkey = 3\<rparr>, msg_size = 16,
     payload_cap = 8, recv_pool = 2, split_base = 4, split_headroom = 0, send_pool = 2,
     send_free = [1, 0], send_credits = 2, grant_pending = 0, ctrl_slot = 2,
     ctrl_send_busy = False, tx_stage = [],
     rx_ready = [\<lparr>rm_slot = 0, rm_start = 8, rm_end = 12\<rparr>], peer_closed = False,
     cm_watch = True, peer_addr = None, established_at = 0, zero_copy = True,
     writes_outstanding = 0, split_mode = True, completed_transfers = [],
     peer_split_credits = 1, imm_outstanding = 0, hs_got_send = True, hs_got_recv = True,
     hs_recv_len = 32\<rparr>"

lemma ex_conn_fields [simp]:
  "qp ex_conn = Some ReadyToSend" "max_send_sge ex_conn = 2" "disconnected ex_conn = False"
  "sq ex_conn = []" "rq ex_conn = [ex_wr 1, ex_wr 2, ex_wr 3]" "cq ex_conn = []"
  "mem ex_conn = ex_mem" "post_faults ex_conn = []" "cm_faults ex_conn = []"
  "arrivals ex_conn = [[NicRecv (envelope_bytes \<lparr>env_length = 2, env_credits = 0, env_flags = 0\<rparr> @ [5, 6])]]"
  "cm_events ex_conn = [CmEvent \<lparr>ev_type = Disconnected, ev_ack_ok = True\<rparr>]"
  "regions ex_conn = [\<lparr>reg_addr = 0, reg_len = 64, reg_key = 1, reg_access = {LocalWrite}\<rparr>,
     \<lparr>reg_addr = 64, reg_len = 48, reg_key = 2, reg_access = {LocalWrite}\<rparr>,
     \<lparr>reg_addr = 180, reg_len = 20, reg_key = 4, reg_access = {LocalWrite, RemoteWrite}\<rparr>]"
  by (simp_all add: ex_conn_def)

lemma ex_stream_fields [simp]:
  "conn ex_stream = ex_conn" "split_recv ex_stream = None"
  "recv ex_stream = \<lparr>rb_addr = 0, rb_len = 64, rb_lkey = 1, rb_rkey = 1\<rparr>"
  "send ex_stream = \<lparr>rb_addr = 64, rb_len = 48, rb_lkey = 2, rb_rkey = 2\<rparr>"
  "msg_size ex_stream = 16" "payload_cap ex_stream = 8" "recv_pool ex_stream = 2"
  "split_base ex_stream = 4" "split_headroom ex_stream = 0" "send_pool ex_stream = 2"
  "send_free ex_stream = [1, 0]" "send_credits ex_stream = 2" "grant_pending ex_stream = 0"
  "ctrl_slot ex_stream = 2" "ctrl_send_busy ex_stream = False" "tx_stage ex_stream = []"
  "rx_ready ex_stream = [\<lparr>rm_slot = 0, rm_start = 8, rm_end = 12\<rparr>]"
  "peer_closed ex_stream = False" "cm_watch ex_stream = True" "zero_copy ex_stream = True"
  "writes_outstanding ex_stream = 0" "split_mode ex_stream = True"
  "completed_transfers ex_stream = []" "peer_split_credits ex_stream = 1"
  "imm_outstanding ex_stream = 0"
  by (simp_all add: ex_stream_def)

lemma ex_recv_slots: "mset [0..<4] = {#0::nat, 1, 2, 3#}" "mset [0..<2] = {#0::nat, 1#}"
  by (simp_all add: upt_rec numeral_eq_Suc)

lemma ex_wr_fields [simp]:
  "rw_id (ex_wr i) = recv_wr_id i" "rw_addr (ex_wr i) = i * 16" "rw_len (ex_wr i) = 16"
  by (simp_all add: ex_wr_def)

lemma ex_geometry: "geometry ex_stream"
  by (simp add: geometry_def ENVELOPE_LEN_def CTRL_SEND_SLOTS_def slot_bound_def)

lemma ex_owned:
  "recv_owned ex_stream = {#0, 1, 2, 3#}" "send_owned ex_stream = {#0, 1#}"
  "ctrl_in_flight ex_stream = 0"
  by (simp_all add: owned_defs slot_bound_def wr_id_simps)

lemma ex_posted: "recv_posted_ok ex_stream"
  by (simp add: recv_posted_ok_def recv_slots_def slot_bound_def wr_id_simps ex_wr_def slot_wr_def
      slot_buf_def slot_off_def)

lemma ex_stream_ok: "stream_ok ex_stream"
  using ex_geometry ex_posted
  by (simp add: stream_ok_def recv_slots_def ex_owned ex_recv_slots cq_ok_def ready_ok_def
      slot_off_def ENVELOPE_LEN_def u32_max_def del: mset_upt)

lemma ex_layout_ok: "layout_ok ex_stream"
  by (simp add: layout_ok_def span_disjoint_def pool_buffers_def)

lemma ex_queue_ok: "queue_ok ex_stream"
  by (simp add: queue_ok_def ex_stream_ok ex_layout_ok)

lemma ex_rx: "rx_bytes ex_stream = [13, 10, 13, 10]"
  by (simp add: rx_bytes_def msg_bytes_def slot_buf_def ex_mem_def read_mem_def write_mem_def
      upt_rec envelope_bytes_def nth_append)

text \<open>One read and one write of this endpoint, run step by step.\<close>

lemmas ex_run =
  on_conn_eq and_then_def Let_def slot_bound_def wr_id_simps ENVELOPE_LEN_def next_fault_def
  with_qp_def guard_post_def

lemma ex_mem_read: "read_mem ex_mem 8 4 = [13, 10, 13, 10]" "read_mem ex_mem 8 2 = [13, 10]"
  by (simp_all add: ex_mem_def read_mem_def write_mem_def upt_rec envelope_bytes_def nth_append)

lemma ex_read: "fst (try_read 2 ex_stream) = Inr (Some [13, 10])"
  by (simp add: try_read_def try_read_loop.simps recv_slot_def copy_out_def ex_mem_read ex_run
      return_owed_credits_def maybe_return_credits_def proactive_threshold_def)

lemma ex_read_full: "fst (try_read 1024 ex_stream) = Inr (Some [13, 10, 13, 10])"
  by (simp add: try_read_def try_read_loop.simps recv_slot_def copy_out_def ex_mem_read ex_run
      maybe_return_credits_def proactive_threshold_def post_recv_slot_def post_recv_def wrap_add32_def
      send_credit_return_def post_into_def copy_in_def post_send_def)

lemma ex_head:
  obtains s' where "read_head hord_read ex_stream = Some (Inr (CRLF2, []), s')"
proof -
  obtain s' where "try_read 1024 ex_stream = (Inr (Some [13, 10, 13, 10]), s')"
    using ex_read_full by (metis prod.collapse)
  then have "hord_read 1024 ex_stream = Some (Inr [13, 10, 13, 10], s')" by (simp add: hord_read.simps)
  then have "read_head hord_read ex_stream = Some (Inr (CRLF2, []), s')"
    by (simp add: read_head_def read_head_loop.simps find_double_crlf_def find_from.simps CRLF2_def)
  then show thesis by (rule that)
qed

lemma ex_body:
  obtains s' where "read_body hord_read [1] 3 ex_stream = Some (Inr [1, 13, 10], s')"
proof -
  obtain s' where "try_read 2 ex_stream = (Inr (Some [13, 10]), s')" using ex_read by (metis prod.collapse)
  then have "hord_read 2 ex_stream = Some (Inr [13, 10], s')" by (simp add: hord_read.simps)
  then have "read_body hord_read [1] 3 ex_stream = Some (Inr [1, 13, 10], s')" by (simp add: read_body.simps)
  then show thesis by (rule that)
qed

lemma ex_write_ok: "write_ok ex_stream"
  by (simp add: write_ok_def ex_queue_ok accounted_def plain_in_flight_def imm_in_flight_def
      write_ids_def send_ids_def u32_max_def)

lemma ex_write: "hord_write [1, 2, 3] ex_stream = Some (Inr 3, snd (try_write [1, 2, 3] ex_stream))"
  by (simp add: hord_write_def write_loop.simps try_write_def try_write_loop.simps)

lemma ex_flush: "hord_flush ex_stream = Some (Inr (), ex_stream)"
  by (simp add: hord_flush_def flush_stage_loop.simps flush_drain_loop.simps try_flush_stage_def
      sends_outstanding_def writes_pending_def)

section \<open>One-sided writes\<close>

lemma ex_world_ok: "world_ok ex_stream"
  by (simp add: world_ok_def ex_write_ok heap_ok_def below_brk_def pool_buffers_def ex_conn_def)

text \<open>The same endpoint, with the NIC about to complete the next posted request.\<close>

definition ex_writer :: hord_stream where
  "ex_writer = ex_stream\<lparr>conn := ex_conn\<lparr>arrivals := [[NicSendDone 0 0]]\<rparr>\<rparr>"

definition ex_seg :: write_segment where
  "ex_seg = \<lparr>seg_addr = 180, seg_lkey = 4, seg_len = 5\<rparr>"

lemmas ex_nic_run = poll_def settle_def
  report_def op_code_def completion_of_raw_def opcode_from_raw_def handle_completion_def is_success_def

lemmas ex_write_run =
  drive_write_all_def drive_post_loop.simps begin_rdma_write_gather_inner_def
  drain_writes_loop.simps writes_pending_def
  plan_gather_def plan_segments.simps plan_segment.simps plan_room_def plan_full_def plan_flush_def plan_push_def
  plan_take_def plan_start_def clamp_sge_def segment_is_empty_def WRITE_WR_MAX_def MAX_WRITE_SGE_def
  check_write_capacity_def post_planned_def post_write_gather_def pump_def pump_loop.simps
  wrap_add32_def ex_nic_run

lemma ex_writer_ok: "world_ok ex_writer" "write_ok ex_writer"
proof -
  show "world_ok ex_writer"
    unfolding ex_writer_def by (rule world_ok_regions [OF ex_world_ok]) (simp_all add: ex_conn_def)
  then show "write_ok ex_writer" by (simp add: world_ok_def)
qed

lemma ex_driven:
  obtains s' where "drive_write_all (begin_rdma_write_gather_inner [ex_seg] 4096 9 (Some 7)) ex_writer
    = Some (Inr (), s')"
  by (simp add: ex_write_run ex_writer_def ex_seg_def ex_run)

definition ex_req :: rdma_write_req where
  "ex_req = \<lparr>req_addr = 4096, req_rkey = 9, req_len = 5, req_id = Some 7\<rparr>"

definition ex_fill :: filler where
  "ex_fill buf m = copy_in buf 0 [1, 2, 3] m"

lemma ex_fills: "fills ex_fill 3"
  by (simp add: fills_def ex_fill_def copy_in_def)

lemma ex_served:
  "\<exists>s'. serve_rdma_write ex_req 3 ex_fill ex_writer = Some (Inr (Complete 3), s')"
  by (simp add: serve_rdma_write_def decide_def ex_req_def split_mode_negotiated_def ex_writer_def
      register_source_def on_conn_eq register_buffer_def Let_def next_fault_def finally_drop_def
      run_write_plan_def run_fill_def ex_fill_def copy_in_def rdma_write_all_with_imm_def
      rdma_write_all_inner_def begin_rdma_write_inner_def from_registered_def ex_write_run ex_run ex_conn_def)

text \<open>One send in flight, and the NIC about to report that it failed.\<close>

definition ex_failing :: hord_stream where
  "ex_failing = ex_stream\<lparr>send_free := [0], conn := ex_conn\<lparr>
     sq := [\<lparr>sw_id = send_wr_id 1, sw_op = SendOp, sw_sges = [\<lparr>sge_addr = 80, sge_length = 11, sge_lkey = 2\<rparr>]\<rparr>],
     arrivals := [[NicSendDone 5 0]]\<rparr>\<rparr>"

lemma ex_failing_flush:
  obtains s' where "hord_flush ex_failing = Some (Inr (), s')" "peer_closed s'"
  by (simp add: hord_flush_def flush_stage_loop.simps flush_drain_loop.simps try_flush_stage_def
      sends_outstanding_def ex_failing_def ex_write_run ex_run reclaim_send_def)

text \<open>The peer is about to send a message too short for an envelope.\<close>

definition ex_runt :: hord_stream where
  "ex_runt = ex_stream\<lparr>conn := ex_conn\<lparr>arrivals := [[NicRecv [1, 2, 3]]]\<rparr>\<rparr>"

lemma ex_runt_driven:
  obtains s' where "drive_write_all (begin_rdma_write_gather_inner [ex_seg] 4096 9 None) ex_runt
      = Some (Inl (io_err InvalidData), s')" "writes_pending s'"
  by (simp add: ex_write_run ex_runt_def ex_seg_def ex_run ex_wr_def handle_recv_def recv_slot_def)

section \<open>Setting a connection up\<close>

text \<open>
  A server side with one receive credit, one send slot and one transfer credit; the peer
  offers messages of 20 bytes, four receive credits and split mode.
\<close>

definition ex_peer :: handshake where
  "ex_peer = \<lparr>hs_version = VERSION, hs_flags = 3, hs_max_message_size = 20, hs_max_recv_buffers = 4,
     hs_split_credits = 2\<rparr>"

definition ex_fresh :: connection where
  "ex_fresh = \<lparr>qp = Some Init, role = Server, max_send_sge = 2, dev_max_sge = 2,
     disconnected = False, disconnects_sent = 0, sq = [], rq = [], cq = [], mem = (\<lambda>_. 0), brk = 0,
     next_key = 1, regions = [],
     arrivals = [[NicRecv (handshake_encode ex_peer), NicSendDone 0 0]],
     cm_events = [CmEvent \<lparr>ev_type = Established, ev_ack_ok = True\<rparr>], parks = [],
     post_faults = [], reg_faults = [], cm_faults = [], id_peer_addr = None\<rparr>"

definition ex_config :: hord_config where
  "ex_config = \<lparr>max_message_size = 16, recv_pool_size = 1, send_pool_size = 1,
      cfg_cm = cm_params_default, cfg_zero_copy = True, cfg_split_mode = True, cfg_split_credits = 1\<rparr>"

lemma ex_read_own: "length bs = n \<Longrightarrow> read_mem (write_mem m a bs) a n = bs"
  using read_write_same by blast

lemmas ex_setup_run =
  from_accepted_def new_common_def ex_config_def ex_fresh_def register_buffer_def Let_def next_fault_def
  ENVELOPE_LEN_def recv_base_count_def CTRL_RECV_SLACK_def CTRL_SEND_SLOTS_def HANDSHAKE_LEN_def
  access_local post_handshake_recv_def post_recv_def on_conn_eq with_qp_def guard_post_def and_then_def
  post_all_recvs_def upt_rec post_recv_slot_def recv_slot_def split_slack_def
  accept_finish_def accept_establish_begin_def modify_qp_def cm_call_def wait_event_def
  wait_event_loop.simps try_wait_event_def get_cm_event_def exchange_handshake_def begin_handshake_send_def
  copy_in_def post_send_def exchange_loop.simps poll_handshake_def poll_handshake_loop.simps poll_def settle_def
  report_def op_code_def completion_of_raw_def is_success_def copy_out_def apply_peer_def set_cm_nonblock_def

lemma ex_peer_frame: "handshake_decode (handshake_encode ex_peer) = Inr ex_peer"
  using handshake_decode_encode_append [of ex_peer "[]"] by (simp add: ex_peer_def)

lemma ex_peer_fields [simp]: "hs_max_message_size ex_peer = 20" "hs_max_recv_buffers ex_peer = 4"
  "hs_split_credits ex_peer = 2" "zero_copy_capable ex_peer" "split_mode_capable ex_peer"
  by (simp_all add: ex_peer_def zero_copy_capable_def split_mode_capable_def
      ZERO_COPY_CAPABLE_def SPLIT_MODE_CAPABLE_def)

lemma ex_setup:
  obtains s where "from_accepted 0 0 ex_fresh ex_config = Inr s" "payload_cap s = 8" "send_credits s = 4"
    "split_mode s" "map rw_id (rq (conn s)) = map recv_wr_id [0..<4]"
  by (simp add: ex_setup_run hs_ids hs_ids(3) [symmetric] ex_read_own ex_peer_frame
      post_split_recvs_def negotiate_split_def)

lemma ex_config_ok: "config_ok ex_config"
  by (simp add: config_ok_def ex_config_def recv_wr_count_def recv_base_count_def CTRL_RECV_SLACK_def
      split_slack_def slot_bound_def u32_max_def)

lemma ex_fresh_ok: "fresh_conn ex_fresh"
  by (simp add: fresh_conn_def below_brk_def ex_fresh_def)

end
