(* ===== verification/Release.thy ===== *)
theory Release
  imports Blocking
begin

text \<open>
  No call waits forever once the peer goes away. The blocking calls busy-poll the completion
  queue and look at the CM channel every \<open>CM_DISCONNECT_POLL_SPINS\<close> empty polls; when that
  channel has a disconnect, a device removal, a connect error or a failure in store, every
  one of them returns.
\<close>

section \<open>Busy-waits end when the peer goes away\<close>

definition ends_wait :: "cm_poll \<Rightarrow> bool" where
  "ends_wait p \<longleftrightarrow>
     (case p of CmEvent e \<Rightarrow> ev_type e = Disconnected \<or> ev_type e = DeviceRemoval \<or> ev_type e = ConnectError
      | CmNoEvent \<Rightarrow> False | CmFail \<Rightarrow> True)"

text \<open>The stream watches the CM channel, and the end of the connection is on its way.\<close>

definition end_pending :: "hord_stream \<Rightarrow> bool" where
  "end_pending s \<longleftrightarrow> cm_watch s \<and> list_ex ends_wait (cm_events (conn s))"

lemma nic_step_cm: "cm_events (nic_step ev c) = cm_events c"
  by (cases ev) (simp_all add: report_def split: list.split)

lemma settle_cm: "cm_events (settle c) = cm_events c"
proof -
  have "cm_events (fold nic_step as c) = cm_events c" for as
    by (induction as arbitrary: c) (simp_all add: nic_step_cm)
  then show ?thesis by (simp add: settle_def split: list.split)
qed

lemma poll_cm: "cm_events (snd (poll c)) = cm_events c"
  by (simp add: poll_def Let_def settle_cm split: list.split cq_entry.split)

lemma poll_backlog_le: "backlog (snd (poll c)) \<le> backlog c"
  using backlog_settle [of c]
  by (auto simp: poll_def Let_def backlog_def split: list.splits cq_entry.splits)

lemma poll_cm_disconnect_eq:
  assumes "cm_watch s" and "cm_events (conn s) = e # es"
  defines "t \<equiv> s\<lparr>conn := (conn s)\<lparr>cm_events := es\<rparr>\<rparr>"
  shows "poll_cm_disconnect s =
    (if \<not> ends_wait e then (Inr False, t)
     else if e = CmFail then (Inl (io_err ErrOther), t) else (Inr True, t\<lparr>peer_closed := True\<rparr>))"
  unfolding t_def using assms(1,2)
  by (cases e) (simp_all add: poll_cm_disconnect_def on_conn_eq check_disconnect_def get_cm_event_def
      ends_wait_def)

text \<open>What one pump of an endpoint that is about to lose its peer gives.\<close>

definition pumped :: "hord_stream \<Rightarrow> bool res \<times> hord_stream \<Rightarrow> bool" where
  "pumped s y \<longleftrightarrow>
     isl (fst y) \<or> peer_closed (snd y)
     \<or> (backlog (conn (snd y)) < backlog (conn s) \<and> end_pending (snd y))"

lemma post_recv_slot_env [frame_simps]:
  "cm_events (conn (snd (post_recv_slot slot s))) = cm_events (conn s)"
  "cm_watch (snd (post_recv_slot slot s)) = cm_watch s"
  by (cases rule: post_recv_slot_cases [of slot s]; simp)+

lemma handle_recv_env [frame_simps]:
  "cm_events (conn (snd (handle_recv wc s))) = cm_events (conn s)"
  "cm_watch (snd (handle_recv wc s)) = cm_watch s"
  by (cases rule: handle_recv_cases [of wc s]; simp add: frame_simps snd_and_then split: sum.split)+

lemma handle_completion_env [frame_simps]:
  "cm_events (conn (snd (handle_completion wc s))) = cm_events (conn s)"
  "cm_watch (snd (handle_completion wc s)) = cm_watch s"
  by (simp_all add: handle_completion_def Let_def reclaim_send_def frame_simps)

lemma reap_pumped:
  assumes wc: "fst (poll (conn s)) = Inr (Some wc)" and e: "end_pending s"
    and b: "backlog (conn s) \<le> backlog (conn s0)"
  shows "pumped s0 (and_then (handle_completion wc (s\<lparr>conn := snd (poll (conn s))\<rparr>)) (\<lambda>_ s. (Inr True, s)))"
proof -
  let ?t = "snd (handle_completion wc (s\<lparr>conn := snd (poll (conn s))\<rparr>))"
  have "backlog (conn ?t) = backlog (snd (poll (conn s)))"
    by (simp add: backlog_def frame_simps)
  then have "backlog (conn ?t) < backlog (conn s0)" using poll_backlog [OF wc] b by simp
  moreover have "end_pending ?t" using e by (simp add: end_pending_def frame_simps poll_cm)
  ultimately show ?thesis by (simp add: pumped_def snd_and_then split: sum.split)
qed

lemma pump_loop_returns:
  assumes "end_pending s" and "spins < CM_DISCONNECT_POLL_SPINS"
    and "backlog (conn s) \<le> backlog (conn s0)"
  shows "\<exists>y. pump_loop True spins s = Some y \<and> pumped s0 y"
  using assms
proof (induction "length (cm_events (conn s)) * CM_DISCONNECT_POLL_SPINS
    + (CM_DISCONNECT_POLL_SPINS - spins)" arbitrary: s spins rule: less_induct)
  case less
  define s1 where "s1 = s\<lparr>conn := snd (poll (conn s))\<rparr>"
  have s1: "end_pending s1" "cm_events (conn s1) = cm_events (conn s)"
    "backlog (conn s1) \<le> backlog (conn s0)"
    using less.prems poll_backlog_le [of "conn s"] by (simp_all add: s1_def end_pending_def poll_cm)
  consider e where "fst (poll (conn s)) = Inl e" | "fst (poll (conn s)) = Inr None"
    | wc where "fst (poll (conn s)) = Inr (Some wc)"
    by (metis not_None_eq sum.exhaust)
  then show ?case
  proof cases
    case (1 e)
    then show ?thesis by (simp add: pump_loop.simps on_conn_eq pumped_def)
  next
    case (3 wc)
    with less.prems reap_pumped [OF 3, of s0] show ?thesis
      by (simp add: pump_loop.simps on_conn_eq)
  next
    case 2
    show ?thesis
    proof (cases "spins + 1 \<ge> CM_DISCONNECT_POLL_SPINS")
      case False
      then have "\<exists>y. pump_loop True (spins + 1) s1 = Some y \<and> pumped s0 y"
        using s1 by (intro less.hyps) auto
      with 2 False show ?thesis
        by (subst pump_loop.simps) (simp add: on_conn_eq Let_def s1_def [symmetric])
    next
      case True
      obtain e es where ev: "cm_events (conn s) = e # es"
        using less.prems(1) by (cases "cm_events (conn s)") (auto simp: end_pending_def)
      define t where "t = s1\<lparr>conn := (conn s1)\<lparr>cm_events := es\<rparr>\<rparr>"
      have q: "poll_cm_disconnect s1 = (if \<not> ends_wait e then (Inr False, t)
          else if e = CmFail then (Inl (io_err ErrOther), t) else (Inr True, t\<lparr>peer_closed := True\<rparr>))"
        unfolding t_def using s1 ev by (intro poll_cm_disconnect_eq) (auto simp: end_pending_def)
      have "\<exists>y. pump_loop True 0 t = Some y \<and> pumped s0 y" if "\<not> ends_wait e"
        using s1 ev that less.prems(2)
        by (intro less.hyps) (auto simp: t_def end_pending_def backlog_def CM_DISCONNECT_POLL_SPINS_def)
      with 2 True q show ?thesis
        by (subst pump_loop.simps) (auto simp: on_conn_eq Let_def s1_def [symmetric] pumped_def)
    qed
  qed
qed

lemma pump_returns: "end_pending s \<Longrightarrow> \<exists>y. pump True s = Some y \<and> pumped s y"
  using pump_loop_returns [of s 0 s] by (simp add: pump_def CM_DISCONNECT_POLL_SPINS_def)

section \<open>The non-blocking operations leave the wait alone\<close>

text \<open>Nothing is reaped, no CM event is consumed, and a closed stream stays closed.\<close>

definition waits_on where
  "waits_on s = (cm_events (conn s), arrivals (conn s), cq (conn s), cm_watch s)"

definition keeps_waiting :: "hord_stream \<Rightarrow> hord_stream \<Rightarrow> bool" where
  "keeps_waiting s t \<longleftrightarrow> waits_on t = waits_on s \<and> (peer_closed s \<longrightarrow> peer_closed t)"

lemma keeps_waiting_refl [simp]: "keeps_waiting s s"
  by (simp add: keeps_waiting_def)

lemma keeps_waiting_trans: "keeps_waiting s t \<Longrightarrow> keeps_waiting t u \<Longrightarrow> keeps_waiting s u"
  by (simp add: keeps_waiting_def)

lemma keeps_waiting_upd [simp]:
  "keeps_waiting s (t\<lparr>tx_stage := bs\<rparr>) = keeps_waiting s t"
  "keeps_waiting s (t\<lparr>rx_ready := ms\<rparr>) = keeps_waiting s t"
  "keeps_waiting s (t\<lparr>send_free := fs\<rparr>) = keeps_waiting s t"
  "keeps_waiting s (t\<lparr>grant_pending := n\<rparr>) = keeps_waiting s t"
  "keeps_waiting s (t\<lparr>send_credits := n\<rparr>) = keeps_waiting s t"
  "keeps_waiting s (t\<lparr>ctrl_send_busy := b\<rparr>) = keeps_waiting s t"
  "keeps_waiting s t \<Longrightarrow> keeps_waiting s (t\<lparr>peer_closed := True\<rparr>)"
  by (simp_all add: keeps_waiting_def waits_on_def)

lemma keeps_waiting_from [simp]:
  "keeps_waiting (s\<lparr>tx_stage := bs\<rparr>) t = keeps_waiting s t"
  "keeps_waiting (s\<lparr>rx_ready := ms\<rparr>) t = keeps_waiting s t"
  "keeps_waiting (s\<lparr>send_free := fs\<rparr>) t = keeps_waiting s t"
  "keeps_waiting (s\<lparr>grant_pending := n\<rparr>) t = keeps_waiting s t"
  by (simp_all add: keeps_waiting_def waits_on_def)

lemma keeps_waiting_then:
  assumes "keeps_waiting s (snd r)" and "\<And>a. fst r = Inr a \<Longrightarrow> keeps_waiting (snd r) (snd (f a (snd r)))"
  shows "keeps_waiting s (snd (and_then r f))"
  using assms keeps_waiting_trans by (auto simp: snd_and_then split: sum.split)

lemma post_into_waits: "keeps_waiting s (snd (post_into slot i e p s))"
proof -
  have "waits_on (s\<lparr>conn := snd (post_send j a l k c)\<rparr>) = waits_on (s\<lparr>conn := c\<rparr>)" for j a l k c
    by (cases rule: post_send_cases [of j a l k c]; simp add: waits_on_def)
  then show ?thesis
    by (simp add: keeps_waiting_def post_into_def Let_def on_conn_eq split: sum.split)
      (simp add: waits_on_def)
qed

lemma post_recv_slot_waits: "keeps_waiting s (snd (post_recv_slot slot s))"
  by (cases rule: post_recv_slot_cases [of slot s]) (simp_all add: keeps_waiting_def waits_on_def)

lemma post_data_message_waits: "keeps_waiting s (snd (post_data_message payload s))"
proof -
  obtain r s1 where pi: "post_into (last (send_free s)) (send_wr_id (last (send_free s)))
      \<lparr>env_length = of_nat (length payload), env_credits = of_nat (min (grant_pending s) 65535),
       env_flags = 0\<rparr> payload (s\<lparr>send_free := butlast (send_free s)\<rparr>) = (r, s1)"
    by fastforce
  then have "keeps_waiting s s1"
    using post_into_waits [of "s\<lparr>send_free := butlast (send_free s)\<rparr>"] by (metis keeps_waiting_from(3) snd_conv)
  then show ?thesis by (simp add: post_data_message_def Let_def pi split: sum.split fault.split)
qed

lemma send_credit_return_waits: "keeps_waiting s (snd (send_credit_return s))"
proof -
  obtain r s1 where pi: "post_into (ctrl_slot s) (ctrl_send_wr_id (ctrl_slot s))
      \<lparr>env_length = 0, env_credits = of_nat (min (grant_pending s) 65535), env_flags = CREDIT_ONLY\<rparr> [] s = (r, s1)"
    by fastforce
  then have "keeps_waiting s s1" using post_into_waits by (metis snd_conv)
  then show ?thesis by (simp add: send_credit_return_def Let_def pi split: sum.split fault.split)
qed

lemma maybe_return_credits_waits: "keeps_waiting s (snd (maybe_return_credits n s))"
  by (simp add: maybe_return_credits_def send_credit_return_waits)

lemma return_owed_credits_waits: "keeps_waiting s (snd (return_owed_credits u s))"
  by (simp add: return_owed_credits_def maybe_return_credits_waits)

lemma try_write_loop_waits: "keeps_waiting s (snd (try_write_loop cap input n s))"
proof (induction cap input n s rule: try_write_loop.induct)
  case (1 cap input n s)
  have "keeps_waiting s (snd (try_write_loop cap (drop cap input) (n + cap)
      (snd (post_data_message (take cap input) s))))"
    if "cap \<le> length input" "can_send_data s" "fst (post_data_message (take cap input) s) = Inr u" for u
    using 1 that post_data_message_waits [of s] by (blast intro: keeps_waiting_trans)
  then show ?case
    by (subst try_write_loop.simps)
       (auto simp: Let_def post_data_message_waits maybe_return_credits_waits intro!: keeps_waiting_then
         split: sum.split)
qed

lemma try_write_waits: "keeps_waiting s (snd (try_write buf s))"
  using post_data_message_waits [of "s\<lparr>tx_stage := []\<rparr>"]
  by (auto simp: try_write_def Let_def try_write_loop_waits maybe_return_credits_waits
      intro!: keeps_waiting_then)

lemma try_flush_stage_waits: "keeps_waiting s (snd (try_flush_stage s))"
  using post_data_message_waits [of "s\<lparr>tx_stage := []\<rparr>"]
  by (auto simp: try_flush_stage_def maybe_return_credits_waits intro!: keeps_waiting_then)

lemma try_read_loop_waits: "keeps_waiting s (snd (try_read_loop n acc s))"
proof (induction n acc s rule: try_read_loop.induct)
  case (1 n acc s)
  show ?case
  proof (cases "length acc < n \<and> rx_ready s \<noteq> []")
    case True
    then obtain m ms where rx: "length acc < n" "rx_ready s = m # ms" by (auto simp: neq_Nil_conv)
    define tk where "tk = min (rm_end m - rm_start m) (n - length acc)"
    define p where "p = post_recv_slot (rm_slot m) (s\<lparr>rx_ready := ms\<rparr>)"
    have p: "keeps_waiting s (snd p)"
      using post_recv_slot_waits [of "s\<lparr>rx_ready := ms\<rparr>" "rm_slot m"] by (simp add: p_def)
    have IH1: "keeps_waiting s (snd (try_read_loop n (acc @ bs)
        ((snd p)\<lparr>grant_pending := wrap_add32 (grant_pending (snd p)) 1\<rparr>)))"
      if "\<not> rm_end m < rm_start m" "recv_slot s (rm_slot m) = Inr bo"
        "copy_out (fst bo) (rm_start m) tk (smem s) = Inr bs" "rm_start m + tk = rm_end m" "fst p = Inr u"
      for bo bs u
      using 1(1) [OF rx that(1) tk_def that(2,3,4) p_def that(5)] p keeps_waiting_trans by auto
    have IH2: "keeps_waiting s (snd (try_read_loop n (acc @ bs)
        (s\<lparr>rx_ready := m\<lparr>rm_start := rm_start m + tk\<rparr> # ms\<rparr>)))"
      if "\<not> rm_end m < rm_start m" "recv_slot s (rm_slot m) = Inr bo"
        "copy_out (fst bo) (rm_start m) tk (smem s) = Inr bs" "rm_start m + tk \<noteq> rm_end m" for bo bs
      using 1(2) [OF rx that(1) tk_def that(2,3,4)] by simp
    show ?thesis
      by (subst try_read_loop.simps)
         (auto simp: rx Let_def tk_def [symmetric] p_def [symmetric] p IH1 IH2
           simp del: One_nat_def split: sum.split)
  next
    case False
    then show ?thesis by (auto simp: try_read_loop.simps [of n acc s])
  qed
qed

lemma try_read_waits: "keeps_waiting s (snd (try_read n s))"
  by (auto simp: try_read_def try_read_loop_waits maybe_return_credits_waits intro!: keeps_waiting_then)

lemmas waits = try_read_waits try_write_waits try_flush_stage_waits return_owed_credits_waits

section \<open>Every blocking call is released\<close>

definition pending :: "hord_stream \<Rightarrow> bool" where
  "pending s \<longleftrightarrow> end_pending s \<or> peer_closed s"

definition released :: "'a res \<times> hord_stream \<Rightarrow> bool" where
  "released y \<longleftrightarrow> isl (fst y) \<or> pending (snd y)"

lemma keeps_waitingD:
  assumes "keeps_waiting s t"
  shows "backlog (conn t) = backlog (conn s)" "end_pending t = end_pending s"
    "peer_closed s \<Longrightarrow> peer_closed t" "pending s \<Longrightarrow> pending t"
  using assms by (auto simp: keeps_waiting_def waits_on_def backlog_def end_pending_def pending_def)

text \<open>
  A waiting loop: in each round it ends, or, on an open stream, waits for one more event and
  goes round again, or it goes on with less to do.
\<close>

locale waiting_loop =
  fixes round_of :: "'i \<Rightarrow> hord_stream \<Rightarrow> ('a res \<times> hord_stream) option"
    and todo :: "'i \<Rightarrow> nat"
  assumes rounds: "pending s \<Longrightarrow>
      (\<exists>y. round_of i s = Some y \<and> released y)
      \<or> (\<not> peer_closed s \<and> (\<exists>t. keeps_waiting s t
            \<and> round_of i s = then_loop (pump True t) (\<lambda>_. round_of i)))
      \<or> (\<exists>j t. todo j < todo i \<and> keeps_waiting s t \<and> round_of i s = round_of j t)"
begin

definition ahead :: "'i \<Rightarrow> hord_stream \<Rightarrow> nat \<times> nat" where
  "ahead i s = (if peer_closed s then 0 else Suc (backlog (conn s)), todo i)"

lemma returns: "pending s \<Longrightarrow> \<exists>y. round_of i s = Some y \<and> released y"
proof (induction "ahead i s" arbitrary: i s rule: wf_induct_rule [OF wf_lex_prod [OF wf_less_than wf_less_than]])
  case (1 i s)
  from rounds [OF 1(2), of i] consider
      (ends) "\<exists>y. round_of i s = Some y \<and> released y"
    | (waits) t where "\<not> peer_closed s" "keeps_waiting s t"
        "round_of i s = then_loop (pump True t) (\<lambda>_. round_of i)"
    | (less) j t where "todo j < todo i" "keeps_waiting s t" "round_of i s = round_of j t"
    by blast
  then show ?case
  proof cases
    case waits
    have t: "end_pending t" "backlog (conn t) = backlog (conn s)"
      using keeps_waitingD [OF waits(2)] 1(2) waits(1) by (auto simp: pending_def)
    obtain y where y: "pump True t = Some y" "pumped t y" using pump_returns [OF t(1)] by blast
    show ?thesis
    proof (cases "fst y")
      case Inl
      then show ?thesis using waits(3) y(1) by (simp add: then_loop_def released_def)
    next
      case (Inr b)
      have "\<exists>z. round_of i (snd y) = Some z \<and> released z"
        using y(2) Inr t(2) waits(1) by (intro 1(1)) (auto simp: ahead_def pumped_def pending_def)
      then show ?thesis using waits(3) y(1) Inr by (simp add: then_loop_def)
    qed
  next
    case less
    have "((ahead j t), (ahead i s)) \<in> less_than <*lex*> less_than"
      using less(1) keeps_waitingD [OF less(2)] by (auto simp: ahead_def)
    from 1(1) [OF this] less show ?thesis using keeps_waitingD(4) [OF less(2) 1(2)] by simp
  qed
qed

end

interpretation reading: waiting_loop "\<lambda>n. hord_read n" "\<lambda>_. 0"
proof
  fix s i assume p: "pending s"
  let ?r = "try_read i s"
  show "(\<exists>y. hord_read i s = Some y \<and> released y) \<or> (\<not> peer_closed s \<and> (\<exists>t. keeps_waiting s t
      \<and> hord_read i s = then_loop (pump True t) (\<lambda>_. hord_read i)))
      \<or> (\<exists>j t. (0 :: nat) < 0 \<and> keeps_waiting s t \<and> hord_read i s = hord_read j t)"
  proof (cases "fst ?r = Inr None")
    case True
    then have s: "?r = (Inr None, s)" using try_read_none by (metis prod.collapse)
    define q where "q = return_owed_credits False s"
    have "\<not> peer_closed s"
      using True by (auto simp: try_read_def split: if_splits and_then_splits)
    moreover have "keeps_waiting s (snd q)" by (simp add: q_def waits)
    moreover have "hord_read i s = then_loop (Some q) (\<lambda>_ s. then_loop (pump True s) (\<lambda>_. hord_read i))"
      by (subst hord_read.simps) (simp add: s q_def)
    ultimately show ?thesis
      by (cases "fst q") (auto simp: then_loop_def [of "Some q"] released_def)
  next
    case False
    have "hord_read i s = Some (case fst ?r of Inl e \<Rightarrow> (Inl e, snd ?r) | Inr b \<Rightarrow> (Inr (the b), snd ?r))"
      using False by (subst hord_read.simps) (auto simp: then_loop_def split: sum.split option.split)
    moreover have "pending (snd ?r)" using keeps_waitingD(4) [OF try_read_waits p] .
    ultimately show ?thesis by (auto simp: released_def split: sum.split)
  qed
qed

interpretation writing: waiting_loop "\<lambda>(data, off). write_loop data off" "\<lambda>(data, off). length data - off"
proof
  fix s and i :: "bytes \<times> nat" assume p: "pending s"
  obtain data off where i: "i = (data, off)" by fastforce
  let ?r = "try_write (drop off data) s" and ?w = "\<lambda>(data, off). write_loop data off"
  note w = keeps_waitingD [OF try_write_waits [of s "drop off data"]]
  consider (finished) "\<not> off < length data" | (err) e where "off < length data" "fst ?r = Inl e"
    | (none) "off < length data" "fst ?r = Inr 0" | (some) n where "off < length data" "fst ?r = Inr n" "0 < n"
    by (metis neq0_conv sum.exhaust)
  then show "(\<exists>y. ?w i s = Some y \<and> released y) \<or> (\<not> peer_closed s \<and> (\<exists>t. keeps_waiting s t
      \<and> ?w i s = then_loop (pump True t) (\<lambda>_. ?w i)))
      \<or> (\<exists>j t. (case j of (data, off) \<Rightarrow> length data - off) < (case i of (data, off) \<Rightarrow> length data - off)
            \<and> keeps_waiting s t \<and> ?w i s = ?w j t)"
  proof cases
    case finished
    then show ?thesis using p by (simp add: i write_loop.simps [of data off] released_def)
  next
    case err
    then show ?thesis by (simp add: i write_loop.simps [of data off] then_loop_def released_def)
  next
    case none
    then have "\<not> peer_closed s" by (auto simp: try_write_def)
    moreover have "write_loop data off s = then_loop (pump True (snd ?r)) (\<lambda>_. write_loop data off)"
      using none by (simp add: write_loop.simps [of data off] then_loop_def [of "Some ?r"])
    ultimately show ?thesis using try_write_waits by (auto simp: i)
  next
    case some
    then have "write_loop data off s = write_loop data (off + n) (snd ?r)"
      by (simp add: write_loop.simps [of data off] then_loop_def)
    moreover have "length data - (off + n) < length data - off" using some by simp
    ultimately show ?thesis using try_write_waits by (auto simp: i intro!: exI [of _ data] exI [of _ "off + n"])
  qed
qed

interpretation staging: waiting_loop "\<lambda>_ :: unit. flush_stage_loop" "\<lambda>_. 0"
proof
  fix s and i :: unit assume p: "pending s"
  let ?r = "try_flush_stage s"
  have k: "keeps_waiting s (snd ?r)" by (rule waits)
  have eq: "flush_stage_loop s = then_loop (Some ?r) (\<lambda>sent s. if sent then Some (Inr (), s)
      else if peer_closed s then Some (Inl (io_err BrokenPipe), s)
      else then_loop (pump True s) (\<lambda>_ s. flush_stage_loop s))"
    by (rule flush_stage_loop.simps)
  show "(\<exists>y. flush_stage_loop s = Some y \<and> released y) \<or> (\<not> peer_closed s \<and> (\<exists>t. keeps_waiting s t
      \<and> flush_stage_loop s = then_loop (pump True t) (\<lambda>_. flush_stage_loop)))
      \<or> (\<exists>j t. (0 :: nat) < 0 \<and> keeps_waiting s t \<and> flush_stage_loop s = flush_stage_loop t)"
    using k keeps_waitingD(3,4) [OF k] p
    by (cases "fst ?r") (auto simp: eq then_loop_def [of "Some ?r"] released_def)
qed

interpretation draining: waiting_loop "\<lambda>_ :: unit. flush_drain_loop" "\<lambda>_. 0"
proof
  fix s and i :: unit assume p: "pending s"
  then show "(\<exists>y. flush_drain_loop s = Some y \<and> released y) \<or> (\<not> peer_closed s \<and> (\<exists>t. keeps_waiting s t
      \<and> flush_drain_loop s = then_loop (pump True t) (\<lambda>_. flush_drain_loop)))
      \<or> (\<exists>j t. (0 :: nat) < 0 \<and> keeps_waiting s t \<and> flush_drain_loop s = flush_drain_loop t)"
    by (auto simp: flush_drain_loop.simps [of s] released_def intro!: exI [of _ s])
qed

interpretation transfers: waiting_loop "\<lambda>_ :: unit. poll_completed_transfer" "\<lambda>_. 0"
proof
  fix s and i :: unit assume p: "pending s"
  then show "(\<exists>y. poll_completed_transfer s = Some y \<and> released y) \<or> (\<not> peer_closed s \<and> (\<exists>t. keeps_waiting s t
      \<and> poll_completed_transfer s = then_loop (pump True t) (\<lambda>_. poll_completed_transfer)))
      \<or> (\<exists>j t. (0 :: nat) < 0 \<and> keeps_waiting s t \<and> poll_completed_transfer s = poll_completed_transfer t)"
    by (cases "completed_transfers s")
       (auto simp: poll_completed_transfer.simps [of s] next_completed_transfer_def released_def
          pending_def end_pending_def intro!: exI [of _ s])
qed

lemma hord_read_returns: "pending s \<Longrightarrow> \<exists>y. hord_read n s = Some y"
  using reading.returns by blast

lemma hord_write_returns: "pending s \<Longrightarrow> \<exists>y. hord_write data s = Some y"
  using writing.returns [of s "(data, 0)"] by (auto simp: hord_write_def)

lemma hord_flush_returns:
  assumes "pending s"
  shows "\<exists>y. hord_flush s = Some y"
proof -
  obtain y where y: "flush_stage_loop s = Some y" "released y" using staging.returns [OF assms] by blast
  then show ?thesis
    using draining.returns [of "snd y"]
    by (cases "fst y") (auto simp: hord_flush_def then_loop_def released_def)
qed

lemma poll_completed_transfer_returns: "pending s \<Longrightarrow> \<exists>y. poll_completed_transfer s = Some y"
  using transfers.returns by blast

section \<open>Draining without blocking\<close>

text \<open>A drain that succeeds leaves nothing the NIC has reported.\<close>

lemma drain_loop_empty: "drain_loop n s = (Inr k, s') \<Longrightarrow>
   cq (conn s') = [] \<and> n \<le> k \<and> k + backlog (conn s') \<le> n + backlog (conn s)"
proof (induction n s rule: drain_loop.induct)
  case (1 n s)
  define p where "p = pump_nb s"
  have eq: "drain_loop n s = (case fst p of Inl e \<Rightarrow> (Inl e, snd p)
      | Inr again \<Rightarrow> if again then drain_loop (Suc n) (snd p) else (Inr n, snd p))"
    unfolding p_def by (subst drain_loop.simps) (simp only: Let_def)
  consider (more) "fst p = Inr True" | (none) "fst p = Inr False" using eq 1(2) by (cases "fst p") auto
  then show ?case
  proof cases
    case more
    then have "backlog (conn (snd p)) < backlog (conn s)" by (simp add: p_def pump_nb_backlog)
    with 1(1) [OF p_def more] 1(2) eq more show ?thesis by auto
  next
    case none
    then have "fst (poll (conn s)) = Inr None" "snd p = s\<lparr>conn := snd (poll (conn s))\<rparr>"
      by (auto simp: p_def pump_nb_def on_conn_eq fst_and_then snd_and_then split: sum.splits option.splits)
    moreover from this have "cq (snd (poll (conn s))) = []"
      by (auto simp: poll_def Let_def split: list.splits cq_entry.splits)
    ultimately show ?thesis using eq none 1(2) poll_backlog_le [of "conn s"] by auto
  qed
qed

end
