(* ===== verification/Reactor.thy ===== *)
theory Reactor
  imports Release
begin

text \<open>
  The async stream of \<open>hord-async/src/lib.rs\<close>: the reactor step that drains the completion
  queue, watches the CM channel and parks on the completion channel, and the poll functions of
  the single-task driver.

  A \<open>poll_*\<close> function returns \<open>Pending\<close> or \<open>Ready\<close> of a result, and the state it leaves. The
  tokio reactor is outside the program: what each \<open>poll_read_ready\<close> on a registered fd answers
  is a script of the state, and beyond the script the fd is not ready. \<open>None\<close> is a poll that
  does not return.
\<close>

section \<open>Polls\<close>

datatype 'a poll = Pending | Ready 'a

datatype fd_poll = FdReady | FdPending | FdError

text \<open>
  \<open>a_armed\<close> is whether the completion queue is certain to signal its channel on the next
  completion: \<open>ibv_req_notify_cq\<close> arms it once, and a completion or a signal uses that up.
\<close>

record async_stream =
  a_stream :: hord_stream
  a_cm :: bool
  a_armed :: bool
  cq_ready :: "fd_poll list"
  cm_ready :: "fd_poll list"
  arm_faults :: "bool list"

text \<open>The \<open>?\<close> operator inside a poll function.\<close>

definition poll_try :: "'a res \<times> 's \<Rightarrow> ('a \<Rightarrow> 's \<Rightarrow> 'b res poll \<times> 's) \<Rightarrow> 'b res poll \<times> 's" where
  "poll_try r f = (case fst r of Inl e \<Rightarrow> (Ready (Inl e), snd r) | Inr a \<Rightarrow> f a (snd r))"

lemma poll_try_simps [simp]:
  "poll_try (Inl e, s) f = (Ready (Inl e), s)" "poll_try (Inr a, s) f = f a s"
  by (simp_all add: poll_try_def)

definition arm_cq :: "async_stream \<Rightarrow> unit res \<times> async_stream" where
  "arm_cq a =
     (let (bad, fs) = next_fault (arm_faults a); a1 = a\<lparr>arm_faults := fs\<rparr>
      in if bad then (Inl (io_err ErrOther), a1) else (Inr (), a1\<lparr>a_armed := True\<rparr>))"

definition a_drain :: "async_stream \<Rightarrow> nat res \<times> async_stream" where
  "a_drain a =
     (let p = drain_completions (a_stream a)
      in (fst p, a\<lparr>a_stream := snd p, a_armed := (a_armed a \<and> fst p = Inr 0)\<rparr>))"

section \<open>The reactor step\<close>

text \<open>\<open>poll_cm_event\<close>: take CM events while the fd is readable, until a teardown or none is left.\<close>

fun poll_cm_loop :: "fd_poll list \<Rightarrow> hord_stream \<Rightarrow> bool res \<times> hord_stream \<times> fd_poll list" where
  "poll_cm_loop [] s = (Inr False, s, [])"
| "poll_cm_loop (FdPending # fs) s = (Inr False, s, fs)"
| "poll_cm_loop (FdError # fs) s = (Inl (io_err ErrOther), s, fs)"
| "poll_cm_loop (FdReady # fs) s =
     (let p = on_conn check_disconnect s in
      case fst p of
        Inl e \<Rightarrow> (Inl e, snd p, fs)
      | Inr gone \<Rightarrow> if gone then (Inr True, mark_closed (snd p), fs) else poll_cm_loop fs (snd p))"

definition poll_cm_event :: "async_stream \<Rightarrow> bool res \<times> async_stream" where
  "poll_cm_event a =
     (if \<not> a_cm a then (Inr False, a)
      else let p = poll_cm_loop (cm_ready a) (a_stream a)
           in (fst p, a\<lparr>a_stream := fst (snd p), cm_ready := snd (snd p)\<rparr>))"

text \<open>Step 4: park on the completion channel; a signal is consumed, re-armed and drained.\<close>

fun park_loop :: "fd_poll list \<Rightarrow> async_stream \<Rightarrow> unit res poll \<times> async_stream" where
  "park_loop [] a = (Pending, a\<lparr>cq_ready := []\<rparr>)"
| "park_loop (FdPending # fs) a = (Pending, a\<lparr>cq_ready := fs\<rparr>)"
| "park_loop (FdError # fs) a = (Ready (Inl (io_err ErrOther)), a\<lparr>cq_ready := fs\<rparr>)"
| "park_loop (FdReady # fs) a =
     poll_try (arm_cq (a\<lparr>cq_ready := fs, a_armed := False\<rparr>)) (\<lambda>_ a.
       poll_try (a_drain a) (\<lambda>drained a.
         if drained > 0 then (Ready (Inr ()), a) else park_loop fs a))"

definition poll_reactor :: "async_stream \<Rightarrow> unit res poll \<times> async_stream" where
  "poll_reactor a =
     poll_try (a_drain a) (\<lambda>drained a.
       if drained > 0 then (Ready (Inr ()), a)
       else poll_try (poll_cm_event a) (\<lambda>gone a.
         if gone then (Ready (Inr ()), a)
         else poll_try (arm_cq a) (\<lambda>_ a.
           poll_try (a_drain a) (\<lambda>drained a.
             if drained > 0 then (Ready (Inr ()), a) else park_loop (cq_ready a) a))))"

section \<open>The poll functions of the single-task driver\<close>

text \<open>
  Each is the loop: try the non-blocking operation, resolve when it has an answer, else step
  the reactor and try again once that advanced. An attempt without an answer is \<open>Inr None\<close>.
\<close>

definition on_stream ::
  "(hord_stream \<Rightarrow> 'a res \<times> hord_stream) \<Rightarrow> async_stream \<Rightarrow> 'a res \<times> async_stream" where
  "on_stream f a = (let p = f (a_stream a) in (fst p, a\<lparr>a_stream := snd p\<rparr>))"

partial_function (option) poll_until ::
  "(hord_stream \<Rightarrow> 'a option res \<times> hord_stream) \<Rightarrow> async_stream
     \<Rightarrow> ('a res poll \<times> async_stream) option" where
  "poll_until attempt a =
     (let p = on_stream attempt a in
      case fst p of
        Inl e \<Rightarrow> Some (Ready (Inl e), snd p)
      | Inr (Some x) \<Rightarrow> Some (Ready (Inr x), snd p)
      | Inr None \<Rightarrow>
          (let q = poll_reactor (snd p) in
           case fst q of
             Pending \<Rightarrow> Some (Pending, snd q)
           | Ready (Inl e) \<Rightarrow> Some (Ready (Inl e), snd q)
           | Ready (Inr _) \<Rightarrow> poll_until attempt (snd q)))"

text \<open>\<open>n\<close> is the unfilled part of the read buffer; what is read is the answer, \<open>[]\<close> for EOF.\<close>

definition try_read_into :: "nat \<Rightarrow> hord_stream \<Rightarrow> bytes option res \<times> hord_stream" where
  "try_read_into n s =
     and_then (try_read n s) (\<lambda>got s.
       case got of
         Some bs \<Rightarrow> (Inr (Some bs), s)
       | None \<Rightarrow> and_then (return_owed_credits True s) (\<lambda>_ s. (Inr None, s)))"

definition try_write_from :: "bytes \<Rightarrow> hord_stream \<Rightarrow> nat option res \<times> hord_stream" where
  "try_write_from buf s =
     and_then (try_write buf s) (\<lambda>n s. (Inr (if n > 0 then Some n else None), s))"

definition poll_flush_ready :: "hord_stream \<Rightarrow> unit option res \<times> hord_stream" where
  "poll_flush_ready s =
     and_then (try_flush_stage s) (\<lambda>stage_clear s.
       if stage_clear \<and> \<not> sends_outstanding s \<and> \<not> writes_pending s then (Inr (Some ()), s)
       else if is_closed s then (Inl (io_err BrokenPipe), s)
       else (Inr None, s))"

definition next_transfer :: "hord_stream \<Rightarrow> u32 option option res \<times> hord_stream" where
  "next_transfer s =
     (case next_completed_transfer s of
        (Some i, s') \<Rightarrow> (Inr (Some (Some i)), s')
      | (None, s') \<Rightarrow> (Inr (if is_closed s' then Some None else None), s'))"

definition poll_read :: "nat \<Rightarrow> async_stream \<Rightarrow> (bytes res poll \<times> async_stream) option" where
  "poll_read n = poll_until (try_read_into n)"

definition poll_write :: "bytes \<Rightarrow> async_stream \<Rightarrow> (nat res poll \<times> async_stream) option" where
  "poll_write buf a =
     (if buf = [] then Some (Ready (Inr 0), a) else poll_until (try_write_from buf) a)"

definition poll_flush :: "async_stream \<Rightarrow> (unit res poll \<times> async_stream) option" where
  "poll_flush = poll_until poll_flush_ready"

definition poll_split_completion ::
  "async_stream \<Rightarrow> (u32 option res poll \<times> async_stream) option" where
  "poll_split_completion = poll_until next_transfer"

definition poll_shutdown :: "async_stream \<Rightarrow> (unit res poll \<times> async_stream) option" where
  "poll_shutdown a =
     map_option (\<lambda>(r, a). case r of
         Ready (Inr _) \<Rightarrow> (Ready (Inr ()), a\<lparr>a_stream := stream_disconnect (a_stream a)\<rparr>)
       | _ \<Rightarrow> (r, a)) (poll_flush a)"

section \<open>What the reactor step does\<close>

text \<open>Completions and CM readiness the reactor can still report.\<close>

definition a_work :: "async_stream \<Rightarrow> nat" where
  "a_work a = backlog (conn (a_stream a)) + length (cm_ready a)"

lemma a_drain_cases:
  assumes "a_drain a = (Inr k, b)"
  shows "cq (conn (a_stream b)) = []" "k + a_work b \<le> a_work a"
    "cm_ready b = cm_ready a" "a_armed b = (a_armed a \<and> k = 0)"
proof -
  obtain s where s: "drain_completions (a_stream a) = (Inr k, s)"
    and b: "b = a\<lparr>a_stream := s, a_armed := (a_armed a \<and> k = 0)\<rparr>"
    using assms by (cases "drain_completions (a_stream a)") (auto simp: a_drain_def Let_def)
  show "cq (conn (a_stream b)) = []" "k + a_work b \<le> a_work a" "cm_ready b = cm_ready a"
    "a_armed b = (a_armed a \<and> k = 0)"
    using drain_loop_empty [of 0 "a_stream a" k s] s by (simp_all add: b a_work_def drain_completions_def)
qed

lemma arm_cq_cases:
  obtains (ok) fs where "arm_cq a = (Inr (), a\<lparr>arm_faults := fs, a_armed := True\<rparr>)"
  | (failed) fs where "arm_cq a = (Inl (io_err ErrOther), a\<lparr>arm_faults := fs\<rparr>)"
  by (cases "next_fault (arm_faults a)"; cases "fst (next_fault (arm_faults a))")
     (auto simp: arm_cq_def Let_def)

lemma check_disconnect_backlog: "backlog (snd (check_disconnect c)) = backlog c"
  by (simp add: check_disconnect_def get_cm_event_def backlog_def split: list.split cm_poll.split)

lemma poll_cm_loop_cases:
  assumes "poll_cm_loop fs s = (r, t, fs')"
  shows "backlog (conn t) = backlog (conn s)" "length fs' \<le> length fs"
    "r = Inr True \<Longrightarrow> length fs' < length fs \<and> peer_closed t"
    "cq (conn t) = cq (conn s)"
proof -
  have cq: "cq (snd (check_disconnect c)) = cq c" for c
    by (simp add: check_disconnect_def get_cm_event_def split: list.split cm_poll.split)
  have "backlog (conn t) = backlog (conn s) \<and> length fs' \<le> length fs
      \<and> (r = Inr True \<longrightarrow> length fs' < length fs \<and> peer_closed t) \<and> cq (conn t) = cq (conn s)"
    using assms
    by (induction fs s arbitrary: t rule: poll_cm_loop.induct)
       (fastforce simp: Let_def on_conn_eq check_disconnect_backlog mark_closed_def cq split: sum.splits if_splits)+
  then show "backlog (conn t) = backlog (conn s)" "length fs' \<le> length fs"
    "r = Inr True \<Longrightarrow> length fs' < length fs \<and> peer_closed t" "cq (conn t) = cq (conn s)"
    by auto
qed

lemma poll_cm_event_cases:
  assumes "poll_cm_event a = (r, b)"
  shows "a_work b \<le> a_work a" "r = Inr True \<Longrightarrow> a_work b < a_work a \<and> peer_closed (a_stream b)"
  using assms poll_cm_loop_cases [of "cm_ready a" "a_stream a"]
  by (auto simp: poll_cm_event_def Let_def a_work_def split: if_splits)
    (metis prod.collapse add_mono order_refl nat_add_left_cancel_less)+

text \<open>
  A parked task is never forgotten: it parks with the completion queue empty and armed, so the
  next completion signals the channel. And a step that advanced has used up some of the work.
\<close>

lemma park_loop_cases:
  assumes "park_loop fs a = (r, b)" and "a_armed a" and "cq (conn (a_stream a)) = []"
  shows "(r = Pending \<longrightarrow> a_armed b \<and> cq (conn (a_stream b)) = [])
    \<and> (r = Ready (Inr ()) \<longrightarrow> a_work b < a_work a)"
  using assms
proof (induction fs arbitrary: a)
  case (Cons f fs)
  show ?case
  proof (cases f)
    case FdReady
    note run = Cons.prems(1) [unfolded FdReady]
    show ?thesis
    proof (cases rule: arm_cq_cases [of "a\<lparr>cq_ready := fs, a_armed := False\<rparr>"])
      case (ok gs)
      define a1 where "a1 = a\<lparr>cq_ready := fs, arm_faults := gs, a_armed := True\<rparr>"
      have step: "park_loop (FdReady # fs) a = poll_try (a_drain a1) (\<lambda>drained a.
          if drained > 0 then (Ready (Inr ()), a) else park_loop fs a)"
        by (simp add: ok a1_def)
      have w: "a_work a1 = a_work a" by (simp add: a_work_def a1_def)
      obtain q c where d: "a_drain a1 = (q, c)" by fastforce
      show ?thesis
      proof (cases q)
        case (Inr k)
        note D = a_drain_cases [OF d [unfolded Inr]]
        have "park_loop fs c = (r, b)" "a_armed c" if "k = 0"
          using that run step d Inr D(4) by (simp_all add: a1_def)
        then show ?thesis
          using Cons.IH [of c] D run step d Inr w by (cases "k = 0") auto
      qed (use run step d in auto)
    qed (use run in auto)
  qed (use Cons.prems in auto)
qed auto

lemma poll_reactor_cases:
  assumes "poll_reactor a = (r, b)"
  shows "r = Pending \<Longrightarrow> a_armed b \<and> cq (conn (a_stream b)) = []"
    and "r = Ready (Inr ()) \<Longrightarrow> a_work b < a_work a"
proof -
  have "(r = Pending \<longrightarrow> a_armed b \<and> cq (conn (a_stream b)) = []) \<and> (r = Ready (Inr ()) \<longrightarrow> a_work b < a_work a)"
  proof -
    obtain q1 a1 where d1: "a_drain a = (q1, a1)" by fastforce
    obtain q2 a2 where d2: "poll_cm_event a1 = (q2, a2)" by fastforce
    obtain q3 a3 where d3: "arm_cq a2 = (q3, a3)" by fastforce
    obtain q4 a4 where d4: "a_drain a3 = (q4, a4)" by fastforce
    have w3: "a_work a3 = a_work a2" "q3 = Inr () \<longrightarrow> a_armed a3"
      using d3 by (cases rule: arm_cq_cases [of a2]; auto simp: a_work_def)+
    note run = assms [unfolded poll_reactor_def d1]
    show ?thesis
    proof (cases "q1 = Inr 0 \<and> q2 = Inr False \<and> q3 = Inr () \<and> q4 = Inr 0")
      case True
      then have "park_loop (cq_ready a4) a4 = (r, b)" using run d2 d3 d4 by simp
      moreover have "a_armed a4" "cq (conn (a_stream a4)) = []" "a_work a4 \<le> a_work a"
        using a_drain_cases [of a3 0 a4] a_drain_cases [of a 0 a1] poll_cm_event_cases [OF d2] d1 d4 True w3
        by auto
      ultimately show ?thesis using park_loop_cases [of "cq_ready a4" a4 r b] by auto
    next
      case False
      have ne: "r \<noteq> Pending"
        using run d2 d3 d4 False by (auto simp: poll_try_def split: sum.splits if_splits)
      moreover have "a_work b < a_work a" if "r = Ready (Inr ())"
        using run d2 d3 d4 that False w3 a_drain_cases [of a _ a1] a_drain_cases [of a3 _ a4]
          poll_cm_event_cases [OF d2] d1
        by (fastforce simp: poll_try_def split: sum.splits if_splits)
      ultimately show ?thesis by blast
    qed
  qed
  then show "r = Pending \<Longrightarrow> a_armed b \<and> cq (conn (a_stream b)) = []"
    and "r = Ready (Inr ()) \<Longrightarrow> a_work b < a_work a" by auto
qed

section \<open>The driver loop\<close>

text \<open>
  A driver loop that does not reap on its own always comes back: it resolves, or it parks.
\<close>

lemma poll_until_returns:
  assumes "\<And>s. keeps_waiting s (snd (attempt s))"
  shows "\<exists>y. poll_until attempt a = Some y"
proof (induction "a_work a" arbitrary: a rule: less_induct)
  case less
  define b where "b = snd (on_stream attempt a)"
  have b: "a_work b = a_work a"
    using keeps_waitingD(1) [OF assms, of "a_stream a"] by (simp add: b_def on_stream_def Let_def a_work_def)
  obtain r c where q: "poll_reactor b = (r, c)" by fastforce
  have "\<exists>y. poll_until attempt c = Some y" if "r = Ready (Inr ())"
    using poll_reactor_cases(2) [OF q that] b by (intro less) simp
  then show ?case
    by (subst poll_until.simps)
       (auto simp: Let_def b_def [symmetric] q split: sum.split option.split poll.split)
qed

text \<open>
  Where a driver loop ends: at a state it reached by attempts without an answer and by steps
  of the reactor.
\<close>

definition ends_at ::
  "(hord_stream \<Rightarrow> 'a option res \<times> hord_stream) \<Rightarrow> 'a res poll \<times> async_stream \<Rightarrow> async_stream \<Rightarrow> bool" where
  "ends_at attempt y b \<longleftrightarrow>
     (case fst y of
        Pending \<Rightarrow> poll_reactor b = (Pending, snd y)
      | Ready (Inr x) \<Rightarrow> on_stream attempt b = (Inr (Some x), snd y)
      | Ready (Inl e) \<Rightarrow> on_stream attempt b = (Inl e, snd y) \<or> poll_reactor b = (Ready (Inl e), snd y))"

lemma poll_until_ends:
  assumes run: "poll_until attempt a = Some y" and inv: "I (a_stream a)"
    and att: "\<And>s. I s \<Longrightarrow> fst (attempt s) = Inr None \<Longrightarrow> I (snd (attempt s))"
    and rea: "\<And>b. I (a_stream b) \<Longrightarrow> I (a_stream (snd (poll_reactor b)))"
  shows "\<exists>b. I (a_stream b) \<and> ends_at attempt y b"
proof -
  have "(\<forall>s. I s \<longrightarrow> fst (attempt s) = Inr None \<longrightarrow> I (snd (attempt s))) \<longrightarrow> I (a_stream a) \<longrightarrow>
      (\<exists>b. I (a_stream b) \<and> ends_at attempt y b)"
    using run
  proof (induction attempt a y rule: poll_until.raw_induct [rotated, consumes 1, case_names 1])
    case (1 f attempt a y)
    define p where "p = on_stream attempt a"
    define q where "q = poll_reactor (snd p)"
    note body = 1(2) [unfolded Let_def, folded p_def, folded q_def]
    show ?case
    proof (intro impI)
      assume A: "\<forall>s. I s \<longrightarrow> fst (attempt s) = Inr None \<longrightarrow> I (snd (attempt s))" and a: "I (a_stream a)"
      show "\<exists>b. I (a_stream b) \<and> ends_at attempt y b"
      proof (cases "fst p = Inr None")
        case True
        then have I: "I (a_stream (snd p))" "I (a_stream (snd q))"
          using A a rea by (simp_all add: p_def q_def on_stream_def Let_def)
        consider "fst q = Pending" | e where "fst q = Ready (Inl e)" | "fst q = Ready (Inr ())"
          by (metis poll.exhaust sum.exhaust unit.exhaust)
        then show ?thesis
        proof cases
          case 3
          then show ?thesis using 1(1) [of attempt "snd q" y] body True A I(2) by simp
        qed (use body True I(1) in \<open>auto simp: ends_at_def q_def intro!: exI [of _ "snd p"]\<close>,
             (metis prod.collapse)+)
      next
        case False
        then show ?thesis
          using body a
          by (auto simp: ends_at_def p_def intro!: exI [of _ a] split: sum.splits option.splits)
             (metis prod.collapse)+
      qed
    qed
  qed
  with inv att show ?thesis by blast
qed

end
