(* ===== verification/Async_Stream.thy ===== *)
theory Async_Stream
  imports Reactor Write_Safety
begin

text \<open>
  The async stream keeps what the blocking stream keeps: every poll function preserves the
  invariants and never panics, reads and writes are in order, end of file is only reported on
  a closed and drained connection, and a flush resolves only when nothing is left to send.
\<close>

section \<open>Invariants through the reactor\<close>

context pump_property
begin

lemma poll_cm_loop_pres: "P s \<Longrightarrow> P (fst (snd (poll_cm_loop fs s)))"
proof (induction fs arbitrary: s)
  case (Cons f fs)
  have "P (snd (on_conn check_disconnect s))"
    using Cons.prems P_cm [of s]
    by (auto simp: on_conn_eq check_disconnect_def get_cm_event_def split: list.split cm_poll.split)
  then show ?case
    using Cons P_closed by (cases f) (auto simp: Let_def mark_closed_def split: sum.split)
qed simp

lemma poll_cm_event_pres: "P (a_stream a) \<Longrightarrow> P (a_stream (snd (poll_cm_event a)))"
  by (simp add: poll_cm_event_def Let_def poll_cm_loop_pres)

lemma a_drain_pres: "P (a_stream a) \<Longrightarrow> P (a_stream (snd (a_drain a)))"
  by (simp add: a_drain_def Let_def drain_completions_pres)

lemma arm_cq_pres: "P (a_stream a) \<Longrightarrow> P (a_stream (snd (arm_cq a)))"
  by (cases rule: arm_cq_cases [of a]) simp_all

lemma poll_try_pres:
  assumes "P (a_stream (snd r))" and "\<And>x. fst r = Inr x \<Longrightarrow> P (a_stream (snd (f x (snd r))))"
  shows "P (a_stream (snd (poll_try r f)))"
  using assms by (simp add: poll_try_def split: sum.split)

lemma park_loop_pres: "P (a_stream a) \<Longrightarrow> P (a_stream (snd (park_loop fs a)))"
proof (induction fs arbitrary: a)
  case (Cons f fs)
  define a1 where "a1 = snd (arm_cq (a\<lparr>cq_ready := fs, a_armed := False\<rparr>))"
  have a1: "P (a_stream a1)"
    using arm_cq_pres [of "a\<lparr>cq_ready := fs, a_armed := False\<rparr>"] Cons.prems by (simp add: a1_def)
  note a2 = a_drain_pres [OF a1]
  have "P (a_stream (snd (park_loop (FdReady # fs) a)))"
    unfolding park_loop.simps
    by (intro poll_try_pres; fold a1_def) (use a1 a2 Cons.IH [OF a2] in simp_all)
  then show ?case using Cons.prems by (cases f) simp_all
qed simp

lemma poll_reactor_pres:
  assumes "P (a_stream a)"
  shows "P (a_stream (snd (poll_reactor a)))"
proof -
  note a1 = a_drain_pres [OF assms]
  note a2 = poll_cm_event_pres [OF a1]
  note a3 = arm_cq_pres [OF a2]
  note a4 = a_drain_pres [OF a3]
  note a5 = park_loop_pres [OF a4]
  show ?thesis
    by (simp add: poll_reactor_def poll_try_def a1 a2 a3 a4 a5 split: sum.split)
qed

end

definition poll_outcome :: "(hord_stream \<Rightarrow> bool) \<Rightarrow> 'a res poll \<times> async_stream \<Rightarrow> bool" where
  "poll_outcome P y \<longleftrightarrow> P (a_stream (snd y)) \<and> fst y \<noteq> Ready (Inl Panic)"

context stream_safe
begin

lemma poll_cm_loop_safe: "fst (poll_cm_loop fs s) \<noteq> Inl Panic"
proof (induction fs arbitrary: s)
  case (Cons f fs)
  have "fst (check_disconnect c) \<noteq> Inl Panic" for c
    by (simp add: check_disconnect_def get_cm_event_def split: list.split cm_poll.split)
  with Cons show ?case by (cases f) (auto simp: Let_def on_conn_eq split: sum.split)
qed simp

lemma a_drain_safe: "P (a_stream a) \<Longrightarrow> fst (a_drain a) \<noteq> Inl Panic"
  by (simp add: a_drain_def Let_def drain_completions_def drain_loop_safe)

lemma arm_cq_safe: "fst (arm_cq a) \<noteq> Inl Panic"
  by (cases rule: arm_cq_cases [of a]) simp_all

lemma poll_try_safe:
  assumes "fst r \<noteq> Inl Panic" and "\<And>x. fst r = Inr x \<Longrightarrow> fst (f x (snd r)) \<noteq> Ready (Inl Panic)"
  shows "fst (poll_try r f) \<noteq> Ready (Inl Panic)"
  using assms by (auto simp: poll_try_def split: sum.split)

lemma park_loop_safe: "P (a_stream a) \<Longrightarrow> fst (park_loop fs a) \<noteq> Ready (Inl Panic)"
proof (induction fs arbitrary: a)
  case (Cons f fs)
  define p where "p = arm_cq (a\<lparr>cq_ready := fs, a_armed := False\<rparr>)"
  have p: "fst p \<noteq> Inl Panic" "P (a_stream (snd p))"
    using arm_cq_pres [of "a\<lparr>cq_ready := fs, a_armed := False\<rparr>"] arm_cq_safe Cons.prems
    by (simp_all add: p_def)
  note d = a_drain_safe [OF p(2)] Cons.IH [OF a_drain_pres [OF p(2)]]
  have "fst (park_loop (FdReady # fs) a) \<noteq> Ready (Inl Panic)"
    unfolding park_loop.simps
    by (fold p_def, rule poll_try_safe [OF p(1)], rule poll_try_safe [OF d(1)]) (simp add: d(2))
  then show ?case using Cons.prems by (cases f) simp_all
qed simp

lemma poll_reactor_safe:
  assumes "P (a_stream a)"
  shows "poll_outcome P (poll_reactor a)"
proof -
  have cm: "fst (poll_cm_event b) \<noteq> Inl Panic" for b
    by (simp add: poll_cm_event_def Let_def poll_cm_loop_safe)
  note a1 = a_drain_pres [OF assms]
  note a2 = poll_cm_event_pres [OF a1]
  note a3 = arm_cq_pres [OF a2]
  note a4 = a_drain_pres [OF a3]
  have "fst (poll_reactor a) \<noteq> Ready (Inl Panic)"
    using a_drain_safe [OF assms] cm [of "snd (a_drain a)"] arm_cq_safe a_drain_safe [OF a3]
      park_loop_safe [OF a4]
    by (auto simp: poll_reactor_def poll_try_def split: sum.split)
  with poll_reactor_pres [OF assms] show ?thesis by (simp add: poll_outcome_def)
qed

lemma poll_until_safe:
  assumes run: "poll_until attempt a = Some y" and P: "P (a_stream a)"
    and att: "\<And>s. P s \<Longrightarrow> safe_outcome P (attempt s)"
  shows "poll_outcome P y"
proof -
  obtain b where b: "P (a_stream b)" "ends_at attempt y b"
    using poll_until_ends [OF run, of P] P att poll_reactor_pres by (auto simp: safe_outcome_def)
  have "safe_outcome P (attempt (a_stream b))" and r: "poll_outcome P (poll_reactor b)"
    using b(1) att poll_reactor_safe by auto
  then have "P (a_stream (snd (on_stream attempt b)))" "fst (on_stream attempt b) \<noteq> Inl Panic"
    by (simp_all add: on_stream_def Let_def safe_outcome_def)
  with b(2) r show ?thesis
    by (cases y; cases "fst y"; cases rule: sum.exhaust [of "case fst y of Ready x \<Rightarrow> x"])
       (auto simp: ends_at_def poll_outcome_def)
qed

lemma attempts_safe:
  assumes "P s"
  shows "safe_outcome P (try_read_into n s)" "safe_outcome P (try_write_from buf s)"
    "safe_outcome P (poll_flush_ready s)" "safe_outcome P (next_transfer s)"
proof -
  have then_safe: "safe_outcome P (and_then r f)"
    if "safe_outcome P r" "\<And>x t. r = (Inr x, t) \<Longrightarrow> P t \<Longrightarrow> safe_outcome P (f x t)" for r :: "'x res \<times> hord_stream"
      and f :: "'x \<Rightarrow> hord_stream \<Rightarrow> 'y res \<times> hord_stream"
    using that by (cases r; cases "fst r") (auto simp: safe_outcome_def)
  show "safe_outcome P (try_read_into n s)"
    unfolding try_read_into_def using nonblocking_safe assms
    by (auto intro!: then_safe split: option.split)
  show "safe_outcome P (try_write_from buf s)"
    unfolding try_write_from_def using nonblocking_safe assms by (auto intro!: then_safe)
  show "safe_outcome P (poll_flush_ready s)"
    unfolding poll_flush_ready_def using nonblocking_safe assms by (auto intro!: then_safe)
  show "safe_outcome P (next_transfer s)"
    using next_completed_transfer_pres [OF assms] assms
    by (auto simp: next_transfer_def safe_outcome_def split: prod.split option.split)
qed

lemma poll_functions_safe:
  assumes "P (a_stream a)"
  shows "poll_read n a = Some r \<Longrightarrow> poll_outcome P r" "poll_write buf a = Some w \<Longrightarrow> poll_outcome P w"
    "poll_flush a = Some f \<Longrightarrow> poll_outcome P f" "poll_split_completion a = Some t \<Longrightarrow> poll_outcome P t"
proof -
  show "poll_read n a = Some r \<Longrightarrow> poll_outcome P r"
    unfolding poll_read_def by (rule poll_until_safe [OF _ assms attempts_safe(1)])
  have "poll_until (try_write_from buf) a = Some w \<Longrightarrow> poll_outcome P w"
    by (rule poll_until_safe [OF _ assms attempts_safe(2)])
  then show "poll_write buf a = Some w \<Longrightarrow> poll_outcome P w"
    using assms by (auto simp: poll_write_def poll_outcome_def split: if_splits)
  show "poll_flush a = Some f \<Longrightarrow> poll_outcome P f"
    unfolding poll_flush_def by (rule poll_until_safe [OF _ assms attempts_safe(3)])
  show "poll_split_completion a = Some t \<Longrightarrow> poll_outcome P t"
    unfolding poll_split_completion_def by (rule poll_until_safe [OF _ assms attempts_safe(4)])
qed

end

section \<open>The byte stream through the poll functions\<close>

lemma poll_reactor_rx:
  assumes "queue_ok (a_stream b)"
  shows "queue_ok (a_stream (snd (poll_reactor b)))
    \<and> (\<exists>new. rx_bytes (a_stream (snd (poll_reactor b))) = rx_bytes (a_stream b) @ new)"
  using rx_grows.poll_reactor_pres [of b "rx_bytes (a_stream b)"] assms by auto

lemma poll_reactor_tx:
  assumes "queue_ok (a_stream b)"
  shows "queue_ok (a_stream (snd (poll_reactor b)))
    \<and> (\<exists>sent. tx_bytes (a_stream b) = sent @ tx_bytes (a_stream (snd (poll_reactor b))))"
  using tx_drains.poll_reactor_pres [of b "tx_stage (a_stream b)" "tx_queue (a_stream b)"] assms
  by (auto simp: tx_bytes_queue)

lemma try_read_into_cases:
  assumes "queue_ok s" and "try_read_into n s = (Inr r, t)"
  shows "case r of Some bs \<Rightarrow> read_law n s bs t | None \<Rightarrow> queue_ok t \<and> rx_bytes t = rx_bytes s"
proof -
  from assms(2) obtain got u where tr: "try_read n s = (Inr got, u)"
    and k: "(case got of Some bs \<Rightarrow> (Inr (Some bs), u)
       | None \<Rightarrow> and_then (return_owed_credits True u) (\<lambda>_ s. (Inr None, s))) = (Inr r, t)"
    unfolding try_read_into_def by (elim and_then_InrD)
  show ?thesis
  proof (cases got)
    case (Some bs)
    then show ?thesis using k tr try_read_law [OF assms(1), of n bs u] by auto
  next
    case None
    then have "u = s" using tr try_read_none by simp
    then show ?thesis
      using k None queue.return_owed_credits_pres [OF assms(1), of True]
        return_owed_credits_rx [OF assms(1), of True]
      by (auto elim!: and_then_InrD)
  qed
qed

lemma poll_read_law:
  assumes q: "queue_ok (a_stream a)" and run: "poll_read n a = Some (r, b)"
  shows "queue_ok (a_stream b)"
    and "r = Ready (Inr bs) \<Longrightarrow> read_law n (a_stream a) bs (a_stream b)"
    and "r = Pending \<Longrightarrow> \<exists>new. rx_bytes (a_stream b) = rx_bytes (a_stream a) @ new"
proof -
  show "queue_ok (a_stream b)"
    using queue.poll_functions_safe(1) [OF q run] by (simp add: poll_outcome_def)
  let ?I = "\<lambda>s. queue_ok s \<and> (\<exists>new. rx_bytes s = rx_bytes (a_stream a) @ new)"
  obtain c where c: "?I (a_stream c)" "ends_at (try_read_into n) (r, b) c"
  proof (rule exE [OF poll_until_ends [OF run [unfolded poll_read_def], of ?I]])
    show "?I (a_stream (snd (poll_reactor b)))" if "?I (a_stream b)" for b
      using poll_reactor_rx [of b] that by auto
    show "?I (snd (try_read_into n s))" if "?I s" "fst (try_read_into n s) = Inr None" for s
      using try_read_into_cases [of s n None "snd (try_read_into n s)"] that
      by (cases "try_read_into n s") auto
  qed (use q in auto)
  show "read_law n (a_stream a) bs (a_stream b)" if "r = Ready (Inr bs)"
  proof -
    have "try_read_into n (a_stream c) = (Inr (Some bs), a_stream b)"
      using c(2) that
      by (cases "try_read_into n (a_stream c)") (auto simp: ends_at_def on_stream_def Let_def)
    then show ?thesis
      using try_read_into_cases [of "a_stream c" n "Some bs" "a_stream b"] c(1) read_law_prefix by auto
  qed
  show "\<exists>new. rx_bytes (a_stream b) = rx_bytes (a_stream a) @ new" if "r = Pending"
    using c poll_reactor_rx [of c] that by (auto simp: ends_at_def)
qed

lemma try_write_from_cases:
  assumes "queue_ok s" and "try_write_from buf s = (Inr r, t)"
  shows "queue_ok t"
    and "case r of Some n \<Rightarrow> 0 < n \<and> n \<le> length buf \<and> tx_bytes t = tx_bytes s @ take n buf
      | None \<Rightarrow> tx_bytes t = tx_bytes s"
proof -
  from assms(2) obtain n where "try_write buf s = (Inr n, t)" "r = (if n > 0 then Some n else None)"
    unfolding try_write_from_def by (auto elim!: and_then_InrD)
  moreover from this have "n \<le> length buf" "tx_bytes t = tx_bytes s @ take n buf"
    using try_write_refines [of s buf n t] assms(1) by (simp_all add: queue_ok_def)
  moreover have "queue_ok t" using queue.try_write_pres [OF assms(1), of buf] calculation(1) by simp
  ultimately show "queue_ok t"
    and "case r of Some n \<Rightarrow> 0 < n \<and> n \<le> length buf \<and> tx_bytes t = tx_bytes s @ take n buf
      | None \<Rightarrow> tx_bytes t = tx_bytes s" by auto
qed

lemma poll_write_law:
  assumes q: "queue_ok (a_stream a)" and run: "poll_write buf a = Some (Ready (Inr n), b)"
  shows "n \<le> length buf \<and> (buf \<noteq> [] \<longrightarrow> 0 < n) \<and> write_law (take n buf) (a_stream a) (a_stream b)"
proof (cases "buf = []")
  case True
  then show ?thesis using run by (auto simp: poll_write_def write_law_def)
next
  case False
  then have run: "poll_until (try_write_from buf) a = Some (Ready (Inr n), b)"
    using run by (simp add: poll_write_def)
  let ?I = "\<lambda>s. queue_ok s \<and> (\<exists>sent. tx_bytes (a_stream a) = sent @ tx_bytes s)"
  obtain c where c: "?I (a_stream c)" "ends_at (try_write_from buf) (Ready (Inr n), b) c"
  proof (rule exE [OF poll_until_ends [OF run, of ?I]])
    show "?I (a_stream (snd (poll_reactor b)))" if "?I (a_stream b)" for b
      using poll_reactor_tx [of b] that by (metis append.assoc)
    show "?I (snd (try_write_from buf s))" if "?I s" "fst (try_write_from buf s) = Inr None" for s
      using try_write_from_cases [of s buf None "snd (try_write_from buf s)"] that
      by (cases "try_write_from buf s") auto
  qed (use q in auto)
  have "try_write_from buf (a_stream c) = (Inr (Some n), a_stream b)"
    using c(2)
    by (cases "try_write_from buf (a_stream c)") (auto simp: ends_at_def on_stream_def Let_def)
  then show ?thesis
    using try_write_from_cases(2) [of "a_stream c" buf "Some n" "a_stream b"] c(1)
    by (auto simp: write_law_def)
qed

lemma poll_flush_law:
  assumes q: "queue_ok (a_stream a)" and run: "poll_flush a = Some (Ready (Inr ()), b)"
  shows "tx_bytes (a_stream b) = [] \<and> \<not> sends_outstanding (a_stream b) \<and> \<not> writes_pending (a_stream b)"
proof -
  have qb: "queue_ok (a_stream b)"
    using queue.poll_functions_safe(3) [OF q run] by (simp add: poll_outcome_def)
  obtain c where c: "ends_at poll_flush_ready (Ready (Inr ()), b) c"
    using poll_until_ends [OF run [unfolded poll_flush_def], of "\<lambda>_. True"] by blast
  have "poll_flush_ready (a_stream c) = (Inr (Some ()), a_stream b)"
    using c by (cases "poll_flush_ready (a_stream c)") (auto simp: ends_at_def on_stream_def Let_def)
  then have "tx_stage (a_stream b) = []" "\<not> sends_outstanding (a_stream b)" "\<not> writes_pending (a_stream b)"
    using try_flush_stage_sent [of "a_stream c"]
    by (auto simp: poll_flush_ready_def split: if_splits elim!: and_then_InrD)
  then show ?thesis
    using no_sends_outstanding [of "a_stream b"] qb by (auto simp: tx_bytes_queue queue_ok_def)
qed

section \<open>Every poll comes back\<close>

lemma try_read_into_waits: "keeps_waiting s (snd (try_read_into n s))"
  unfolding try_read_into_def
  by (intro keeps_waiting_then try_read_waits)
     (auto intro!: keeps_waiting_then return_owed_credits_waits split: option.split)

lemma try_write_from_waits: "keeps_waiting s (snd (try_write_from buf s))"
  unfolding try_write_from_def by (intro keeps_waiting_then try_write_waits) simp

lemma poll_flush_ready_waits: "keeps_waiting s (snd (poll_flush_ready s))"
  unfolding poll_flush_ready_def by (intro keeps_waiting_then try_flush_stage_waits) simp

lemma next_transfer_waits: "keeps_waiting s (snd (next_transfer s))"
  by (simp add: next_transfer_def next_completed_transfer_def keeps_waiting_def waits_on_def split: list.split)

lemma polls_return:
  "\<exists>r b. poll_read n a = Some (r, b)" "\<exists>r b. poll_write buf a = Some (r, b)"
  "\<exists>r b. poll_flush a = Some (r, b)" "\<exists>r b. poll_split_completion a = Some (r, b)"
  "\<exists>r b. poll_shutdown a = Some (r, b)"
proof -
  show "\<exists>r b. poll_read n a = Some (r, b)" "\<exists>r b. poll_write buf a = Some (r, b)"
    "\<exists>r b. poll_split_completion a = Some (r, b)"
    using poll_until_returns [of "try_read_into n"] poll_until_returns [of "try_write_from buf"]
      poll_until_returns [of next_transfer] try_read_into_waits try_write_from_waits next_transfer_waits
    by (auto simp: poll_read_def poll_write_def poll_split_completion_def)
  show "\<exists>r b. poll_flush a = Some (r, b)"
    using poll_until_returns [of poll_flush_ready] poll_flush_ready_waits by (auto simp: poll_flush_def)
  then show "\<exists>r b. poll_shutdown a = Some (r, b)" by (auto simp: poll_shutdown_def)
qed

section \<open>A parked task will be woken\<close>

text \<open>
  A reactor step that parks has changed nothing the operations look at: only the connection
  moved on. So the operation that parked still has nothing to do, the completion queue is
  empty, and the next completion signals the channel.
\<close>

definition only_conn :: "hord_stream \<Rightarrow> hord_stream \<Rightarrow> bool" where
  "only_conn s t \<longleftrightarrow> t = s\<lparr>conn := conn t\<rparr>"

lemma only_conn_refl [simp]: "only_conn s s" "only_conn s (s\<lparr>conn := c\<rparr>)"
  by (simp_all add: only_conn_def)

lemma only_conn_trans: "only_conn s t \<Longrightarrow> only_conn t u \<Longrightarrow> only_conn s u"
  by (metis only_conn_def hord_stream.surjective hord_stream.update_convs(1))

lemma drain_loop_none: "drain_loop n s = (Inr n, s') \<Longrightarrow> only_conn s s'"
proof -
  assume r: "drain_loop n s = (Inr n, s')"
  define p where "p = pump_nb s"
  have eq: "drain_loop n s = (case fst p of Inl e \<Rightarrow> (Inl e, snd p)
      | Inr again \<Rightarrow> if again then drain_loop (Suc n) (snd p) else (Inr n, snd p))"
    unfolding p_def by (subst drain_loop.simps) (simp only: Let_def)
  have "fst p \<noteq> Inr True"
    using eq r drain_loop_empty [of "Suc n" "snd p" n s'] by auto
  then have no: "fst p = Inr False" "s' = snd p" using eq r by (auto split: sum.splits)
  then have "snd p = s\<lparr>conn := snd (poll (conn s))\<rparr>"
    by (auto simp: p_def pump_nb_def on_conn_eq fst_and_then snd_and_then split: sum.splits option.splits)
  with no show ?thesis by simp
qed

lemma a_drain_none: "a_drain a = (Inr 0, b) \<Longrightarrow> only_conn (a_stream a) (a_stream b)"
  using drain_loop_none [of 0 "a_stream a"]
  by (cases "drain_loop 0 (a_stream a)") (auto simp: a_drain_def Let_def drain_completions_def)

lemma arm_cq_stream [simp]: "a_stream (snd (arm_cq a)) = a_stream a"
  by (cases rule: arm_cq_cases [of a]) simp_all

lemma poll_cm_event_none:
  assumes "poll_cm_event a = (Inr False, b)"
  shows "only_conn (a_stream a) (a_stream b)"
proof -
  have "only_conn s (fst (snd (poll_cm_loop fs s)))" if "fst (poll_cm_loop fs s) = Inr False" for fs s
    using that
  proof (induction fs arbitrary: s)
    case (Cons f fs)
    have "only_conn s (snd (on_conn check_disconnect s))" by (simp add: on_conn_eq)
    then show ?case
      using Cons by (cases f) (auto simp: Let_def intro: only_conn_trans split: sum.splits if_splits)
  qed simp
  from this [of "cm_ready a" "a_stream a"] assms show ?thesis
    by (auto simp: poll_cm_event_def Let_def split: if_splits)
qed

lemma park_loop_none: "park_loop fs a = (Pending, b) \<Longrightarrow> only_conn (a_stream a) (a_stream b)"
proof (induction fs arbitrary: a)
  case (Cons f fs)
  show ?case
  proof (cases f)
    case FdReady
    define a1 where "a1 = arm_cq (a\<lparr>cq_ready := fs, a_armed := False\<rparr>)"
    define a2 where "a2 = a_drain (snd a1)"
    have "park_loop (FdReady # fs) a = poll_try a1 (\<lambda>_ a. poll_try (a_drain a) (\<lambda>drained a.
         if drained > 0 then (Ready (Inr ()), a) else park_loop fs a))"
      by (simp add: a1_def)
    then have "fst a2 = Inr 0" "park_loop fs (snd a2) = (Pending, b)"
      using Cons.prems FdReady
      by (auto simp: poll_try_def a2_def [symmetric] split: sum.splits if_splits)
    moreover from this have "a_drain (snd a1) = (Inr 0, snd a2)" by (metis a2_def prod.collapse)
    from a_drain_none [OF this] have "only_conn (a_stream a) (a_stream (snd a2))" by (simp add: a1_def)
    ultimately show ?thesis using Cons.IH only_conn_trans by blast
  qed (use Cons.prems in auto)
qed auto

lemma poll_reactor_none:
  assumes "poll_reactor a = (Pending, b)"
  shows "only_conn (a_stream a) (a_stream b)"
proof -
  obtain q1 a1 where d1: "a_drain a = (q1, a1)" by fastforce
  obtain q2 a2 where d2: "poll_cm_event a1 = (q2, a2)" by fastforce
  obtain q3 a3 where d3: "arm_cq a2 = (q3, a3)" by fastforce
  obtain q4 a4 where d4: "a_drain a3 = (q4, a4)" by fastforce
  note run = assms [unfolded poll_reactor_def d1]
  have q: "q1 = Inr 0" "q2 = Inr False" "q4 = Inr 0" "park_loop (cq_ready a4) a4 = (Pending, b)"
    using run d2 d3 d4 by (auto simp: poll_try_def split: sum.splits if_splits)
  have "a_stream a3 = a_stream a2" using arm_cq_stream [of a2] d3 by simp
  then show ?thesis
    using a_drain_none [of a a1] poll_cm_event_none [of a1 a2] a_drain_none [of a3 a4]
      park_loop_none [OF q(4)] d1 d2 d4 q
    by (auto intro: only_conn_trans)
qed

text \<open>A driver loop parks after a vain attempt, from a state its operations lead to.\<close>

lemma poll_until_parks_at:
  assumes run: "poll_until attempt a = Some (Pending, b)" and inv: "I (a_stream a)"
    and att: "\<And>s. I s \<Longrightarrow> fst (attempt s) = Inr None \<Longrightarrow> I (snd (attempt s))"
    and rea: "\<And>b. I (a_stream b) \<Longrightarrow> I (a_stream (snd (poll_reactor b)))"
  shows "\<exists>s t. I s \<and> attempt s = (Inr None, t) \<and> only_conn t (a_stream b)"
proof -
  have "(\<forall>s. I s \<longrightarrow> fst (attempt s) = Inr None \<longrightarrow> I (snd (attempt s))) \<longrightarrow> I (a_stream a) \<longrightarrow> fst y = Pending \<longrightarrow>
      (\<exists>s t. I s \<and> attempt s = (Inr None, t) \<and> only_conn t (a_stream (snd y)))"
    if "poll_until attempt a = Some y" for y
    using that
  proof (induction attempt a y rule: poll_until.raw_induct [rotated, consumes 1, case_names 1])
    case (1 f attempt a y)
    define p where "p = on_stream attempt a"
    define q where "q = poll_reactor (snd p)"
    note body = 1(2) [unfolded Let_def, folded p_def, folded q_def]
    have p: "attempt (a_stream a) = (fst p, a_stream (snd p))" by (simp add: p_def on_stream_def Let_def)
    show ?case
    proof (intro impI)
      assume A: "\<forall>s. I s \<longrightarrow> fst (attempt s) = Inr None \<longrightarrow> I (snd (attempt s))"
        and a: "I (a_stream a)" and y: "fst y = Pending"
      show "\<exists>s t. I s \<and> attempt s = (Inr None, t) \<and> only_conn t (a_stream (snd y))"
      proof (cases "fst p = Inr None")
        case True
        then have "I (a_stream (snd p))" using A a p by (metis fst_conv snd_conv)
        then have I: "I (a_stream (snd q))" using rea by (simp add: q_def)
        consider "fst q = Pending" | e where "fst q = Ready (Inl e)" | "fst q = Ready (Inr ())"
          by (metis poll.exhaust sum.exhaust unit.exhaust)
        then show ?thesis
        proof cases
          case 1
          then have "y = (Pending, snd q)" "poll_reactor (snd p) = (Pending, snd q)"
            using body True by (simp, metis prod.collapse q_def)
          then have "only_conn (a_stream (snd p)) (a_stream (snd y))" by (simp add: poll_reactor_none)
          with p a True show ?thesis by metis
        next
          case 3
          then show ?thesis using 1(1) [of attempt "snd q" y] body True y A I by simp
        qed (use body True y in auto)
      next
        case False
        then show ?thesis using body y by (cases "fst p"; cases "projr (fst p)") auto
      qed
    qed
  qed
  from this [OF run] att inv show ?thesis by simp
qed

text \<open>The state a driver loop parks in: armed, with nothing unreaped, and after a vain attempt.\<close>

lemma poll_until_parks:
  assumes "poll_until attempt a = Some (Pending, b)"
  shows "a_armed b \<and> cq (conn (a_stream b)) = []"
    and "\<exists>s t. attempt s = (Inr None, t) \<and> only_conn t (a_stream b)"
proof -
  obtain c where "poll_reactor c = (Pending, b)"
    using poll_until_ends [OF assms, of "\<lambda>_. True"] by (auto simp: ends_at_def)
  then show "a_armed b \<and> cq (conn (a_stream b)) = []" using poll_reactor_cases(1) by blast
  show "\<exists>s t. attempt s = (Inr None, t) \<and> only_conn t (a_stream b)"
    using poll_until_parks_at [OF assms, of "\<lambda>_. True"] by blast
qed

lemma only_conn_view:
  assumes "only_conn s t"
  shows "rx_ready t = rx_ready s" "peer_closed t = peer_closed s"
    "completed_transfers t = completed_transfers s" "send_free t = send_free s"
proof -
  obtain c where "t = s\<lparr>conn := c\<rparr>" using assms by (metis only_conn_def)
  then show "rx_ready t = rx_ready s" "peer_closed t = peer_closed s"
    "completed_transfers t = completed_transfers s" "send_free t = send_free s" by simp_all
qed

lemma send_credit_return_ok:
  assumes "send_credit_return s = (Inr (), t)"
  shows "rx_ready t = rx_ready s \<and> peer_closed t = peer_closed s"
proof -
  obtain r s1 where pi: "post_into (ctrl_slot s) (ctrl_send_wr_id (ctrl_slot s))
      \<lparr>env_length = 0, env_credits = of_nat (min (grant_pending s) 65535), env_flags = CREDIT_ONLY\<rparr> [] s = (r, s1)"
    by fastforce
  moreover obtain c where "s1 = s\<lparr>conn := c\<rparr>" using pi post_into_frame by (metis snd_conv)
  ultimately show ?thesis
    using assms by (simp add: send_credit_return_def Let_def split: if_splits sum.splits fault.splits) auto
qed

lemma try_read_into_none:
  assumes "try_read_into n s = (Inr None, t)"
  shows "0 < n \<and> rx_ready t = [] \<and> \<not> peer_closed t"
proof -
  from assms obtain u where tr: "try_read n s = (Inr None, u)"
    and cr: "return_owed_credits True u = (Inr (), t)"
    unfolding try_read_into_def by (auto split: option.splits elim!: and_then_InrD)
  have us: "u = s" using try_read_none [OF tr] .
  have "0 < n \<and> rx_ready s = [] \<and> \<not> peer_closed s"
  proof (cases "n = 0 \<or> rx_ready s = []")
    case False
    then have "and_then (try_read_loop n [] s) (\<lambda>bs s. and_then
        (maybe_return_credits (proactive_threshold s) s) (\<lambda>_ s. (Inr (Some bs), s))) = (Inr None, u)"
      using tr by (simp add: try_read_def)
    then show ?thesis by (auto elim!: and_then_InrD)
  qed (use tr in \<open>auto simp: try_read_def split: if_splits\<close>)
  moreover have "rx_ready t = rx_ready s \<and> peer_closed t = peer_closed s"
    using cr us send_credit_return_ok [of s t]
    by (auto simp: return_owed_credits_def maybe_return_credits_def split: if_splits)
  ultimately show ?thesis by simp
qed

lemma next_transfer_none:
  "next_transfer s = (Inr None, t) \<Longrightarrow> t = s \<and> completed_transfers t = [] \<and> \<not> peer_closed t"
  by (auto simp: next_transfer_def next_completed_transfer_def is_closed_def split: list.splits if_splits)

lemma poll_flush_ready_none:
  "poll_flush_ready s = (Inr None, t) \<Longrightarrow> \<not> peer_closed t"
  by (auto simp: poll_flush_ready_def is_closed_def split: if_splits elim!: and_then_InrD)

lemma poll_read_parks:
  assumes "poll_read n a = Some (Pending, b)"
  shows "a_armed b \<and> cq (conn (a_stream b)) = [] \<and> rx_ready (a_stream b) = [] \<and> \<not> peer_closed (a_stream b)"
proof -
  note p = poll_until_parks [OF assms [unfolded poll_read_def]]
  from p(2) obtain s t where t: "try_read_into n s = (Inr None, t)" "only_conn t (a_stream b)" by blast
  from try_read_into_none [OF t(1)] only_conn_view [OF t(2)] p(1) show ?thesis by simp
qed

lemma poll_split_parks:
  assumes "poll_split_completion a = Some (Pending, b)"
  shows "a_armed b \<and> cq (conn (a_stream b)) = [] \<and> completed_transfers (a_stream b) = []
    \<and> \<not> peer_closed (a_stream b)"
proof -
  note p = poll_until_parks [OF assms [unfolded poll_split_completion_def]]
  from p(2) obtain s t where t: "next_transfer s = (Inr None, t)" "only_conn t (a_stream b)" by blast
  from next_transfer_none [OF t(1)] only_conn_view [OF t(2)] p(1) show ?thesis by auto
qed

section \<open>Room to send\<close>

text \<open>
  What sending and reading leave of the room to send: no slot and no credit comes back, and a
  stage that cannot be sent does not shrink. Only a drain makes room.
\<close>

definition no_new_room :: "hord_stream \<Rightarrow> hord_stream \<Rightarrow> bool" where
  "no_new_room s t \<longleftrightarrow> length (send_free t) \<le> length (send_free s)
     \<and> (\<not> can_send_data s \<longrightarrow> \<not> can_send_data t \<and> length (tx_stage s) \<le> length (tx_stage t))"

lemma no_new_room_refl [simp]: "no_new_room s s"
  by (simp add: no_new_room_def)

lemma no_new_room_trans: "no_new_room s t \<Longrightarrow> no_new_room t u \<Longrightarrow> no_new_room s u"
  by (auto simp: no_new_room_def)

lemma no_new_room_then:
  assumes "no_new_room s (snd r)" and "\<And>a. fst r = Inr a \<Longrightarrow> no_new_room (snd r) (snd (f a (snd r)))"
  shows "no_new_room s (snd (and_then r f))"
  using assms by (auto simp: snd_and_then intro: no_new_room_trans split: sum.split)

lemma send_credit_return_room: "no_new_room s (snd (send_credit_return s))"
proof -
  obtain r s1 where pi: "post_into (ctrl_slot s) (ctrl_send_wr_id (ctrl_slot s))
      \<lparr>env_length = 0, env_credits = of_nat (min (grant_pending s) 65535), env_flags = CREDIT_ONLY\<rparr> [] s = (r, s1)"
    by fastforce
  moreover obtain c where "s1 = s\<lparr>conn := c\<rparr>" using pi post_into_frame by (metis snd_conv)
  ultimately show ?thesis
    by (auto simp: send_credit_return_def Let_def no_new_room_def can_send_data_def split: sum.split fault.split)
qed

lemma maybe_return_credits_room: "no_new_room s (snd (maybe_return_credits k s))"
  by (simp add: maybe_return_credits_def send_credit_return_room)

lemma post_data_message_room: "length (send_free (snd (post_data_message payload s))) \<le> length (send_free s)"
proof -
  obtain r s1 where pi: "post_into (last (send_free s)) (send_wr_id (last (send_free s)))
      \<lparr>env_length = of_nat (length payload), env_credits = of_nat (min (grant_pending s) 65535),
       env_flags = 0\<rparr> payload (s\<lparr>send_free := butlast (send_free s)\<rparr>) = (r, s1)"
    by fastforce
  moreover obtain c where "s1 = (s\<lparr>send_free := butlast (send_free s)\<rparr>)\<lparr>conn := c\<rparr>"
    using pi post_into_frame by (metis snd_conv)
  ultimately show ?thesis
    by (simp add: post_data_message_def Let_def split: sum.split fault.split)
qed

lemma post_data_message_no_new_room:
  "can_send_data s \<Longrightarrow> no_new_room s (snd (post_data_message payload (s\<lparr>tx_stage := bs\<rparr>)))"
  "can_send_data s \<Longrightarrow> no_new_room s (snd (post_data_message payload s))"
  using post_data_message_room [of payload "s\<lparr>tx_stage := bs\<rparr>"] post_data_message_room [of payload s]
  by (simp_all add: no_new_room_def)

lemma try_write_loop_room: "no_new_room s (snd (try_write_loop cap input n s))"
proof (induction cap input n s rule: try_write_loop.induct)
  case (1 cap input n s)
  let ?p = "post_data_message (take cap input) s"
  have "no_new_room s (snd (try_write_loop cap (drop cap input) (n + cap) (snd ?p)))"
    if "cap \<le> length input" "can_send_data s" "fst ?p = Inr u" for u
    using 1 that post_data_message_no_new_room(2) [of s "take cap input"] by (auto intro: no_new_room_trans)
  moreover have "no_new_room s (s\<lparr>tx_stage := tx_stage s @ input\<rparr>)"
    by (simp add: no_new_room_def can_send_data_def)
  ultimately show ?case
    using post_data_message_no_new_room(2) [of s "take cap input"] maybe_return_credits_room [of s 1]
    by (subst try_write_loop.simps) (auto simp: Let_def intro!: no_new_room_then split: sum.split)
qed

lemma try_write_from_room: "no_new_room s (snd (try_write_from buf s))"
proof -
  have "no_new_room s (s\<lparr>tx_stage := tx_stage s @ buf\<rparr>)" by (simp add: no_new_room_def can_send_data_def)
  then have "no_new_room s (snd (try_write buf s))"
    by (auto simp: try_write_def Let_def post_data_message_no_new_room maybe_return_credits_room
        try_write_loop_room intro!: no_new_room_then)
  then show ?thesis unfolding try_write_from_def by (rule no_new_room_then) simp
qed

lemma poll_flush_ready_room: "no_new_room s (snd (poll_flush_ready s))"
proof -
  have "no_new_room s (snd (try_flush_stage s))"
    by (auto simp: try_flush_stage_def post_data_message_no_new_room maybe_return_credits_room
        intro!: no_new_room_then)
  then show ?thesis unfolding poll_flush_ready_def by (rule no_new_room_then) simp
qed

lemma maybe_return_credits_stage:
  "tx_stage (snd (maybe_return_credits k s)) = tx_stage s" "payload_cap (snd (maybe_return_credits k s)) = payload_cap s"
proof -
  obtain r s1 where pi: "post_into (ctrl_slot s) (ctrl_send_wr_id (ctrl_slot s))
      \<lparr>env_length = 0, env_credits = of_nat (min (grant_pending s) 65535), env_flags = CREDIT_ONLY\<rparr> [] s = (r, s1)"
    by fastforce
  moreover obtain c where "s1 = s\<lparr>conn := c\<rparr>" using pi post_into_frame by (metis snd_conv)
  ultimately show "tx_stage (snd (maybe_return_credits k s)) = tx_stage s" "payload_cap (snd (maybe_return_credits k s)) = payload_cap s"
    by (simp_all add: maybe_return_credits_def send_credit_return_def Let_def split: sum.split fault.split)
qed


text \<open>The room a writer waits for, and what a flush waits for.\<close>

definition stage_full :: "bytes \<Rightarrow> hord_stream \<Rightarrow> bool" where
  "stage_full buf s \<longleftrightarrow> \<not> can_send_data s \<and> payload_cap s \<le> length (tx_stage s) + length buf"

definition unflushed :: "hord_stream \<Rightarrow> bool" where
  "unflushed s \<longleftrightarrow> sends_outstanding s \<or> writes_pending s \<or> tx_stage s \<noteq> [] \<and> \<not> can_send_data s"

lemma try_write_loop_grows: "fst (try_write_loop cap input n s) = Inr k \<Longrightarrow> n \<le> k"
proof (induction cap input n s arbitrary: k rule: try_write_loop.induct)
  case (1 cap input n s)
  show ?case
    using 1(2) 1(1) [OF _ _ refl, of _ k]
    by (subst (asm) try_write_loop.simps)
       (fastforce simp: Let_def fst_and_then split: if_splits sum.splits)
qed

lemma try_write_loop_zero: "try_write_loop cap input n s = (Inr 0, t) \<Longrightarrow> n = 0"
  using try_write_loop_grows [of cap input n s 0] by simp

lemma try_write_from_none:
  assumes "queue_ok s" and "buf \<noteq> []" and "try_write_from buf s = (Inr None, t)"
  shows "\<not> peer_closed t \<and> stage_full buf t"
proof -
  have tw: "try_write buf s = (Inr 0, t)"
    using assms(3) by (auto simp: try_write_from_def split: if_splits elim!: and_then_InrD)
  have cap: "length (tx_stage s) < payload_cap s" using assms(1) stream_okD by (simp add: queue_ok_def)
  have full: "\<not> can_send_data s \<and> payload_cap s \<le> length (tx_stage s) + length buf
      \<and> maybe_return_credits 1 s = (Inr (), t)"
  proof (cases "tx_stage s = []")
    case True
    then show ?thesis
      using tw cap assms(2)
      by (auto simp: try_write_def try_write_loop.simps [of _ _ 0] Let_def elim!: and_then_InrD
          dest!: try_write_loop_zero split: if_splits sum.splits)
  next
    case False
    then show ?thesis
      using tw cap assms(2)
      by (auto simp: try_write_def Let_def elim!: and_then_InrD dest!: try_write_loop_zero split: if_splits)
  qed
  moreover have "\<not> peer_closed s" using tw by (auto simp: try_write_def)
  ultimately show ?thesis
    using maybe_return_credits_room [of s 1] maybe_return_credits_stage [of 1 s] send_credit_return_ok [of s t]
    by (auto simp: stage_full_def no_new_room_def maybe_return_credits_def split: if_splits)
qed

lemma poll_flush_ready_unflushed:
  assumes "poll_flush_ready s = (Inr None, t)"
  shows "unflushed t"
proof -
  from assms obtain clear where c: "try_flush_stage s = (Inr clear, t)"
    and n: "\<not> (clear \<and> \<not> sends_outstanding t \<and> \<not> writes_pending t)"
    by (auto simp: poll_flush_ready_def split: if_splits elim!: and_then_InrD)
  show ?thesis
  proof (cases clear)
    case False
    then have "tx_stage s \<noteq> []" "\<not> can_send_data s" "t = snd (maybe_return_credits 1 s)"
      using c by (auto simp: try_flush_stage_def split: if_splits elim!: and_then_InrD)
    then show ?thesis
      using maybe_return_credits_room [of s 1] maybe_return_credits_stage [of 1 s]
      by (auto simp: unflushed_def no_new_room_def)
  qed (use n in \<open>auto simp: unflushed_def\<close>)
qed

lemma only_conn_send_view:
  assumes "only_conn s t"
  shows "stage_full buf t = stage_full buf s" "unflushed t = unflushed s"
proof -
  obtain c where "t = s\<lparr>conn := c\<rparr>" using assms by (metis only_conn_def)
  then show "stage_full buf t = stage_full buf s" "unflushed t = unflushed s"
    by (simp_all add: stage_full_def unflushed_def can_send_data_def sends_outstanding_def writes_pending_def)
qed

lemma poll_write_parks:
  assumes "poll_write buf a = Some (Pending, b)" and "queue_ok (a_stream a)"
  shows "a_armed b \<and> cq (conn (a_stream b)) = [] \<and> stage_full buf (a_stream b) \<and> \<not> peer_closed (a_stream b)"
proof -
  have ne: "buf \<noteq> []" and run: "poll_until (try_write_from buf) a = Some (Pending, b)"
    using assms(1) by (auto simp: poll_write_def split: if_splits)
  obtain s t where t: "queue_ok s" "try_write_from buf s = (Inr None, t)" "only_conn t (a_stream b)"
    using poll_until_parks_at [OF run, of queue_ok] assms(2) queue.poll_reactor_pres queue.attempts_safe(2)
    by (auto simp: safe_outcome_def)
  from try_write_from_none [OF t(1) ne t(2)] only_conn_view(2) [OF t(3)] only_conn_send_view(1) [OF t(3)]
    poll_until_parks(1) [OF run]
  show ?thesis by simp
qed

lemma poll_flush_parks:
  assumes "poll_flush a = Some (Pending, b)"
  shows "a_armed b \<and> cq (conn (a_stream b)) = [] \<and> unflushed (a_stream b) \<and> \<not> peer_closed (a_stream b)"
proof -
  note p = poll_until_parks [OF assms [unfolded poll_flush_def]]
  from p(2) obtain s t where t: "poll_flush_ready s = (Inr None, t)" "only_conn t (a_stream b)" by blast
  from poll_flush_ready_unflushed [OF t(1)] poll_flush_ready_none [OF t(1)] only_conn_view(2) [OF t(2)]
    only_conn_send_view(2) [OF t(2)] p(1)
  show ?thesis by simp
qed

end
