(* ===== verification/Write_Future.thy ===== *)
theory Write_Future
  imports Async_Stream
begin

text \<open>
  One-sided writes as futures: \<open>poll_rdma_write\<close> posts a batch and drains it across polls,
  \<open>SharedAsyncStream::drive_write\<close> walks the batches of a long gather list, and its cancel guard
  tears the queue pair down when the future is dropped with requests in flight.
\<close>

section \<open>One-sided writes as futures\<close>

record pending_write =
  pw_segments :: "Gather.write_segment list"
  pw_addr :: nat
  pw_rkey :: u32
  pw_imm :: "u32 option"
  pw_outcome :: "unit res option"

text \<open>The post attempt of \<open>poll_rdma_write\<close>; its answer is the outcome of the post.\<close>

definition post_attempt :: "pending_write \<Rightarrow> hord_stream \<Rightarrow> unit res option res \<times> hord_stream" where
  "post_attempt w s =
     (let p = (case pw_imm w of
                 Some i \<Rightarrow> begin_rdma_write_gather_with_imm (pw_segments w) (pw_addr w) (pw_rkey w) i s
               | None \<Rightarrow> begin_rdma_write_gather (pw_segments w) (pw_addr w) (pw_rkey w) s)
      in case fst p of
           Inl Panic \<Rightarrow> (Inl Panic, snd p)
         | Inl (IoError k i) \<Rightarrow>
             if k = WouldBlock
             then if \<not> sends_outstanding (snd p) \<and> \<not> writes_pending (snd p)
                  then (Inl (io_err ErrOther), snd p) else (Inr None, snd p)
             else (Inr (Some (Inl (IoError k i))), snd p)
         | Inr u \<Rightarrow> (Inr (Some (Inr u)), snd p))"

definition drain_attempt :: "hord_stream \<Rightarrow> unit option res \<times> hord_stream" where
  "drain_attempt s = (Inr (if writes_pending s then None else Some ()), s)"

definition poll_rdma_write ::
  "pending_write \<Rightarrow> async_stream \<Rightarrow> (unit res poll \<times> pending_write \<times> async_stream) option" where
  "poll_rdma_write w a =
     Option.bind (case pw_outcome w of
                    Some r \<Rightarrow> Some (Ready (Inr r), a) | None \<Rightarrow> poll_until (post_attempt w) a)
       (\<lambda>(posted, a1).
          case posted of
            Pending \<Rightarrow> Some (Pending, w, a1)
          | Ready (Inl e) \<Rightarrow> Some (Ready (Inl e), w, a1)
          | Ready (Inr r) \<Rightarrow>
              Option.bind (poll_until drain_attempt a1) (\<lambda>(drained, a2).
                case drained of
                  Pending \<Rightarrow> Some (Pending, w\<lparr>pw_outcome := Some r\<rparr>, a2)
                | Ready (Inl e) \<Rightarrow> Some (Ready (Inl e), w\<lparr>pw_outcome := Some r\<rparr>, a2)
                | Ready (Inr _) \<Rightarrow>
                    (case r of
                       Inl e \<Rightarrow> Some (Ready (Inl e), w\<lparr>pw_outcome := None\<rparr>, a2)
                     | Inr _ \<Rightarrow>
                         Some (Ready (if is_closed (a_stream a2) then Inl (io_err BrokenPipe) else Inr ()),
                               w\<lparr>pw_outcome := None\<rparr>, a2))))"

text \<open>
  The \<open>drive_write\<close> future between polls: the batch it is on (where it ends, its bytes and the
  write it drives), and whether the cancel guard is armed.
\<close>

record write_future =
  wf_segments :: "Gather.write_segment list"
  wf_addr :: nat
  wf_rkey :: u32
  wf_imm :: "u32 option"
  wf_start :: nat
  wf_base :: nat
  wf_batch :: "(nat \<times> nat \<times> pending_write) option"
  wf_armed :: bool

definition drive_write ::
  "Gather.write_segment list \<Rightarrow> nat \<Rightarrow> u32 \<Rightarrow> u32 option \<Rightarrow> write_future" where
  "drive_write segments raddr rkey imm =
     \<lparr>wf_segments = segments, wf_addr = raddr, wf_rkey = rkey, wf_imm = imm,
      wf_start = 0, wf_base = 0, wf_batch = None, wf_armed = True\<rparr>"

definition plan_batch :: "write_future \<Rightarrow> hord_stream \<Rightarrow> write_future res" where
  "plan_batch f s =
     (case (if wf_segments f = [] then Inr (0, 0)
            else next_gather_batch s (wf_segments f) (wf_start f)) of
        Inl e \<Rightarrow> Inl e
      | Inr (n, n_bytes) \<Rightarrow>
          let fin = wf_start f + n; is_last = (wf_segments f = [] \<or> fin = length (wf_segments f)) in
          if \<not> (wf_segments f = [] \<or> fin \<le> length (wf_segments f)) then Inl Panic
          else Inr (f\<lparr>wf_batch := Some (fin, n_bytes,
                 \<lparr>pw_segments = (if wf_segments f = [] then [] else subslice (wf_segments f) (wf_start f) fin),
                  pw_addr = wrap64 (wf_addr f + wf_base f), pw_rkey = wf_rkey f,
                  pw_imm = (if is_last then wf_imm f else None), pw_outcome = None\<rparr>)\<rparr>))"

partial_function (option) poll_drive_write ::
  "write_future \<Rightarrow> async_stream \<Rightarrow> (unit res poll \<times> write_future \<times> async_stream) option" where
  "poll_drive_write f a =
     (case wf_batch f of
        None \<Rightarrow> (case plan_batch f (a_stream a) of
                   Inl e \<Rightarrow> Some (Ready (Inl e), f\<lparr>wf_armed := (e = Panic)\<rparr>, a)
                 | Inr f' \<Rightarrow> poll_drive_write f' a)
      | Some (fin, n_bytes, w) \<Rightarrow>
          Option.bind (poll_rdma_write w a) (\<lambda>(r, w', a').
            case r of
              Pending \<Rightarrow> Some (Pending, f\<lparr>wf_batch := Some (fin, n_bytes, w')\<rparr>, a')
            | Ready (Inl e) \<Rightarrow>
                Some (Ready (Inl e), f\<lparr>wf_batch := Some (fin, n_bytes, w'), wf_armed := (e = Panic)\<rparr>, a')
            | Ready (Inr _) \<Rightarrow>
                if wf_segments f = [] \<or> fin = length (wf_segments f)
                then Some (Ready (Inr ()), f\<lparr>wf_batch := Some (fin, n_bytes, w'), wf_armed := False\<rparr>, a')
                else poll_drive_write (f\<lparr>wf_start := fin, wf_base := wf_base f + n_bytes, wf_batch := None\<rparr>) a'))"

text \<open>\<open>WriteCancelGuard::drop\<close>.\<close>

definition cancel_write :: "write_future \<Rightarrow> async_stream \<Rightarrow> async_stream" where
  "cancel_write f a =
     (if wf_armed f \<and> writes_pending (a_stream a)
      then a\<lparr>a_stream := force_teardown (a_stream a)\<rparr> else a)"

section \<open>One batch\<close>

definition begin_batch :: "pending_write \<Rightarrow> hord_stream \<Rightarrow> unit res \<times> hord_stream" where
  "begin_batch w = begin_rdma_write_gather_inner (pw_segments w) (pw_addr w) (pw_rkey w) (pw_imm w)"

lemma post_attempt_eq:
  "post_attempt w s =
     (let p = begin_batch w s
      in case fst p of
           Inl Panic \<Rightarrow> (Inl Panic, snd p)
         | Inl (IoError k i) \<Rightarrow>
             if k = WouldBlock
             then if \<not> sends_outstanding (snd p) \<and> \<not> writes_pending (snd p)
                  then (Inl (io_err ErrOther), snd p) else (Inr None, snd p)
             else (Inr (Some (Inl (IoError k i))), snd p)
         | Inr u \<Rightarrow> (Inr (Some (Inr u)), snd p))"
  by (simp add: post_attempt_def begin_batch_def begin_rdma_write_gather_def
      begin_rdma_write_gather_with_imm_def split: option.split)

lemma post_attempt_state: "snd (post_attempt w s) = snd (begin_batch w s)"
  by (simp add: post_attempt_eq Let_def split: sum.split fault.split)

lemma post_write_gather_waits:
  "waits_on (s\<lparr>conn := snd (post_write_gather i sges ra rk imm c)\<rparr>) = waits_on (s\<lparr>conn := c\<rparr>)"
  by (auto simp: post_write_gather_def with_qp_def guard_post_def Let_def waits_on_def split: option.split prod.split)

lemma begin_batch_waits: "keeps_waiting s (snd (begin_batch w s))"
proof -
  have emit: "keeps_waiting (snd ix) (snd (snd (post_planned n ra rk imm off sges ix)))" for n ra rk imm off sges ix
    using post_write_gather_waits [where s = "snd ix"]
    by (auto simp: post_planned_def Let_def on_conn_eq keeps_waiting_def waits_on_def split: sum.split prod.split)
  have ea: "keeps_waiting (snd ix) (snd (snd (emit_all (post_planned n ra rk imm) ws ix)))" for n ra rk imm ws ix
  proof (induction ws arbitrary: ix)
    case (Cons x ws)
    let ?p = "post_planned n ra rk imm (fst x) (snd x) ix"
    have "keeps_waiting (snd ix) (snd (snd ?p))" by (rule emit)
    moreover have "keeps_waiting (snd (snd ?p)) (snd (snd (emit_all (post_planned n ra rk imm) ws (snd ?p))))"
      by (rule Cons.IH)
    ultimately show ?case
      using keeps_waiting_trans by (simp add: snd_and_then split: sum.split)
  qed simp
  have all: "keeps_waiting s (snd (snd (plan_gather segs mx (post_planned n ra rk imm) (0, s))))" for segs mx n ra rk imm
  proof -
    have "snd (and_then r (\<lambda>_ s. (Inr m, s))) = snd r" for r :: "unit res \<times> nat \<times> hord_stream" and m :: nat
      by (simp add: snd_and_then split: sum.split)
    then show ?thesis
      using ea [where ix = "(0, s)"] by (simp add: plan_gather_emits)
  qed
  define mx where "mx = max_send_sge (conn s)"
  define n where "n = length (gather_wrs mx (pw_segments w))"
  obtain r1 s1 where p1: "on_conn (post_write_gather (imm_write_wr_id 0) [] (pw_addr w) (pw_rkey w) (pw_imm w)) s
      = (r1, s1)" by fastforce
  have k1: "keeps_waiting s s1"
    using p1 post_write_gather_waits [where s = s and c = "conn s"]
    by (auto simp: on_conn_eq keeps_waiting_def)
  have k2: "keeps_waiting s (snd (case plan_gather (pw_segments w) mx (post_planned m (pw_addr w) (pw_rkey w) imm) (0, s) of
      (Inl e, ix) \<Rightarrow> (Inl e, (snd ix)\<lparr>peer_closed := True\<rparr>) | (Inr _, ix) \<Rightarrow> (Inr (), snd ix)))" for m imm
    using all [of "pw_segments w" mx m "pw_addr w" "pw_rkey w" imm]
    by (auto split: prod.split sum.split)
  have n: "fst (plan_gather (pw_segments w) mx (\<lambda>_ _ u. (Inr (), u)) ()) = Inr n"
    by (simp add: n_def count_only)
  have upd: "keeps_waiting s (t\<lparr>writes_outstanding := i, imm_outstanding := j\<rparr>)" if "keeps_waiting s t" for t i j
    using that by (simp add: keeps_waiting_def waits_on_def)
  show ?thesis
    by (simp add: begin_batch_def begin_rdma_write_gather_inner_def Let_def mx_def [symmetric] n
        p1 k1 k2 upd split: sum.split)
qed

lemma poll_rdma_write_returns: "\<exists>r w' b. poll_rdma_write w a = Some (r, w', b)"
proof -
  have "\<exists>y. poll_until (post_attempt w) a = Some y" "\<exists>y. poll_until drain_attempt b = Some y" for b
    by (rule poll_until_returns; simp add: post_attempt_state begin_batch_waits drain_attempt_def)+
  then obtain p a1 where post: "(case pw_outcome w of Some r \<Rightarrow> Some (Ready (Inr r), a)
      | None \<Rightarrow> poll_until (post_attempt w) a) = Some (p, a1)"
    and "\<exists>d a2. poll_until drain_attempt a1 = Some (d, a2)"
    by (cases "pw_outcome w") fastforce+
  then obtain d a2 where "poll_until drain_attempt a1 = Some (d, a2)" by blast
  then show ?thesis
    unfolding poll_rdma_write_def post by (auto split: poll.split sum.split)
qed

text \<open>A write of a batch is well-formed: a 64-bit address, and no panic for an outcome.\<close>

definition pw_ok :: "pending_write \<Rightarrow> bool" where
  "pw_ok w \<longleftrightarrow> pw_addr w < 2 ^ 64 \<and> pw_outcome w \<noteq> Some (Inl Panic)"

abbreviation held_ok where
  "held_ok k s \<equiv> write_ok s \<and> fixtures s = k"

lemma begin_batch_safe:
  assumes "pw_ok w" and "held_ok k s"
  shows "safe_outcome (held_ok k) (begin_batch w s)"
  using begin_gather_write_ok [of s "pw_addr w"] begin_gather_frozen [of s "pw_addr w"] assms
  by (auto simp: begin_batch_def safe_outcome_def pw_ok_def)

lemma post_attempt_safe:
  assumes "pw_ok w" and "held_ok k s"
  shows "safe_outcome (held_ok k) (post_attempt w s)" "fst (post_attempt w s) \<noteq> Inr (Some (Inl Panic))"
  using begin_batch_safe [OF assms]
  by (auto simp: safe_outcome_def post_attempt_eq Let_def split: sum.splits fault.splits)

text \<open>
  A poll of a batch keeps the invariant and does not panic; when it succeeds, and when the
  post itself was refused, every request of the batch has been reaped.
\<close>

lemma poll_until_answer:
  assumes "poll_until attempt a = Some (Ready (Inr x), b)" and "I (a_stream a)"
    and "\<And>s. I s \<Longrightarrow> I (snd (attempt s))" and "\<And>b. I (a_stream b) \<Longrightarrow> I (a_stream (snd (poll_reactor b)))"
  obtains s where "I s" "attempt s = (Inr (Some x), a_stream b)"
proof -
  obtain c where "I (a_stream c)" "ends_at attempt (Ready (Inr x), b) c"
    using poll_until_ends [OF assms(1), of I] assms(2-) by blast
  then show thesis
    by (intro that [of "a_stream c"]; cases "attempt (a_stream c)") (auto simp: ends_at_def on_stream_def Let_def)
qed

lemma poll_post_safe:
  assumes w: "pw_ok w" and a: "held_ok k (a_stream a)" and run: "poll_until (post_attempt w) a = Some y"
  shows "poll_outcome (held_ok k) y" "fst y \<noteq> Ready (Inr (Inl Panic))"
proof -
  show "poll_outcome (held_ok k) y"
    by (rule frozen.poll_until_safe [OF run a]) (rule post_attempt_safe [OF w])
  show "fst y \<noteq> Ready (Inr (Inl Panic))"
  proof
    assume "fst y = Ready (Inr (Inl Panic))"
    then obtain b where y: "y = (Ready (Inr (Inl Panic)), b)" by (cases y) simp
    show False
    proof (rule poll_until_answer [OF run [unfolded y], of "held_ok k"])
      show "held_ok k (snd (post_attempt w s))" if "held_ok k s" for s
        using post_attempt_safe(1) [OF w that] by (simp add: safe_outcome_def)
      show "held_ok k (a_stream (snd (poll_reactor b)))" if "held_ok k (a_stream b)" for b
        using frozen.poll_reactor_pres [OF that] .
    qed (use a post_attempt_safe(2) [OF w] in \<open>fastforce+\<close>)
  qed
qed

lemma poll_drain_safe:
  assumes a: "held_ok k (a_stream a)" and run: "poll_until drain_attempt a = Some y"
  shows "poll_outcome (held_ok k) y" "fst y = Ready (Inr u) \<Longrightarrow> \<not> writes_pending (a_stream (snd y))"
proof -
  show "poll_outcome (held_ok k) y"
    by (rule frozen.poll_until_safe [OF run a]) (simp add: drain_attempt_def safe_outcome_def)
  assume "fst y = Ready (Inr u)"
  then obtain b where y: "y = (Ready (Inr u), b)" by (cases y) simp
  from poll_until_answer [OF run [unfolded y], of "\<lambda>_. True"]
  obtain s where "drain_attempt s = (Inr (Some u), a_stream b)" by blast
  then show "\<not> writes_pending (a_stream (snd y))" by (auto simp: y drain_attempt_def split: if_splits)
qed

lemma poll_rdma_write_safe:
  assumes w: "pw_ok w" and a: "held_ok k (a_stream a)" and run: "poll_rdma_write w a = Some (r, w', b)"
  shows "held_ok k (a_stream b)" "r \<noteq> Ready (Inl Panic)" "pw_ok w'"
    "r = Ready (Inr ()) \<Longrightarrow> \<not> writes_pending (a_stream b) \<and> \<not> peer_closed (a_stream b)"
proof -
  obtain p a1 where post: "(case pw_outcome w of Some r \<Rightarrow> Some (Ready (Inr r), a)
      | None \<Rightarrow> poll_until (post_attempt w) a) = Some (p, a1)"
    using run by (auto simp: poll_rdma_write_def bind_eq_Some_conv)
  have a1: "held_ok k (a_stream a1)" "p \<noteq> Ready (Inl Panic)" "p \<noteq> Ready (Inr (Inl Panic))"
    using poll_post_safe [OF w a, of "(p, a1)"] post a w
    by (auto simp: poll_outcome_def pw_ok_def split: option.splits)
  have "held_ok k (a_stream b) \<and> r \<noteq> Ready (Inl Panic) \<and> pw_ok w' \<and>
    (r = Ready (Inr ()) \<longrightarrow> \<not> writes_pending (a_stream b) \<and> \<not> peer_closed (a_stream b))"
  proof (cases "\<exists>q. p = Ready (Inr q)")
    case False
    then show ?thesis
      using run post a1 w by (auto simp: poll_rdma_write_def split: poll.splits sum.splits)
  next
    case True
    then obtain q where q: "p = Ready (Inr q)" by blast
    with run post obtain d a2 where dr: "poll_until drain_attempt a1 = Some (d, a2)"
      by (auto simp: poll_rdma_write_def bind_eq_Some_conv)
    note D = poll_drain_safe [OF a1(1) dr]
    have "(case d of Pending \<Rightarrow> Some (Pending, w\<lparr>pw_outcome := Some q\<rparr>, a2)
        | Ready (Inl e) \<Rightarrow> Some (Ready (Inl e), w\<lparr>pw_outcome := Some q\<rparr>, a2)
        | Ready (Inr _) \<Rightarrow> (case q of Inl e \<Rightarrow> Some (Ready (Inl e), w\<lparr>pw_outcome := None\<rparr>, a2)
           | Inr _ \<Rightarrow> Some (Ready (if is_closed (a_stream a2) then Inl (io_err BrokenPipe) else Inr ()),
                 w\<lparr>pw_outcome := None\<rparr>, a2))) = Some (r, w', b)"
      using run post q dr by (simp add: poll_rdma_write_def)
    moreover have "q \<noteq> Inl Panic" using a1 q by simp
    moreover have "pw_ok (w\<lparr>pw_outcome := None\<rparr>)" "pw_ok (w\<lparr>pw_outcome := Some q\<rparr>)"
      using w calculation(2) by (auto simp: pw_ok_def)
    ultimately show ?thesis
      using D by (auto simp: poll_outcome_def is_closed_def split: poll.splits sum.splits if_splits)
  qed
  then show "held_ok k (a_stream b)" "r \<noteq> Ready (Inl Panic)" "pw_ok w'"
    "r = Ready (Inr ()) \<Longrightarrow> \<not> writes_pending (a_stream b) \<and> \<not> peer_closed (a_stream b)" by auto
qed

section \<open>The whole write\<close>

text \<open>
  Between polls a future stands at a batch of its list: the segments before it are delivered,
  and the batch is a slice of the list, laid down at its own offset.
\<close>

definition wf_ok :: "write_future \<Rightarrow> bool" where
  "wf_ok f \<longleftrightarrow>
     (if wf_segments f = [] then wf_start f = 0 else wf_start f < length (wf_segments f))
     \<and> (case wf_batch f of None \<Rightarrow> True
        | Some (fin, n_bytes, w) \<Rightarrow> pw_ok w \<and> (wf_segments f \<noteq> [] \<longrightarrow> wf_start f < fin \<and> fin \<le> length (wf_segments f)))"

lemma drive_write_ok: "wf_ok (drive_write segs raddr rkey imm)"
  by (simp add: wf_ok_def drive_write_def)

lemma plan_batch_ok:
  assumes "wf_ok f" and "wf_batch f = None"
  obtains f' fin n w where "plan_batch f s = Inr f'" "wf_ok f'" "wf_batch f' = Some (fin, n, w)"
    "wf_segments f' = wf_segments f" "wf_start f' = wf_start f" "wf_armed f' = wf_armed f"
proof (cases "wf_segments f = []")
  case True
  then have "\<exists>f' fin n w. plan_batch f s = Inr f' \<and> wf_ok f' \<and> wf_batch f' = Some (fin, n, w) \<and>
      wf_segments f' = wf_segments f \<and> wf_start f' = wf_start f \<and> wf_armed f' = wf_armed f"
    using assms by (simp add: plan_batch_def wf_ok_def pw_ok_def wrap64_def Let_def)
  then show thesis using that by blast
next
  case False
  then have "wf_start f < length (wf_segments f)" using assms(1) by (simp add: wf_ok_def)
  then obtain n k where n: "next_gather_batch s (wf_segments f) (wf_start f) = Inr (n, k)"
    "1 \<le> n" "wf_start f + n \<le> length (wf_segments f)"
    using next_gather_batch_ok [of "wf_start f" "wf_segments f" s] by metis
  with False have "\<exists>f' fin n w. plan_batch f s = Inr f' \<and> wf_ok f' \<and> wf_batch f' = Some (fin, n, w) \<and>
      wf_segments f' = wf_segments f \<and> wf_start f' = wf_start f \<and> wf_armed f' = wf_armed f"
    using assms by (simp add: plan_batch_def wf_ok_def pw_ok_def wrap64_def Let_def)
  then show thesis using that by blast
qed

definition wf_left :: "write_future \<Rightarrow> nat" where
  "wf_left f = 2 * (length (wf_segments f) - wf_start f) + (if wf_batch f = None then 1 else 0)"

lemma poll_drive_write_props:
  assumes "wf_ok f" and "held_ok k (a_stream a)"
  shows "\<exists>r f' b. poll_drive_write f a = Some (r, f', b) \<and> held_ok k (a_stream b)
    \<and> r \<noteq> Ready (Inl Panic) \<and> wf_ok f' \<and> (r = Pending \<longrightarrow> wf_armed f' = wf_armed f)
    \<and> (r = Ready (Inr ()) \<longrightarrow> \<not> writes_pending (a_stream b) \<and> \<not> peer_closed (a_stream b))"
  using assms
proof (induction "wf_left f" arbitrary: f a rule: less_induct)
  case less
  show ?case
  proof (cases "wf_batch f")
    case None
    obtain f1 fin n w where f1: "plan_batch f (a_stream a) = Inr f1" "wf_ok f1"
      "wf_batch f1 = Some (fin, n, w)" "wf_segments f1 = wf_segments f" "wf_start f1 = wf_start f"
      "wf_armed f1 = wf_armed f"
      using plan_batch_ok [OF less.prems(1) None] .
    then have "wf_left f1 < wf_left f" using None by (simp add: wf_left_def)
    from less.hyps [OF this f1(2) less.prems(2)] show ?thesis
      by (subst poll_drive_write.simps) (simp add: None f1)
  next
    case (Some batch)
    obtain fin n w where fb: "wf_batch f = Some (fin, n, w)" using Some by (cases batch) auto
    have w: "pw_ok w" using less.prems(1) fb by (simp add: wf_ok_def)
    obtain r w' b where run: "poll_rdma_write w a = Some (r, w', b)"
      using poll_rdma_write_returns by blast
    note W = poll_rdma_write_safe [OF w less.prems(2) run]
    define g where "g = f\<lparr>wf_start := fin, wf_base := wf_base f + n, wf_batch := None\<rparr>"
    show ?thesis
    proof (cases "r = Ready (Inr ()) \<and> \<not> (wf_segments f = [] \<or> fin = length (wf_segments f))")
      case True
      then have "wf_ok g" "wf_left g < wf_left f"
        using less.prems(1) fb by (auto simp: wf_ok_def g_def wf_left_def)
      from less.hyps [OF this(2,1) W(1)] show ?thesis
        using True by (subst poll_drive_write.simps) (simp add: fb run g_def)
    next
      case False
      moreover have "wf_ok (f\<lparr>wf_batch := Some (fin, n, w')\<rparr>)"
        "wf_ok (f\<lparr>wf_batch := Some (fin, n, w'), wf_armed := c\<rparr>)" for c
        using less.prems(1) fb W(3) by (auto simp: wf_ok_def)
      ultimately show ?thesis
        using W by (subst poll_drive_write.simps) (auto simp: fb run split: poll.split sum.split)
    qed
  qed
qed

section \<open>Cancellation\<close>

text \<open>
  The NIC no longer reads any source of a write: there is no queue pair, or no write request is
  queued or unreaped.
\<close>

definition writes_quiet :: "hord_stream \<Rightarrow> bool" where
  "writes_quiet s \<longleftrightarrow> qp (conn s) = None \<or> write_ids s = {#}"

lemma cancel_write_quiet:
  assumes "write_ok (a_stream a)" and "wf_armed f"
  shows "writes_quiet (a_stream (cancel_write f a))"
  using assms no_writes_pending
  by (auto simp: cancel_write_def writes_quiet_def force_teardown_def shutdown_def write_ok_def)

section \<open>The entry points\<close>

definition async_rdma_write ::
  "registered_buffer \<Rightarrow> nat \<Rightarrow> nat \<Rightarrow> u32 \<Rightarrow> nat \<Rightarrow> write_future res" where
  "async_rdma_write src off raddr rkey len =
     map_sum id (\<lambda>seg. drive_write [seg] raddr rkey None) (from_registered src off len)"

definition async_rdma_write_with_imm ::
  "registered_buffer \<Rightarrow> nat \<Rightarrow> nat \<Rightarrow> u32 \<Rightarrow> nat \<Rightarrow> u32 \<Rightarrow> write_future res" where
  "async_rdma_write_with_imm src off raddr rkey len transfer_id =
     map_sum id (\<lambda>seg. drive_write [seg] raddr rkey (Some transfer_id)) (from_registered src off len)"

definition async_rdma_write_gather :: "write_segment list \<Rightarrow> nat \<Rightarrow> u32 \<Rightarrow> write_future" where
  "async_rdma_write_gather segments raddr rkey = drive_write segments raddr rkey None"

definition async_rdma_write_gather_with_imm :: "write_segment list \<Rightarrow> nat \<Rightarrow> u32 \<Rightarrow> u32 \<Rightarrow> write_future" where
  "async_rdma_write_gather_with_imm segments raddr rkey transfer_id = drive_write segments raddr rkey (Some transfer_id)"

text \<open>The operations an async stream passes on to the stream it wraps.\<close>

definition async_disconnect :: "async_stream \<Rightarrow> async_stream" where
  "async_disconnect a = a\<lparr>a_stream := stream_disconnect (a_stream a)\<rparr>"

definition async_register_remote_writable :: "nat \<Rightarrow> async_stream \<Rightarrow> registered_buffer res \<times> async_stream" where
  "async_register_remote_writable len = on_stream (register_remote_writable len)"

definition async_register_source :: "nat \<Rightarrow> async_stream \<Rightarrow> registered_buffer res \<times> async_stream" where
  "async_register_source len = on_stream (register_source len)"

definition async_register_external :: "nat \<Rightarrow> nat \<Rightarrow> async_stream \<Rightarrow> mr res \<times> async_stream" where
  "async_register_external ptr len = on_stream (stream_register_external ptr len)"

text \<open>A source region that lies inside its buffer starts a well-formed future with its guard armed.\<close>

lemma async_rdma_write_ok:
  assumes "off + len < 2 ^ 64" and "off + len \<le> rb_len src"
  obtains f where "async_rdma_write src off raddr rkey len = Inr f" "wf_ok f" "wf_armed f"
  using assms drive_write_ok by (auto simp: async_rdma_write_def from_registered_def drive_write_def)

lemma async_rdma_write_with_imm_ok:
  assumes "off + len < 2 ^ 64" and "off + len \<le> rb_len src"
  obtains f where "async_rdma_write_with_imm src off raddr rkey len tid = Inr f" "wf_ok f" "wf_armed f"
  using assms drive_write_ok by (auto simp: async_rdma_write_with_imm_def from_registered_def drive_write_def)

end
