(* ===== verification/Async_Serve.thy ===== *)
theory Async_Serve
  imports Write_Future Serving
begin

text \<open>
  The async server side of a zero-copy response: \<open>SharedAsyncStream::serve_rdma_write\<close> and
  \<open>serve_rdma_write_pooled\<close>. The policy, the source and the fill are done at the first poll, the
  write is a future, and the source is given back when the future ends or is dropped. Dropping it
  drops the locals it holds in Rust's order, last declared first.
\<close>

section \<open>The serve future\<close>

text \<open>A body on its way: the write, where its source came from, and its length.\<close>

record serve_future =
  sf_write :: write_future
  sf_lease :: source_lease
  sf_len :: nat

text \<open>\<open>run_write_plan\<close>: fill the source when there is a body, and start the write.\<close>

definition start_write_plan ::
  "registered_buffer \<Rightarrow> rdma_write_req \<Rightarrow> nat \<Rightarrow> u32 option \<Rightarrow> filler \<Rightarrow> hord_stream
     \<Rightarrow> write_future res \<times> hord_stream" where
  "start_write_plan src req plen tid fill s =
     and_then (if plen > 0 then run_fill fill src s else (Inr (), s)) (\<lambda>_ s.
       (case tid of
          Some i \<Rightarrow> (async_rdma_write_with_imm src 0 (unat (req_addr req)) (req_rkey req) plen i, s)
        | None \<Rightarrow> (async_rdma_write src 0 (unat (req_addr req)) (req_rkey req) plen, s)))"

type_synonym serving = "source_pool \<times> async_stream"

definition release_source :: "source_lease \<Rightarrow> serving \<Rightarrow> serving" where
  "release_source l pa =
     (case lease_drop l (fst pa, a_stream (snd pa)) of (p, s) \<Rightarrow> (p, (snd pa)\<lparr>a_stream := s\<rparr>))"

definition start_body ::
  "source_lease \<Rightarrow> rdma_write_req \<Rightarrow> nat \<Rightarrow> u32 option \<Rightarrow> filler \<Rightarrow> serving
     \<Rightarrow> (rdma_write_status + serve_future) res \<times> serving" where
  "start_body l req plen tid fill pa =
     (case start_write_plan (ls_buf l) req plen tid fill (a_stream (snd pa)) of
        (Inl e, s) \<Rightarrow> (Inl e, release_source l (fst pa, (snd pa)\<lparr>a_stream := s\<rparr>))
      | (Inr f, s) \<Rightarrow>
          (Inr (Inr \<lparr>sf_write = f, sf_lease = l, sf_len = plen\<rparr>), (fst pa, (snd pa)\<lparr>a_stream := s\<rparr>)))"

text \<open>Without a pool the source is a registration of its own, which the pool does not see.\<close>

definition async_serve ::
  "rdma_write_req \<Rightarrow> u64 \<Rightarrow> filler \<Rightarrow> serving \<Rightarrow> (rdma_write_status + serve_future) res \<times> serving" where
  "async_serve req object_size fill pa =
     (case decide req object_size (split_mode_negotiated (a_stream (snd pa))) of
        Respond st \<Rightarrow> (Inr (Inl st), pa)
      | WriteBody plen slen tid \<Rightarrow>
          (case register_source slen (a_stream (snd pa)) of
             (Inl e, s) \<Rightarrow> (Inl e, (fst pa, (snd pa)\<lparr>a_stream := s\<rparr>))
           | (Inr src, s) \<Rightarrow>
               start_body \<lparr>ls_buf = src, ls_pooled = False\<rparr> req plen tid fill (fst pa, (snd pa)\<lparr>a_stream := s\<rparr>)))"

definition async_serve_pooled ::
  "rdma_write_req \<Rightarrow> u64 \<Rightarrow> filler \<Rightarrow> serving \<Rightarrow> (rdma_write_status + serve_future) res \<times> serving" where
  "async_serve_pooled req object_size fill pa =
     (case decide req object_size (split_mode_negotiated (a_stream (snd pa))) of
        Respond st \<Rightarrow> (Inr (Inl st), pa)
      | WriteBody plen slen tid \<Rightarrow>
          (case pool_acquire register_source slen (fst pa, a_stream (snd pa)) of
             (Inl e, p1, s) \<Rightarrow> (Inl e, (p1, (snd pa)\<lparr>a_stream := s\<rparr>))
           | (Inr l, p1, s) \<Rightarrow> start_body l req plen tid fill (p1, (snd pa)\<lparr>a_stream := s\<rparr>)))"

text \<open>A later poll.\<close>

definition poll_serve ::
  "serve_future \<Rightarrow> serving \<Rightarrow> (rdma_write_status res poll \<times> serve_future \<times> serving) option" where
  "poll_serve sf pa =
     map_option (\<lambda>(r, f, a).
         case r of
           Pending \<Rightarrow> (Pending, sf\<lparr>sf_write := f\<rparr>, (fst pa, a))
         | Ready x \<Rightarrow> (Ready (map_sum id (\<lambda>_. Complete (of_nat (sf_len sf))) x), sf\<lparr>sf_write := f\<rparr>,
                        release_source (sf_lease sf) (fst pa, a)))
       (poll_drive_write (sf_write sf) (snd pa))"

text \<open>
  A drop of the future before it resolved. What the suspended future holds, in the order the
  code declares it: the source in \<open>serve_rdma_write\<close> or its lease in \<open>serve_rdma_write_pooled\<close>,
  then the pending batch and the cancel guard of \<open>drive_write\<close>. Rust drops them in reverse. The
  result lists the drops, each with the state it found.
\<close>

datatype held = HeldSource source_lease | HeldBatch | HeldGuard write_future

definition held_locals :: "serve_future \<Rightarrow> held list" where
  "held_locals sf = [HeldSource (sf_lease sf), HeldBatch, HeldGuard (sf_write sf)]"

definition drop_held :: "held \<Rightarrow> serving \<Rightarrow> serving" where
  "drop_held h pa =
     (case h of
        HeldSource l \<Rightarrow> release_source l pa
      | HeldBatch \<Rightarrow> pa
      | HeldGuard f \<Rightarrow> (fst pa, cancel_write f (snd pa)))"

primrec drop_all :: "held list \<Rightarrow> serving \<Rightarrow> (held \<times> serving) list \<times> serving" where
  "drop_all [] pa = ([], pa)"
| "drop_all (h # hs) pa = (let r = drop_all hs (drop_held h pa) in ((h, pa) # fst r, snd r))"

definition cancel_serve :: "serve_future \<Rightarrow> serving \<Rightarrow> (held \<times> serving) list \<times> serving" where
  "cancel_serve sf = drop_all (rev (held_locals sf))"

section \<open>What a serve keeps\<close>

abbreviation serving_ok :: "serving \<Rightarrow> bool" where
  "serving_ok pa \<equiv> world_ok (a_stream (snd pa))"

lemma release_source_ok: "serving_ok pa \<Longrightarrow> serving_ok (release_source l pa)"
  using lease_drop_world [of "a_stream (snd pa)" l "fst pa"]
  by (auto simp: release_source_def split: prod.split)

definition serve_ok :: "rdma_write_req \<Rightarrow> u64 \<Rightarrow> serve_future \<Rightarrow> bool" where
  "serve_ok req object_size sf \<longleftrightarrow>
     wf_ok (sf_write sf) \<and> wf_armed (sf_write sf) \<and> Complete (of_nat (sf_len sf)) = served req object_size"

lemma start_body_ok:
  assumes ok: "serving_ok pa" and fits: "plen \<le> rb_len (ls_buf l)" "plen < 2 ^ 64" and fl: "fills fill plen"
    and st: "Complete (of_nat plen) = served req object_size"
    and run: "start_body l req plen tid fill pa = (r, pa')"
  shows "serving_ok pa' \<and> (\<exists>sf. r = Inr (Inr sf) \<and> serve_ok req object_size sf)"
proof -
  let ?s = "a_stream (snd pa)"
  define t where "t = (if plen > 0 then snd (run_fill fill (ls_buf l) ?s) else ?s)"
  have fr: "(if plen > 0 then run_fill fill (ls_buf l) ?s else (Inr (), ?s)) = (Inr (), t)"
    using fl fits(1) by (auto simp: t_def run_fill_def fills_def split: sum.split) (metis sum.distinct(1))
  have t: "world_ok t" using ok fill_world by (auto simp: t_def)
  obtain f where "start_write_plan (ls_buf l) req plen tid fill ?s = (Inr f, t)" "wf_ok f" "wf_armed f"
  proof (cases tid)
    case None
    obtain f where "async_rdma_write (ls_buf l) 0 (unat (req_addr req)) (req_rkey req) plen = Inr f" "wf_ok f" "wf_armed f"
      by (rule async_rdma_write_ok [of 0 plen "ls_buf l"]) (use fits in simp_all)
    then show thesis using that unfolding start_write_plan_def fr by (simp add: None)
  next
    case (Some i)
    obtain f where "async_rdma_write_with_imm (ls_buf l) 0 (unat (req_addr req)) (req_rkey req) plen i = Inr f" "wf_ok f" "wf_armed f"
      by (rule async_rdma_write_with_imm_ok [of 0 plen "ls_buf l"]) (use fits in simp_all)
    then show thesis using that unfolding start_write_plan_def fr by (simp add: Some)
  qed
  then show ?thesis using run t st by (auto simp: start_body_def serve_ok_def)
qed

lemma async_serve_ok:
  assumes ok: "serving_ok pa" and fl: "fills fill (unat object_size)"
    and run: "async_serve req object_size fill pa = (r, pa')"
  shows "serving_ok pa' \<and> r \<noteq> Inl Panic
    \<and> (\<forall>st. r = Inr (Inl st) \<longrightarrow> st = served req object_size)
    \<and> (\<forall>sf. r = Inr (Inr sf) \<longrightarrow> serve_ok req object_size sf)"
proof (cases "decide req object_size (split_mode_negotiated (a_stream (snd pa)))")
  case (Respond st)
  then show ?thesis using run ok decide_respond by (auto simp: async_serve_def)
next
  case (WriteBody plen slen tid)
  note D = decide_plan [OF WriteBody]
  obtain q s where reg: "register_source slen (a_stream (snd pa)) = (q, s)" by fastforce
  have s: "world_ok s" using register_world [OF ok, of slen] reg by (metis register_source_def snd_conv)
  show ?thesis
  proof (cases q)
    case (Inl e)
    then show ?thesis
      using run WriteBody reg s register_source_refused [of slen "a_stream (snd pa)" e s] by (auto simp: async_serve_def)
  next
    case (Inr src)
    then have "rb_len src = slen" using register_source_ok reg by blast
    with start_body_ok [of "(fst pa, (snd pa)\<lparr>a_stream := s\<rparr>)" plen "\<lparr>ls_buf = src, ls_pooled = False\<rparr>" fill req object_size tid r pa']
    show ?thesis
      using run WriteBody reg Inr s D fl decide_served [OF WriteBody] by (auto simp: async_serve_def)
  qed
qed

lemma async_serve_pooled_ok:
  assumes ok: "serving_ok pa" and idle: "pool_idle (fst pa)" and fl: "fills fill (unat object_size)"
    and run: "async_serve_pooled req object_size fill pa = (r, pa')"
  shows "serving_ok pa' \<and> r \<noteq> Inl Panic
    \<and> (\<forall>st. r = Inr (Inl st) \<longrightarrow> st = served req object_size)
    \<and> (\<forall>sf. r = Inr (Inr sf) \<longrightarrow> serve_ok req object_size sf)"
proof (cases "decide req object_size (split_mode_negotiated (a_stream (snd pa)))")
  case (Respond st)
  then show ?thesis using run ok decide_respond by (auto simp: async_serve_pooled_def)
next
  case (WriteBody plen slen tid)
  note D = decide_plan [OF WriteBody]
  obtain q p1 s where acq: "pool_acquire register_source slen (fst pa, a_stream (snd pa)) = (q, p1, s)"
    by (metis surj_pair)
  have reg: "world_ok (snd (register_source n (a_stream (snd pa))))" for n
    using register_world [OF ok, of n] by (simp add: register_source_def)
  have run': "r = Inl e \<and> pa' = (p1, (snd pa)\<lparr>a_stream := s\<rparr>)" if "q = Inl e" for e
    using run WriteBody acq that by (auto simp: async_serve_pooled_def)
  have body: ?thesis if "q = Inr l" "slen \<le> rb_len (ls_buf l)" "world_ok s" for l
    using start_body_ok [of "(p1, (snd pa)\<lparr>a_stream := s\<rparr>)" plen l fill req object_size tid r pa']
      run WriteBody acq that D fl decide_served [OF WriteBody] by (auto simp: async_serve_pooled_def)
  show ?thesis
  proof (cases rule: pool_acquire_cases [OF idle acq D(3), case_names failed pooled single])
    case failed
    with reg have "world_ok s" by metis
    then show ?thesis using run' [OF failed(1)] by simp
  next
    case (pooled b)
    then have "world_ok s" using reg ok by metis
    then show ?thesis using body [OF pooled(1)] pooled by simp
  next
    case (single b)
    then have "world_ok s" "rb_len b = slen" using reg register_source_ok by (metis snd_conv, blast)
    then show ?thesis using body [OF single(1)] by simp
  qed
qed

text \<open>
  Polling: the invariant is kept and nothing panics; a body reported complete has been
  delivered, at the length of the object, and the NIC is done with its source before that is
  given back.
\<close>

lemma poll_serve_ok:
  assumes sf: "serve_ok req object_size sf" and ok: "serving_ok pa"
  shows "\<exists>r sf' pa'. poll_serve sf pa = Some (r, sf', pa') \<and> serving_ok pa' \<and> r \<noteq> Ready (Inl Panic)
    \<and> (r = Pending \<longrightarrow> serve_ok req object_size sf')
    \<and> (\<forall>st. r = Ready (Inr st) \<longrightarrow> st = served req object_size \<and> write_ids (a_stream (snd pa')) = {#})"
proof -
  have h: "held_ok (fixtures (a_stream (snd pa))) (a_stream (snd pa))" using ok by (simp add: world_ok_def)
  have w: "wf_ok (sf_write sf)" "wf_armed (sf_write sf)" using sf by (simp_all add: serve_ok_def)
  from poll_drive_write_props [OF w(1) h] obtain r f b where
    run: "poll_drive_write (sf_write sf) (snd pa) = Some (r, f, b)"
    and b: "write_ok (a_stream b)" "fixtures (a_stream b) = fixtures (a_stream (snd pa))"
    and r: "r \<noteq> Ready (Inl Panic)" "wf_ok f" "r = Pending \<longrightarrow> wf_armed f"
      "r = Ready (Inr ()) \<longrightarrow> \<not> writes_pending (a_stream b)"
    using w(2) by auto
  have wb: "world_ok (a_stream b)" using world_ok_frozen [OF ok] b by simp
  have rel: "world_ok (a_stream (snd (release_source (sf_lease sf) (fst pa, b))))"
    using release_source_ok [of "(fst pa, b)"] wb by simp
  have ids: "write_ids (a_stream (snd (release_source l (q, b)))) = write_ids (a_stream b)" for l q
    by (simp add: release_source_def lease_drop_def drop_buffer_def write_ids_def send_ids_def split: prod.split)
  have quiet: "write_ids (a_stream b) = {#}" if "r = Ready (Inr ())"
    using that r(4) b(1) no_writes_pending by (simp add: write_ok_def)
  show ?thesis
  proof (cases r)
    case Pending
    then show ?thesis using run wb r sf by (simp add: poll_serve_def serve_ok_def)
  next
    case (Ready x)
    then show ?thesis
      using run rel r sf ids quiet
      by (cases x) (auto simp: poll_serve_def serve_ok_def)
  qed
qed

text \<open>Dropping the future: the NIC is done with the source before that is given back.\<close>

lemma release_source_quiet: "writes_quiet (a_stream (snd (release_source l pa))) = writes_quiet (a_stream (snd pa))"
  by (simp add: release_source_def lease_drop_def drop_buffer_def writes_quiet_def write_ids_def send_ids_def
      split: prod.split)

lemma cancel_serve_run:
  "cancel_serve sf pa =
     (let pa1 = (fst pa, cancel_write (sf_write sf) (snd pa)) in
      ([(HeldGuard (sf_write sf), pa), (HeldBatch, pa1), (HeldSource (sf_lease sf), pa1)],
       release_source (sf_lease sf) pa1))"
  by (simp add: cancel_serve_def held_locals_def drop_held_def Let_def)

lemma cancel_serve_ok:
  assumes "wf_armed (sf_write sf)" and "write_ok (a_stream (snd pa))"
  shows "(HeldSource l, q) \<in> set (fst (cancel_serve sf pa)) \<Longrightarrow> writes_quiet (a_stream (snd q))"
    and "writes_quiet (a_stream (snd (snd (cancel_serve sf pa))))"
  using cancel_write_quiet [OF assms(2,1)] by (auto simp: cancel_serve_run Let_def release_source_quiet)

section \<open>Whole runs\<close>

text \<open>
  A body from its first poll on: it is polled again while it is pending, and between its polls
  the other users of the connection change the state in any way that keeps the invariant.
\<close>

inductive serve_run :: "serve_future \<Rightarrow> serving \<Rightarrow> serve_future \<Rightarrow> serving \<Rightarrow> bool" for sf pa where
  started: "serve_run sf pa sf pa"
| polled: "serve_run sf pa sf1 pa1 \<Longrightarrow> poll_serve sf1 pa1 = Some (Pending, sf2, pa2) \<Longrightarrow> serve_run sf pa sf2 pa2"
| others: "serve_run sf pa sf1 pa1 \<Longrightarrow> serving_ok pa2 \<Longrightarrow> serve_run sf pa sf1 pa2"

lemma serve_run_ok:
  assumes "serve_run sf pa sf' pa'" and "serve_ok req object_size sf" and "serving_ok pa"
  shows "serve_ok req object_size sf' \<and> serving_ok pa'"
  using assms(1)
proof induction
  case (polled sf1 pa1 sf2 pa2)
  then show ?case using poll_serve_ok [of req object_size sf1 pa1] by auto
qed (use assms in auto)

end
