(* ===== verification/Split_Pump.thy ===== *)
theory Split_Pump
  imports Async_Stream
begin

text \<open>
  The multi-waiter split of \<open>hord-async/src/lib.rs\<close>: one pump task owns the completion channel
  and wakes every parked handle after each drain; the read half, the write half and the data
  plane only try their operation and park on a shared list of wakers. The system is a step
  relation: a handle is polled, the pump is polled, or the environment moves. In every
  reachable state a parked handle is registered, its pump is alive, and, on an open connection,
  its operation has no result yet.
\<close>

section \<open>Shared state, handles and the pump task\<close>

type_synonym task = nat

record shared =
  sh_wakers :: "task list"
  sh_async :: async_stream

definition register_waker :: "task \<Rightarrow> shared \<Rightarrow> shared" where
  "register_waker t sh = (if t \<in> set (sh_wakers sh) then sh else sh\<lparr>sh_wakers := sh_wakers sh @ [t]\<rparr>)"

definition wake_all :: "shared \<Rightarrow> task list \<times> shared" where
  "wake_all sh = (sh_wakers sh, sh\<lparr>sh_wakers := []\<rparr>)"

definition drive_once :: "shared \<Rightarrow> unit res poll \<times> shared" where
  "drive_once sh = (let p = poll_reactor (sh_async sh) in (fst p, sh\<lparr>sh_async := snd p\<rparr>))"

definition shared_is_closed :: "shared \<Rightarrow> bool" where
  "shared_is_closed sh = is_closed (a_stream (sh_async sh))"

text \<open>A poll of a handle: one attempt, and the waker is registered when it has no answer.\<close>

definition half_poll ::
  "(hord_stream \<Rightarrow> 'a option res \<times> hord_stream) \<Rightarrow> task \<Rightarrow> shared \<Rightarrow> 'a res poll \<times> shared" where
  "half_poll attempt t sh =
     (let p = on_stream attempt (sh_async sh); sh1 = sh\<lparr>sh_async := snd p\<rparr> in
      case fst p of
        Inl e \<Rightarrow> (Ready (Inl e), sh1)
      | Inr (Some x) \<Rightarrow> (Ready (Inr x), sh1)
      | Inr None \<Rightarrow> (Pending, register_waker t sh1))"

definition read_half_poll_read :: "nat \<Rightarrow> task \<Rightarrow> shared \<Rightarrow> bytes res poll \<times> shared" where
  "read_half_poll_read n = half_poll (try_read_into n)"

definition write_half_poll_write :: "bytes \<Rightarrow> task \<Rightarrow> shared \<Rightarrow> nat res poll \<times> shared" where
  "write_half_poll_write buf t sh =
     (if buf = [] then (Ready (Inr 0), sh) else half_poll (try_write_from buf) t sh)"

definition write_half_poll_flush :: "task \<Rightarrow> shared \<Rightarrow> unit res poll \<times> shared" where
  "write_half_poll_flush = half_poll poll_flush_ready"

definition write_half_poll_shutdown :: "task \<Rightarrow> shared \<Rightarrow> unit res poll \<times> shared" where
  "write_half_poll_shutdown = write_half_poll_flush"

definition data_plane_poll_next :: "task \<Rightarrow> shared \<Rightarrow> u32 option res poll \<times> shared" where
  "data_plane_poll_next = half_poll next_transfer"

definition data_plane_disconnect :: "shared \<Rightarrow> shared" where
  "data_plane_disconnect sh =
     sh\<lparr>sh_async := (sh_async sh)\<lparr>a_stream := stream_disconnect (a_stream (sh_async sh))\<rparr>\<rparr>"

definition into_split :: "async_stream \<Rightarrow> shared" where
  "into_split a = \<lparr>sh_wakers = [], sh_async = a\<rparr>"

text \<open>
  A poll of the pump task: the tasks it woke, whether it is still running, and the state. A
  panic ends the task where it stands.
\<close>

lemma drive_once_work:
  "drive_once sh = (Ready (Inr u), sh') \<Longrightarrow> a_work (sh_async sh') < a_work (sh_async sh)"
  using poll_reactor_cases(2) [of "sh_async sh" "Ready (Inr ())"]
  by (cases "poll_reactor (sh_async sh)") (auto simp: drive_once_def Let_def)

function pump_task :: "shared \<Rightarrow> task list \<times> bool \<times> shared" where
  "pump_task sh =
     (case drive_once sh of
        (Pending, sh1) \<Rightarrow> ([], True, sh1)
      | (Ready (Inl e), sh1) \<Rightarrow>
          if e = Panic then ([], False, sh1)
          else let sh2 = sh1\<lparr>sh_async := (sh_async sh1)\<lparr>a_stream := mark_closed (a_stream (sh_async sh1))\<rparr>\<rparr>;
                   w = wake_all sh2
               in (fst w, False, snd w)
      | (Ready (Inr _), sh1) \<Rightarrow>
          let w = wake_all sh1 in
          if shared_is_closed (snd w) then (fst w, False, snd w)
          else let r = pump_task (snd w) in (fst w @ fst r, snd r))"
  by pat_completeness auto
termination
  by (relation "measure (\<lambda>sh. a_work (sh_async sh))") (auto simp: wake_all_def drive_once_work)

declare pump_task.simps [simp del]

section \<open>What an operation leaves alone\<close>

text \<open>A part of the state that returning credits does not look at.\<close>

locale credit_frame =
  fixes V :: "hord_stream \<Rightarrow> 'v"
  assumes V_conn: "V (s\<lparr>conn := c\<rparr>) = V s"
    and V_grant: "V (s\<lparr>grant_pending := k\<rparr>) = V s"
    and V_ctrl: "V (s\<lparr>ctrl_send_busy := b\<rparr>) = V s"
    and V_closed: "V (s\<lparr>peer_closed := b\<rparr>) = V s"
begin

lemmas V_credit_simps = V_conn V_grant V_ctrl V_closed

lemma send_credit_return_V: "V (snd (send_credit_return s)) = V s"
proof -
  obtain r s1 where pi: "post_into (ctrl_slot s) (ctrl_send_wr_id (ctrl_slot s))
      \<lparr>env_length = 0, env_credits = of_nat (min (grant_pending s) 65535), env_flags = CREDIT_ONLY\<rparr> [] s = (r, s1)"
    by fastforce
  then obtain c where "s1 = s\<lparr>conn := c\<rparr>" by (metis post_into_frame snd_conv)
  then have "V s1 = V s" by (simp only: V_credit_simps)
  then show ?thesis
    by (simp add: send_credit_return_def Let_def pi V_credit_simps split: sum.split fault.split)
qed

lemma maybe_return_credits_V: "V (snd (maybe_return_credits n s)) = V s"
  by (simp add: maybe_return_credits_def send_credit_return_V)

lemma then_V:
  assumes "V (snd r) = V s" and "\<And>a. fst r = Inr a \<Longrightarrow> V (snd (f a (snd r))) = V (snd r)"
  shows "V (snd (and_then r f)) = V s"
  using assms by (auto simp: snd_and_then split: sum.split)

end

text \<open>One that sending does not look at either.\<close>

locale send_frame = credit_frame +
  assumes V_send_free: "V (s\<lparr>send_free := fs\<rparr>) = V s"
    and V_credits: "V (s\<lparr>send_credits := k\<rparr>) = V s"
    and V_stage: "V (s\<lparr>tx_stage := bs\<rparr>) = V s"
begin

lemmas V_simps = V_credit_simps V_send_free V_credits V_stage

lemma post_data_message_V: "V (snd (post_data_message payload s)) = V s"
proof -
  obtain r s1 where pi: "post_into (last (send_free s)) (send_wr_id (last (send_free s)))
      \<lparr>env_length = of_nat (length payload), env_credits = of_nat (min (grant_pending s) 65535),
       env_flags = 0\<rparr> payload (s\<lparr>send_free := butlast (send_free s)\<rparr>) = (r, s1)"
    by fastforce
  then obtain c where "s1 = (s\<lparr>send_free := butlast (send_free s)\<rparr>)\<lparr>conn := c\<rparr>"
    by (metis post_into_frame snd_conv)
  then have "V s1 = V s" by (simp only: V_simps)
  then show ?thesis
    by (simp add: post_data_message_def Let_def pi V_simps split: sum.split fault.split)
qed

lemma try_write_loop_V: "V (snd (try_write_loop cap input n s)) = V s"
proof (induction cap input n s rule: try_write_loop.induct)
  case (1 cap input n s)
  have "V (snd (try_write_loop cap (drop cap input) (n + cap)
      (snd (post_data_message (take cap input) s)))) = V s"
    if "cap \<le> length input" "can_send_data s" "fst (post_data_message (take cap input) s) = Inr u" for u
    using 1 that post_data_message_V [of _ s] by simp
  then show ?case
    by (subst try_write_loop.simps)
       (auto simp: Let_def post_data_message_V maybe_return_credits_V V_simps intro!: then_V split: sum.split)
qed

lemma try_write_V: "V (snd (try_write buf s)) = V s"
  by (auto simp: try_write_def Let_def V_simps post_data_message_V try_write_loop_V maybe_return_credits_V
      intro!: then_V)

lemma try_flush_stage_V: "V (snd (try_flush_stage s)) = V s"
  by (auto simp: try_flush_stage_def V_simps post_data_message_V maybe_return_credits_V intro!: then_V)

lemma try_write_from_V: "V (snd (try_write_from buf s)) = V s"
  unfolding try_write_from_def by (rule then_V) (simp_all add: try_write_V)

lemma poll_flush_ready_V: "V (snd (poll_flush_ready s)) = V s"
  unfolding poll_flush_ready_def by (rule then_V) (simp_all add: try_flush_stage_V)

end

text \<open>One that reading does not look at.\<close>

locale read_frame = credit_frame +
  assumes V_rx: "V (s\<lparr>rx_ready := ms\<rparr>) = V s"
begin

lemma post_recv_slot_V: "V (snd (post_recv_slot slot s)) = V s"
  by (cases rule: post_recv_slot_cases [of slot s]) (simp_all only: snd_conv V_credit_simps)

lemma try_read_loop_V: "V (snd (try_read_loop n acc s)) = V s"
proof (induction n acc s rule: try_read_loop.induct)
  case (1 n acc s)
  show ?case
  proof (cases "length acc < n \<and> rx_ready s \<noteq> []")
    case True
    then obtain m ms where rx: "length acc < n" "rx_ready s = m # ms" by (auto simp: neq_Nil_conv)
    define tk where "tk = min (rm_end m - rm_start m) (n - length acc)"
    define p where "p = post_recv_slot (rm_slot m) (s\<lparr>rx_ready := ms\<rparr>)"
    have p: "V (snd p) = V s" by (simp add: p_def post_recv_slot_V V_rx)
    have IH1: "V (snd (try_read_loop n (acc @ bs)
        ((snd p)\<lparr>grant_pending := wrap_add32 (grant_pending (snd p)) 1\<rparr>))) = V s"
      if "\<not> rm_end m < rm_start m" "recv_slot s (rm_slot m) = Inr bo"
        "copy_out (fst bo) (rm_start m) tk (smem s) = Inr bs" "rm_start m + tk = rm_end m" "fst p = Inr u"
      for bo bs u
      using 1(1) [OF rx that(1) tk_def that(2,3,4) p_def that(5)] p by (simp add: V_grant)
    have IH2: "V (snd (try_read_loop n (acc @ bs)
        (s\<lparr>rx_ready := m\<lparr>rm_start := rm_start m + tk\<rparr> # ms\<rparr>))) = V s"
      if "\<not> rm_end m < rm_start m" "recv_slot s (rm_slot m) = Inr bo"
        "copy_out (fst bo) (rm_start m) tk (smem s) = Inr bs" "rm_start m + tk \<noteq> rm_end m" for bo bs
      using 1(2) [OF rx that(1) tk_def that(2,3,4)] by (simp add: V_rx)
    show ?thesis
      by (subst try_read_loop.simps)
         (auto simp: rx Let_def tk_def [symmetric] p_def [symmetric] p IH1 IH2 V_rx
           simp del: One_nat_def split: sum.split)
  next
    case False
    then show ?thesis by (auto simp: try_read_loop.simps [of n acc s])
  qed
qed

lemma try_read_into_V: "V (snd (try_read_into n s)) = V s"
proof -
  have "V (snd (try_read n s)) = V s"
    by (auto simp: try_read_def try_read_loop_V maybe_return_credits_V intro!: then_V)
  then show ?thesis
    unfolding try_read_into_def
    by (rule then_V) (auto simp: return_owed_credits_def maybe_return_credits_V intro!: then_V split: option.split)
qed

end

interpretation rx_view: send_frame rx_ready
  by unfold_locales simp_all

interpretation stage_view: read_frame "\<lambda>s. (send_free s, send_credits s, tx_stage s)"
  by unfold_locales simp_all

text \<open>And what no operation looks at.\<close>

locale op_frame = send_frame V + read_frame V for V :: "hord_stream \<Rightarrow> 'v"

interpretation transfer_view: op_frame completed_transfers
  by unfold_locales simp_all

interpretation sizes_view: op_frame "\<lambda>s. (send_pool s, payload_cap s, writes_outstanding s)"
  by unfold_locales simp_all

section \<open>The system\<close>

datatype half_op = ReadOp nat | WriteHalfOp bytes | FlushOp | NextOp

definition poll_half :: "half_op \<Rightarrow> task \<Rightarrow> shared \<Rightarrow> bool \<times> shared" where
  "poll_half op t sh =
     (case op of
        ReadOp n \<Rightarrow> map_prod (\<lambda>r. r = Pending) id (read_half_poll_read n t sh)
      | WriteHalfOp buf \<Rightarrow> map_prod (\<lambda>r. r = Pending) id (write_half_poll_write buf t sh)
      | FlushOp \<Rightarrow> map_prod (\<lambda>r. r = Pending) id (write_half_poll_flush t sh)
      | NextOp \<Rightarrow> map_prod (\<lambda>r. r = Pending) id (data_plane_poll_next t sh))"

text \<open>
  \<open>sy_parked\<close> holds, for each task whose last poll was \<open>Pending\<close> and that was not woken since,
  the operation it waits in; \<open>sy_pump\<close> is whether the pump task is still running, and \<open>sy_pumped\<close>
  whether it has been polled; \<open>sy_failed\<close> records that the poll of a handle, whose post was
  refused, closed the stream. The environment may change what the fds, the NIC and the CM channel
  will answer.
\<close>

record split_system =
  sy_shared :: shared
  sy_pump :: bool
  sy_pumped :: bool
  sy_failed :: bool
  sy_parked :: "task \<Rightarrow> half_op option"

definition environment :: "async_stream \<Rightarrow> async_stream \<Rightarrow> bool" where
  "environment a b \<longleftrightarrow>
     (\<exists>evs es qs ms fs. b = a\<lparr>a_stream := (a_stream a)\<lparr>conn := (conn (a_stream a))\<lparr>arrivals := evs,
        cm_events := es\<rparr>\<rparr>, cq_ready := qs, cm_ready := ms, arm_faults := fs\<rparr>)"

inductive split_step :: "split_system \<Rightarrow> split_system \<Rightarrow> bool" where
  polled: "poll_half op t (sy_shared y) = (waiting, sh) \<Longrightarrow>
     split_step y (y\<lparr>sy_shared := sh, sy_parked := (sy_parked y)(t := (if waiting then Some op else None)),
        sy_failed := (sy_failed y \<or> \<not> shared_is_closed (sy_shared y) \<and> shared_is_closed sh)\<rparr>)"
| pumped: "sy_pump y \<Longrightarrow> pump_task (sy_shared y) = (woken, alive, sh) \<Longrightarrow>
     split_step y (y\<lparr>sy_shared := sh, sy_pump := alive, sy_pumped := True,
        sy_parked := (\<lambda>t. if t \<in> set woken then None else sy_parked y t)\<rparr>)"
| environ: "environment (sh_async (sy_shared y)) a \<Longrightarrow>
     split_step y (y\<lparr>sy_shared := (sy_shared y)\<lparr>sh_async := a\<rparr>\<rparr>)"
| dropped: "split_step y (y\<lparr>sy_shared := data_plane_disconnect (sy_shared y)\<rparr>)"

definition split_init :: "async_stream \<Rightarrow> split_system" where
  "split_init a = \<lparr>sy_shared = into_split a, sy_pump = True, sy_pumped = False, sy_failed = False, sy_parked = (\<lambda>_. None)\<rparr>"

abbreviation sy_stream :: "split_system \<Rightarrow> hord_stream" where
  "sy_stream y \<equiv> a_stream (sh_async (sy_shared y))"

text \<open>The operation of a handle, polled now, has a result for it.\<close>

definition half_answers :: "half_op \<Rightarrow> task \<Rightarrow> shared \<Rightarrow> bool" where
  "half_answers op t sh =
     (case op of
        ReadOp n \<Rightarrow> \<exists>bs. fst (read_half_poll_read n t sh) = Ready (Inr bs)
      | WriteHalfOp buf \<Rightarrow> \<exists>n. fst (write_half_poll_write buf t sh) = Ready (Inr n)
      | FlushOp \<Rightarrow> fst (write_half_poll_flush t sh) = Ready (Inr ())
      | NextOp \<Rightarrow> \<exists>i. fst (data_plane_poll_next t sh) = Ready (Inr i))"

text \<open>
  What that comes down to on an open stream: a reader has no message, a consumer no transfer, a
  writer no room, and a flush waits for a completion or for room.
\<close>

definition idle_for :: "half_op \<Rightarrow> hord_stream \<Rightarrow> bool" where
  "idle_for op s =
     (case op of
        ReadOp n \<Rightarrow> 0 < n \<and> rx_ready s = []
      | WriteHalfOp buf \<Rightarrow> buf \<noteq> [] \<and> stage_full buf s
      | FlushOp \<Rightarrow> unflushed s
      | NextOp \<Rightarrow> completed_transfers s = [])"

definition parked_ok :: "split_system \<Rightarrow> bool" where
  "parked_ok y \<longleftrightarrow>
     (\<forall>t op. sy_parked y t = Some op \<longrightarrow>
        t \<in> set (sh_wakers (sy_shared y)) \<and> sy_pump y \<and> idle_for op (sy_stream y)
        \<and> (peer_closed (sy_stream y) \<longrightarrow> sy_failed y))"

text \<open>The next completion will signal the channel, and none is waiting.\<close>

definition will_signal :: "async_stream \<Rightarrow> bool" where
  "will_signal a \<longleftrightarrow> a_armed a \<and> cq (conn (a_stream a)) = []"

lemma half_poll_cases:
  "half_poll attempt t sh = (r, sh') \<Longrightarrow>
     a_stream (sh_async sh') = snd (attempt (a_stream (sh_async sh)))
     \<and> sh_wakers sh' = (if r = Pending \<and> t \<notin> set (sh_wakers sh) then sh_wakers sh @ [t] else sh_wakers sh)
     \<and> (r = Pending \<longleftrightarrow> fst (attempt (a_stream (sh_async sh))) = Inr None)
     \<and> a_armed (sh_async sh') = a_armed (sh_async sh)"
  by (auto simp: half_poll_def Let_def on_stream_def register_waker_def split: sum.splits option.splits)

lemma try_write_full:
  assumes "queue_ok s" and "\<not> peer_closed s" and "stage_full buf s"
  shows "try_write_from buf s = and_then (maybe_return_credits 1 s) (\<lambda>_ s. (Inr None, s))"
proof -
  have "length (tx_stage s) < payload_cap s" using assms(1) stream_okD by (simp add: queue_ok_def)
  then have "try_write buf s = and_then (maybe_return_credits 1 s) (\<lambda>_ s. (Inr 0, s))"
    using assms(2,3) by (auto simp: try_write_def stage_full_def Let_def try_write_loop.simps [of _ _ 0])
  then show ?thesis by (auto simp: try_write_from_def and_then_def split: prod.split sum.split)
qed

lemma poll_flush_unflushed:
  assumes "unflushed s"
  shows "fst (poll_flush_ready s) \<noteq> Inr (Some ())"
proof
  assume "fst (poll_flush_ready s) = Inr (Some ())"
  then obtain t where run: "poll_flush_ready s = (Inr (Some ()), t)" by (metis prod.collapse)
  then have t: "try_flush_stage s = (Inr True, t)" "\<not> sends_outstanding t" "\<not> writes_pending t"
    by (auto simp: poll_flush_ready_def split: if_splits elim!: and_then_InrD)
  have "send_pool t = send_pool s" "writes_outstanding t = writes_outstanding s"
    "length (send_free t) \<le> length (send_free s)"
    using sizes_view.poll_flush_ready_V [of s] poll_flush_ready_room [of s] run by (auto simp: no_new_room_def)
  then have "tx_stage s \<noteq> []" "\<not> can_send_data s"
    using t assms by (auto simp: unflushed_def sends_outstanding_def writes_pending_def)
  then show False using t(1) by (auto simp: try_flush_stage_def elim!: and_then_InrD)
qed

lemma half_poll_no_answer:
  "(\<And>x. fst (attempt (a_stream (sh_async sh))) \<noteq> Inr (Some x)) \<Longrightarrow> fst (half_poll attempt t sh) \<noteq> Ready (Inr x)"
  by (auto simp: half_poll_def Let_def on_stream_def split: sum.split option.split)

lemma idle_no_answer:
  assumes "queue_ok (a_stream (sh_async sh))" and "\<not> peer_closed (a_stream (sh_async sh))"
    and "idle_for op (a_stream (sh_async sh))"
  shows "\<not> half_answers op t sh"
proof (cases op)
  case (ReadOp n)
  then have "fst (try_read_into n (a_stream (sh_async sh))) \<noteq> Inr (Some x)" for x
    using assms by (auto simp: idle_for_def try_read_into_def try_read_def fst_and_then split: sum.splits)
  from half_poll_no_answer [of "try_read_into n" sh t, OF this] show ?thesis by (simp add: ReadOp half_answers_def read_half_poll_read_def)
next
  case (WriteHalfOp buf)
  then have "fst (try_write_from buf (a_stream (sh_async sh))) \<noteq> Inr (Some x)" for x
    using assms try_write_full [OF assms(1,2), of buf] by (auto simp: idle_for_def fst_and_then split: sum.splits)
  from half_poll_no_answer [of "try_write_from buf" sh t, OF this] WriteHalfOp assms(3) show ?thesis
    by (simp add: half_answers_def write_half_poll_write_def idle_for_def)
next
  case FlushOp
  then have "fst (poll_flush_ready (a_stream (sh_async sh))) \<noteq> Inr (Some x)" for x
    using assms poll_flush_unflushed by (auto simp: idle_for_def)
  from half_poll_no_answer [of poll_flush_ready sh t, OF this] show ?thesis by (simp add: FlushOp half_answers_def write_half_poll_flush_def)
next
  case NextOp
  then have "fst (next_transfer (a_stream (sh_async sh))) \<noteq> Inr (Some x)" for x
    using assms by (simp add: idle_for_def next_transfer_def next_completed_transfer_def is_closed_def)
  from half_poll_no_answer [of next_transfer sh t, OF this] show ?thesis by (simp add: NextOp half_answers_def data_plane_poll_next_def)
qed

text \<open>An operation that brings nothing another handle may be waiting for.\<close>

definition brings_nothing :: "hord_stream \<Rightarrow> hord_stream \<Rightarrow> bool" where
  "brings_nothing s t \<longleftrightarrow> (rx_ready s = [] \<longrightarrow> rx_ready t = []) \<and> (completed_transfers s = [] \<longrightarrow> completed_transfers t = [])
     \<and> no_new_room s t \<and> (send_pool t, payload_cap t, writes_outstanding t) = (send_pool s, payload_cap s, writes_outstanding s)"

lemma brings_nothing_idle: "brings_nothing s t \<Longrightarrow> idle_for op s \<Longrightarrow> idle_for op t"
  by (auto simp: brings_nothing_def idle_for_def no_new_room_def stage_full_def unflushed_def sends_outstanding_def
      writes_pending_def split: half_op.splits)

lemma try_read_into_brings_nothing: "brings_nothing s (snd (try_read_into n s))"
proof -
  have "rx_ready (snd (try_read_into n s)) = []" if "rx_ready s = []"
  proof -
    have "rx_ready (snd (try_read n s)) = []" using that by (simp add: try_read_def)
    then show ?thesis
      by (auto simp: try_read_into_def snd_and_then return_owed_credits_def rx_view.maybe_return_credits_V
          split: sum.split option.split)
  qed
  moreover have "no_new_room s (snd (try_read_into n s))"
    using stage_view.try_read_into_V [of n s] try_read_into_waits [of s n]
    by (auto simp: no_new_room_def can_send_data_def keeps_waiting_def)
  ultimately show ?thesis
    using transfer_view.try_read_into_V [of n s] sizes_view.try_read_into_V [of n s] by (simp add: brings_nothing_def)
qed

text \<open>
  What the operation of a handle promises the others: it keeps the invariant, a closed stream
  stays closed, it gives up only on an open stream that has nothing for it, and it brings
  nothing for anyone else.
\<close>

definition handle_step :: "half_op \<Rightarrow> task \<Rightarrow> bool \<Rightarrow> shared \<Rightarrow> shared \<Rightarrow> bool" where
  "handle_step op t waiting sh sh' \<longleftrightarrow>
     queue_ok (a_stream (sh_async sh'))
     \<and> (peer_closed (a_stream (sh_async sh)) \<longrightarrow> peer_closed (a_stream (sh_async sh')))
     \<and> (\<forall>op'. idle_for op' (a_stream (sh_async sh)) \<longrightarrow> idle_for op' (a_stream (sh_async sh')))
     \<and> (waiting \<longrightarrow> idle_for op (a_stream (sh_async sh')) \<and> \<not> peer_closed (a_stream (sh_async sh'))
          \<and> t \<in> set (sh_wakers sh'))
     \<and> set (sh_wakers sh) \<subseteq> set (sh_wakers sh')
     \<and> (will_signal (sh_async sh) \<longrightarrow> will_signal (sh_async sh'))"

locale handle_op =
  fixes attempt :: "hord_stream \<Rightarrow> 'a option res \<times> hord_stream" and op :: half_op
  assumes att_ok: "queue_ok s \<Longrightarrow> queue_ok (snd (attempt s))"
    and att_waits: "keeps_waiting s (snd (attempt s))"
    and att_none: "queue_ok s \<Longrightarrow> attempt s = (Inr None, t) \<Longrightarrow> \<not> peer_closed t \<and> idle_for op t"
    and att_brings_nothing: "brings_nothing s (snd (attempt s))"
begin

lemma half_poll_step:
  assumes run: "half_poll attempt t sh = (r, sh')" and ok: "queue_ok (a_stream (sh_async sh))"
  shows "handle_step op t (r = Pending) sh sh'"
  using half_poll_cases [OF run] att_ok [OF ok] att_none [OF ok] att_waits [of "a_stream (sh_async sh)"]
    brings_nothing_idle [OF att_brings_nothing [of "a_stream (sh_async sh)"]]
  by (cases "attempt (a_stream (sh_async sh))")
     (auto simp: keeps_waiting_def will_signal_def waits_on_def handle_step_def)

end

interpretation reader: handle_op "try_read_into n" "ReadOp n" for n
proof unfold_locales
  show "\<not> peer_closed t \<and> idle_for (ReadOp n) t" if "try_read_into n s = (Inr None, t)" for s t
    using try_read_into_none [OF that] by (simp add: idle_for_def)
qed (use queue.attempts_safe(1) in \<open>auto simp: safe_outcome_def try_read_into_waits try_read_into_brings_nothing\<close>)

interpretation writer: handle_op "try_write_from (x # xs)" "WriteHalfOp (x # xs)" for x xs
proof unfold_locales
  show "\<not> peer_closed t \<and> idle_for (WriteHalfOp (x # xs)) t"
    if "queue_ok s" "try_write_from (x # xs) s = (Inr None, t)" for s t
    using try_write_from_none [OF that(1) _ that(2)] by (simp add: idle_for_def)
qed (use queue.attempts_safe(2) sizes_view.try_write_from_V in \<open>auto simp: safe_outcome_def try_write_from_waits
    brings_nothing_def rx_view.try_write_from_V transfer_view.try_write_from_V try_write_from_room\<close>)

interpretation flusher: handle_op poll_flush_ready FlushOp
proof unfold_locales
  show "\<not> peer_closed t \<and> idle_for FlushOp t" if "poll_flush_ready s = (Inr None, t)" for s t
    using poll_flush_ready_unflushed [OF that] poll_flush_ready_none [OF that] by (simp add: idle_for_def)
qed (use queue.attempts_safe(3) sizes_view.poll_flush_ready_V in \<open>auto simp: safe_outcome_def poll_flush_ready_waits
    brings_nothing_def rx_view.poll_flush_ready_V transfer_view.poll_flush_ready_V poll_flush_ready_room\<close>)

interpretation consumer: handle_op next_transfer NextOp
proof unfold_locales
  show "\<not> peer_closed t \<and> idle_for NextOp t" if "next_transfer s = (Inr None, t)" for s t
    using next_transfer_none [OF that] by (auto simp: idle_for_def)
  show "brings_nothing s (snd (next_transfer s))" for s
    by (auto simp: brings_nothing_def next_transfer_def next_completed_transfer_def no_new_room_def can_send_data_def
        split: list.split)
qed (use queue.attempts_safe(4) in \<open>auto simp: safe_outcome_def next_transfer_waits\<close>)

lemma poll_half_step:
  assumes run: "poll_half op t sh = (waiting, sh')" and ok: "queue_ok (a_stream (sh_async sh))"
  shows "handle_step op t waiting sh sh'"
proof -
  consider (nothing) "sh' = sh" "\<not> waiting"
    | (r) n r where "op = ReadOp n" "half_poll (try_read_into n) t sh = (r, sh')" "waiting = (r = Pending)"
    | (w) x xs r where "op = WriteHalfOp (x # xs)" "half_poll (try_write_from (x # xs)) t sh = (r, sh')" "waiting = (r = Pending)"
    | (f) r where "op = FlushOp" "half_poll poll_flush_ready t sh = (r, sh')" "waiting = (r = Pending)"
    | (n) r where "op = NextOp" "half_poll next_transfer t sh = (r, sh')" "waiting = (r = Pending)"
    using run
    by (cases op) (auto simp: poll_half_def read_half_poll_read_def write_half_poll_write_def
        write_half_poll_flush_def data_plane_poll_next_def map_prod_def neq_Nil_conv split: if_splits prod.splits)
  then show ?thesis
  proof cases
    case nothing
    then show ?thesis using ok by (simp add: handle_step_def)
  next
    case r
    show ?thesis unfolding r by (rule reader.half_poll_step [OF r(2) ok])
  next
    case w
    show ?thesis unfolding w by (rule writer.half_poll_step [OF w(2) ok])
  next
    case f
    show ?thesis unfolding f by (rule flusher.half_poll_step [OF f(2) ok])
  next
    case n
    show ?thesis unfolding n by (rule consumer.half_poll_step [OF n(2) ok])
  qed
qed

section \<open>The pump wakes everyone\<close>

text \<open>
  A poll of the pump either woke everyone that was parked, or it changed nothing a parked
  handle waits for; and when it ends the stream is closed.
\<close>

lemma pump_task_cases:
  assumes "pump_task sh = (woken, alive, sh')" and "queue_ok (a_stream (sh_async sh))"
  shows "queue_ok (a_stream (sh_async sh')) \<and> (if alive then will_signal (sh_async sh') else peer_closed (a_stream (sh_async sh')))
    \<and> (set (sh_wakers sh) \<subseteq> set woken
       \<or> alive \<and> sh_wakers sh' = sh_wakers sh \<and> only_conn (a_stream (sh_async sh)) (a_stream (sh_async sh')))"
  using assms
proof (induction "a_work (sh_async sh)" arbitrary: sh woken alive sh' rule: less_induct)
  case less
  obtain r a where r: "poll_reactor (sh_async sh) = (r, a)" by fastforce
  have q: "queue_ok (a_stream a)" "r \<noteq> Ready (Inl Panic)"
    using queue.poll_reactor_safe [OF less.prems(2)] r by (simp_all add: poll_outcome_def)
  have d: "drive_once sh = (r, sh\<lparr>sh_async := a\<rparr>)" by (simp add: drive_once_def r)
  show ?case
  proof (cases r)
    case Pending
    then show ?thesis
      using less.prems(1) q d poll_reactor_none [of "sh_async sh" a] poll_reactor_cases(1) [OF r] r
      by (auto simp: pump_task.simps [of sh] will_signal_def)
  next
    case (Ready v)
    show ?thesis
    proof (cases v)
      case (Inl e)
      then show ?thesis
        using less.prems(1) q d Ready queue.P_closed [OF q(1)]
        by (auto simp: pump_task.simps [of sh] wake_all_def mark_closed_def Let_def)
    next
      case (Inr u)
      let ?sh1 = "sh\<lparr>sh_async := a, sh_wakers := []\<rparr>"
      show ?thesis
      proof (cases "peer_closed (a_stream a)")
        case True
        then show ?thesis
          using less.prems(1) q d Ready Inr
          by (auto simp: pump_task.simps [of sh] wake_all_def shared_is_closed_def is_closed_def Let_def)
      next
        case False
        then have "pump_task sh = (let r = pump_task ?sh1 in (sh_wakers sh @ fst r, snd r))"
          using d Ready Inr
          by (simp add: pump_task.simps [of sh] wake_all_def shared_is_closed_def is_closed_def)
        then obtain w where "pump_task ?sh1 = (w, alive, sh')" "woken = sh_wakers sh @ w"
          using less.prems(1) by (cases "pump_task ?sh1") (auto simp: Let_def)
        moreover have "a_work (sh_async ?sh1) < a_work (sh_async sh)"
          using poll_reactor_cases(2) [OF r] Ready Inr by simp
        ultimately show ?thesis using less.hyps [of ?sh1 w alive sh'] q by auto
      qed
    qed
  qed
qed

section \<open>No wake-up is lost\<close>

definition split_ok :: "split_system \<Rightarrow> bool" where
  "split_ok y \<longleftrightarrow> queue_ok (sy_stream y) \<and> (if sy_pump y then sy_pumped y \<longrightarrow> will_signal (sh_async (sy_shared y)) else peer_closed (sy_stream y))
     \<and> parked_ok y"

lemma idle_for_only_conn: "only_conn s t \<Longrightarrow> idle_for op t = idle_for op s"
  using only_conn_view [of s t] only_conn_send_view [of s t] by (simp add: idle_for_def split: half_op.split)

lemma environment_ok:
  assumes "environment a b" and "queue_ok (a_stream a)"
  shows "queue_ok (a_stream b)" "only_conn (a_stream a) (a_stream b)"
    "peer_closed (a_stream b) = peer_closed (a_stream a)"
proof -
  from assms(1) obtain evs es where b: "a_stream b =
      (a_stream a)\<lparr>conn := (conn (a_stream a))\<lparr>arrivals := evs, cm_events := es\<rparr>\<rparr>"
    by (auto simp: environment_def)
  from queue.P_cm [OF queue.P_script [OF assms(2), of evs], of es]
  show "queue_ok (a_stream b)" "only_conn (a_stream a) (a_stream b)"
    "peer_closed (a_stream b) = peer_closed (a_stream a)" by (simp_all add: b)
qed

lemma stream_disconnect_ok: "queue_ok s \<Longrightarrow> queue_ok (stream_disconnect s)"
proof -
  assume q: "queue_ok s"
  have "stream_ok (s\<lparr>conn := (conn s)\<lparr>disconnected := True, disconnects_sent := n\<rparr>\<rparr>)" for n
    using q by (simp add: queue_ok_def stream_ok_def owned_defs)
  moreover have "layout_ok (s\<lparr>conn := (conn s)\<lparr>disconnected := True, disconnects_sent := n\<rparr>\<rparr>)" for n
    using q layout_ok_cong [of "s\<lparr>conn := (conn s)\<lparr>disconnected := True, disconnects_sent := n\<rparr>\<rparr>" s]
    by (simp add: queue_ok_def)
  ultimately show ?thesis
    using q by (simp add: stream_disconnect_def disconnect_def do_disconnect_def queue_ok_def)
qed

lemma split_step_ok:
  assumes "split_step y z" and ok: "split_ok y"
  shows "split_ok z"
proof -
  from ok have y: "queue_ok (sy_stream y)"
    "if sy_pump y then sy_pumped y \<longrightarrow> will_signal (sh_async (sy_shared y)) else peer_closed (sy_stream y)"
    "\<And>u op. sy_parked y u = Some op \<Longrightarrow>
       u \<in> set (sh_wakers (sy_shared y)) \<and> sy_pump y \<and> idle_for op (sy_stream y)
         \<and> (peer_closed (sy_stream y) \<longrightarrow> sy_failed y)"
    by (auto simp: split_ok_def parked_ok_def)
  from assms(1) show ?thesis
  proof cases
    case (polled op t waiting sh)
    note p = poll_half_step [OF polled(2) y(1), unfolded handle_step_def]
    have "parked_ok z"
      unfolding parked_ok_def
    proof (intro allI impI)
      fix u op'
      assume u: "sy_parked z u = Some op'"
      show "u \<in> set (sh_wakers (sy_shared z)) \<and> sy_pump z \<and> idle_for op' (sy_stream z)
          \<and> (peer_closed (sy_stream z) \<longrightarrow> sy_failed z)"
        using u y(2) y(3) [of u op'] y(3) [of t] p
        by (cases "u = t") (auto simp: polled(1) shared_is_closed_def is_closed_def split: if_splits)
    qed
    then show ?thesis using y p by (auto simp: polled(1) split_ok_def split: if_splits)
  next
    case (pumped woken alive sh)
    note p = pump_task_cases [OF pumped(3) y(1)]
    have "parked_ok z"
      unfolding parked_ok_def
    proof (intro allI impI)
      fix u op assume "sy_parked z u = Some op"
      then have "sy_parked y u = Some op" "u \<notin> set woken" by (auto simp: pumped(1) split: if_splits)
      with y(3) [of u op] p idle_for_only_conn only_conn_view(2)
      show "u \<in> set (sh_wakers (sy_shared z)) \<and> sy_pump z \<and> idle_for op (sy_stream z)
          \<and> (peer_closed (sy_stream z) \<longrightarrow> sy_failed z)"
        by (auto simp: pumped(1))
    qed
    then show ?thesis using p by (simp add: pumped(1) split_ok_def)
  next
    case (environ a)
    then have "will_signal (sh_async (sy_shared y)) \<Longrightarrow> will_signal a"
      by (auto simp: environment_def will_signal_def)
    then show ?thesis
      using y environ environment_ok [of "sh_async (sy_shared y)" a] idle_for_only_conn
      by (auto simp: split_ok_def parked_ok_def split: if_splits)
  next
    case dropped
    let ?t = "stream_disconnect (sy_stream y)"
    have oc: "only_conn (sy_stream y) ?t" and cq: "cq (conn ?t) = cq (conn (sy_stream y))"
      by (simp_all add: stream_disconnect_def disconnect_def do_disconnect_def)
    show ?thesis
      using y stream_disconnect_ok [OF y(1)] idle_for_only_conn [OF oc] only_conn_view(2) [OF oc] cq
      by (auto simp: dropped split_ok_def parked_ok_def data_plane_disconnect_def will_signal_def split: if_splits)
  qed
qed

lemma split_reachable_ok:
  assumes "split_step\<^sup>*\<^sup>* (split_init a) y" and "queue_ok (a_stream a)"
  shows "split_ok y"
  using assms(1)
proof (induction rule: rtranclp_induct)
  case base
  then show ?case using assms(2) by (simp add: split_ok_def split_init_def into_split_def parked_ok_def)
next
  case (step y z)
  then show ?case using split_step_ok by blast
qed

end
