(* ===== verification/Accept_Async.thy ===== *)
theory Accept_Async
  imports Async_Stream Setup
begin

text \<open>
  How an async stream comes to be: \<open>connect\<close> and \<open>from_accepted\<close> wrap a blocking set-up, and
  \<open>accept_async\<close> finishes a prepared connection without blocking its worker, in two phases that
  park between tries and are bounded by a timeout. A stream that comes out of either satisfies
  the endpoint's invariant.
\<close>

section \<open>Wrapping a stream\<close>

text \<open>
  What the runtime answers: whether registering the two fds succeeds, and what the fds and the
  arm calls report later.
\<close>

record runtime =
  rt_cq :: bool
  rt_cm :: bool
  rt_cq_ready :: "fd_poll list"
  rt_cm_ready :: "fd_poll list"
  rt_arm_faults :: "bool list"

definition wrap_stream :: "runtime \<Rightarrow> hord_stream \<Rightarrow> async_stream res" where
  "wrap_stream rt s =
     (if \<not> rt_cq rt then Inl (io_err ErrOther)
      else let p = set_cm_nonblock (conn s)
           in Inr \<lparr>a_stream = s\<lparr>conn := snd p\<rparr>, a_cm = (\<not> isl (fst p) \<and> rt_cm rt), a_armed = False,
                   cq_ready = rt_cq_ready rt, cm_ready = rt_cm_ready rt, arm_faults = rt_arm_faults rt\<rparr>)"

definition async_connect ::
  "nat \<Rightarrow> nat \<Rightarrow> bool \<Rightarrow> runtime \<Rightarrow> connection \<Rightarrow> hord_config \<Rightarrow> async_stream res" where
  "async_connect budget now addr_ok rt c cfg =
     (case hord_connect budget now addr_ok c cfg of Inl e \<Rightarrow> Inl e | Inr s \<Rightarrow> wrap_stream rt s)"

definition async_from_accepted ::
  "nat \<Rightarrow> nat \<Rightarrow> runtime \<Rightarrow> connection \<Rightarrow> hord_config \<Rightarrow> async_stream res" where
  "async_from_accepted budget now rt c cfg =
     (case from_accepted budget now c cfg of Inl e \<Rightarrow> Inl e | Inr s \<Rightarrow> wrap_stream rt s)"

section \<open>The staged handshake\<close>

text \<open>
  What ends each wait of a phase: the fd becomes readable, waiting on it fails, or the timer
  fires. Beyond the script only the timer is left.
\<close>

datatype wake = Readable | WaitFailed | Elapsed

fun establish_phase :: "wake list \<Rightarrow> hord_stream \<Rightarrow> unit res \<times> hord_stream" where
  "establish_phase ws s =
     and_then (on_conn poll_established s) (\<lambda>up s.
       if up then (Inr (), s)
       else case ws of
              Readable # ws' \<Rightarrow> establish_phase ws' s
            | WaitFailed # _ \<Rightarrow> (Inl (io_err ErrOther), s)
            | _ \<Rightarrow> (Inl (io_err TimedOut), s))"

declare establish_phase.simps [simp del]

text \<open>\<open>arm_cq\<close> on the shared reactor, then a second look before parking on the CQ fd.\<close>

definition exchange_try :: "async_stream \<Rightarrow> handshake option res \<times> async_stream" where
  "exchange_try a =
     and_then (on_stream poll_handshake a) (\<lambda>peer a.
       case peer of
         Some h \<Rightarrow> (Inr (Some h), a)
       | None \<Rightarrow> and_then (arm_cq a) (\<lambda>_. on_stream poll_handshake))"

fun exchange_phase :: "wake list \<Rightarrow> async_stream \<Rightarrow> handshake res \<times> async_stream" where
  "exchange_phase ws a =
     and_then (exchange_try a) (\<lambda>peer a.
       case peer of
         Some h \<Rightarrow> (Inr h, a)
       | None \<Rightarrow>
           (case ws of
              Readable # ws' \<Rightarrow> exchange_phase ws' (a\<lparr>a_armed := False\<rparr>)
            | WaitFailed # _ \<Rightarrow> (Inl (io_err ErrOther), a)
            | _ \<Rightarrow> (Inl (io_err TimedOut), a)))"

declare exchange_phase.simps [simp del]

definition accept_async ::
  "nat \<Rightarrow> wake list \<Rightarrow> wake list \<Rightarrow> runtime \<Rightarrow> hord_stream \<Rightarrow> hord_config \<Rightarrow> async_stream res" where
  "accept_async now est ex rt prepared cfg =
     (if \<not> rt_cq rt then Inl (io_err ErrOther)
      else case on_conn set_cm_nonblock prepared of
        (Inl e, _) \<Rightarrow> Inl e
      | (Inr _, s0) \<Rightarrow>
          if \<not> rt_cm rt then Inl (io_err ErrOther)
          else (case and_then (establish_phase est s0) (\<lambda>_. begin_handshake_send cfg) of
                  (Inl e, _) \<Rightarrow> Inl e
                | (Inr _, s1) \<Rightarrow>
                    (case exchange_phase ex \<lparr>a_stream = s1, a_cm = True, a_armed = False,
                        cq_ready = rt_cq_ready rt, cm_ready = rt_cm_ready rt, arm_faults = rt_arm_faults rt\<rparr> of
                       (Inl e, _) \<Rightarrow> Inl e
                     | (Inr peer, a) \<Rightarrow>
                         (case finish_handshake now peer (a_stream a) of
                            (Inl e, _) \<Rightarrow> Inl e | (Inr _, s2) \<Rightarrow> Inr (a\<lparr>a_stream := s2\<rparr>)))))"

section \<open>What comes out\<close>

lemma core_set_cm_nonblock: "core (snd (set_cm_nonblock c)) = core c"
  by (simp add: set_cm_nonblock_def)

lemma wrap_stream_world:
  assumes "wrap_stream rt s = Inr a" and "world_ok s"
  shows "world_ok (a_stream a)"
proof -
  have "a_stream a = s\<lparr>conn := snd (set_cm_nonblock (conn s))\<rparr>"
    using assms(1) by (auto simp: wrap_stream_def Let_def split: if_splits)
  then show ?thesis
    using world_ok_cong [of "a_stream a" s] assms(2) core_set_cm_nonblock by (simp add: live_def)
qed

lemma async_connect_world:
  assumes "fresh_conn c" and "config_ok cfg" and "async_connect budget now addr_ok rt c cfg = Inr a"
  shows "world_ok (a_stream a)"
  using assms hord_connect_world [OF assms(1,2)] wrap_stream_world
  by (auto simp: async_connect_def split: sum.splits)

lemma async_from_accepted_world:
  assumes "fresh_conn c" and "config_ok cfg" and "async_from_accepted budget now rt c cfg = Inr a"
  shows "world_ok (a_stream a)"
  using assms from_accepted_world [OF assms(1,2)] wrap_stream_world
  by (auto simp: async_from_accepted_def split: sum.splits)

lemma establish_phase_setup:
  "setup_ok s \<Longrightarrow> unsent s \<Longrightarrow> establish_phase ws s = (Inr u, t) \<Longrightarrow> setup_ok t \<and> unsent t"
proof (induction ws arbitrary: s)
  have core: "core (snd (poll_established c)) = core c" for c by (simp add: poll_established_def)
  {
    case Nil
    from Nil(3) obtain up s1 where "on_conn poll_established s = (Inr up, s1)"
      "(if up then (Inr (), s1) else (Inl (io_err TimedOut), s1)) = (Inr u, t)"
      unfolding establish_phase.simps [of "[]" s] list.case by (rule and_then_InrD)
    then show ?case using on_conn_setup [OF core _ Nil(1,2)] by (auto split: if_splits)
  next
    case (Cons w ws)
    from Cons(4) obtain up s1 where s1: "on_conn poll_established s = (Inr up, s1)"
      "(if up then (Inr (), s1) else case w of Readable \<Rightarrow> establish_phase ws s1
        | WaitFailed \<Rightarrow> (Inl (io_err ErrOther), s1) | Elapsed \<Rightarrow> (Inl (io_err TimedOut), s1)) = (Inr u, t)"
      unfolding establish_phase.simps [of "w # ws" s] list.case by (rule and_then_InrD)
    then show ?case
      using on_conn_setup [OF core s1(1) Cons(2,3)] Cons.IH [of s1] by (auto split: if_splits wake.splits)
  }
qed

lemma on_stream_InrD: "on_stream f a = (Inr x, b) \<Longrightarrow> f (a_stream a) = (Inr x, a_stream b) \<and> b = a\<lparr>a_stream := a_stream b\<rparr>"
  by (cases "f (a_stream a)") (auto simp: on_stream_def Let_def)

lemma exchange_try_setup:
  assumes "setup_ok (a_stream a)" and "exchange_try a = (Inr peer, b)"
  shows "setup_ok (a_stream b) \<and> (peer \<noteq> None \<longrightarrow> hs_got_recv (a_stream b) \<and> hs_got_send (a_stream b)) \<and> a_cm b = a_cm a"
proof -
  from assms(2) obtain p c where p: "on_stream poll_handshake a = (Inr p, c)"
    and r: "(case p of Some h \<Rightarrow> (Inr (Some h), c)
       | None \<Rightarrow> and_then (arm_cq c) (\<lambda>_. on_stream poll_handshake)) = (Inr peer, b)"
    unfolding exchange_try_def by (rule and_then_InrD)
  have cm: "a_cm y = a_cm x" if "on_stream f x = (r, y)" for f x r and y :: async_stream
    using that by (auto simp: on_stream_def Let_def)
  have c: "setup_ok (a_stream c) \<and> (p \<noteq> None \<longrightarrow> hs_got_recv (a_stream c) \<and> hs_got_send (a_stream c))"
    using poll_handshake_setup [OF assms(1)] on_stream_InrD [OF p] by blast
  show ?thesis
  proof (cases p)
    case None
    with r obtain d where arm: "arm_cq c = (Inr (), d)" and d: "on_stream poll_handshake d = (Inr peer, b)"
      by (auto elim: and_then_InrD)
    then have "a_stream d = a_stream c" "a_cm d = a_cm c"
      by (cases rule: arm_cq_cases [of c]; auto)+
    then show ?thesis
      using poll_handshake_setup [of "a_stream d"] on_stream_InrD [OF d] c cm [OF d] cm [OF p] by auto
  qed (use r c cm [OF p] in auto)
qed

lemma exchange_phase_setup:
  "setup_ok (a_stream a) \<Longrightarrow> exchange_phase ws a = (Inr h, b) \<Longrightarrow>
     setup_ok (a_stream b) \<and> hs_got_recv (a_stream b) \<and> hs_got_send (a_stream b) \<and> a_cm b = a_cm a"
proof (induction ws arbitrary: a)
  case Nil
  from Nil(2) obtain p c where "exchange_try a = (Inr p, c)"
    "(case p of Some h \<Rightarrow> (Inr h, c) | None \<Rightarrow> (Inl (io_err TimedOut), c)) = (Inr h, b)"
    unfolding exchange_phase.simps [of "[]" a] list.case by (rule and_then_InrD)
  then show ?case using exchange_try_setup [OF Nil(1)] by (auto split: option.splits)
next
  case (Cons w ws)
  from Cons(3) obtain p c where c: "exchange_try a = (Inr p, c)"
    "(case p of Some h \<Rightarrow> (Inr h, c) | None \<Rightarrow> case w of Readable \<Rightarrow> exchange_phase ws (c\<lparr>a_armed := False\<rparr>)
        | WaitFailed \<Rightarrow> (Inl (io_err ErrOther), c) | Elapsed \<Rightarrow> (Inl (io_err TimedOut), c)) = (Inr h, b)"
    unfolding exchange_phase.simps [of "w # ws" a] list.case by (rule and_then_InrD)
  then show ?case
    using exchange_try_setup [OF Cons(2) c(1)] Cons.IH [of "c\<lparr>a_armed := False\<rparr>"]
    by (auto split: option.splits wake.splits)
qed

lemma accept_async_world:
  assumes "fresh_conn c" and "config_ok cfg" and prep: "accept_prepare c cfg = Inr s"
    and run: "accept_async now est ex rt s cfg = Inr a"
  shows "world_ok (a_stream a) \<and> a_cm a"
proof -
  obtain s0 where nc: "new_common c cfg = Inr s0" and eb: "on_conn accept_establish_begin s0 = (Inr (), s)"
    using prep by (auto simp: accept_prepare_def split: sum.splits prod.splits)
  note S0 = new_common_setup [OF assms(1,2) nc]
  note S = on_conn_setup [OF core_accept_establish_begin eb conjunct1 [OF S0] conjunct2 [OF S0]]
  obtain s1 where nb: "on_conn set_cm_nonblock s = (Inr (), s1)"
    using run by (auto simp: accept_async_def split: if_splits sum.splits prod.splits)
  note S1 = on_conn_setup [OF core_set_cm_nonblock nb S]
  define base where "base s2 = \<lparr>a_stream = s2, a_cm = True, a_armed = False, cq_ready = rt_cq_ready rt,
      cm_ready = rt_cm_ready rt, arm_faults = rt_arm_faults rt\<rparr>" for s2
  obtain u s2 where eb: "and_then (establish_phase est s1) (\<lambda>_. begin_handshake_send cfg) = (Inr u, s2)"
    and rest: "(case exchange_phase ex (base s2) of (Inl e, _) \<Rightarrow> Inl e
       | (Inr peer, a) \<Rightarrow> (case finish_handshake now peer (a_stream a) of
            (Inl e, _) \<Rightarrow> Inl e | (Inr _, s2) \<Rightarrow> Inr (a\<lparr>a_stream := s2\<rparr>))) = Inr a"
    using run nb unfolding base_def by (auto simp: accept_async_def split: if_splits sum.splits prod.splits)
  from eb obtain t where es: "establish_phase est s1 = (Inr (), t)" and bs: "begin_handshake_send cfg t = (Inr u, s2)"
    by (auto elim: and_then_InrD)
  have T: "setup_ok t" "unsent t" using establish_phase_setup [OF S1 es] by auto
  have s2: "setup_ok (a_stream (base s2))"
    using begin_handshake_send_setup [OF T bs] by (simp add: base_def)
  from rest obtain peer b v s3 where b: "exchange_phase ex (base s2) = (Inr peer, b)"
    and ap: "apply_peer now peer (a_stream b) = (Inr v, s3)" and a: "a = b\<lparr>a_stream := s3\<rparr>"
    by (auto simp: finish_handshake_def split: sum.splits prod.splits)
  have "world_ok s3" using exchange_phase_setup [OF s2 b] apply_peer_world [OF _ _ _ ap] by blast
  moreover have "a_cm b" using exchange_phase_setup [OF s2 b] by (simp add: base_def)
  ultimately show ?thesis by (simp add: a)
qed

end
