(* ===== verification/Listener.thy ===== *)
theory Listener
  imports Setup "HOL-Library.Sublist"
begin

text \<open>
  The listening endpoint of \<open>hord-core/src/lib.rs\<close>: the shared protection-domain registry, bind,
  the blocking and the non-blocking accept over one event handler, and the accept entry points
  of \<open>hord-stream/src/stream.rs\<close> on top. A failed connection set-up is rejected and reported
  as that connection's failure, never as the listener's; accepted connections are fresh server
  endpoints in INIT, on the registry's domain of their device when it is shared.
\<close>

section \<open>The shared protection-domain registry\<close>

record shared_pd =
  pds :: "(nat \<times> nat) list"
  next_pd :: nat
  pd_faults :: "bool list"

definition shared_pd_new :: "bool list \<Rightarrow> shared_pd" where
  "shared_pd_new fs = \<lparr>pds = [], next_pd = 0, pd_faults = fs\<rparr>"

definition for_context :: "nat \<Rightarrow> shared_pd \<Rightarrow> nat res \<times> shared_pd" where
  "for_context ctx sp =
     (case map_of (pds sp) ctx of
        Some pd \<Rightarrow> (Inr pd, sp)
      | None \<Rightarrow>
          let (bad, fs) = next_fault (pd_faults sp); pd = next_pd sp in
          if bad then (Inl (io_err ErrOther), sp\<lparr>pd_faults := fs\<rparr>)
          else (Inr pd, \<lparr>pds = (ctx, pd) # pds sp, next_pd = Suc pd, pd_faults = fs\<rparr>))"

definition pd_count :: "shared_pd \<Rightarrow> nat" where
  "pd_count sp = length (pds sp)"

definition single_pd :: "shared_pd \<Rightarrow> nat res" where
  "single_pd sp = (case pds sp of [p] \<Rightarrow> Inr (snd p) | _ \<Rightarrow> Inl (io_err ErrOther))"

text \<open>A registration names its domain: the shared one, or the connection's own.\<close>

datatype pd_id = OwnPd | SharedPdOf nat

record shared_mr =
  sm_region :: mr
  sm_pd :: pd_id

text \<open>\<open>key\<close> is what \<open>reg_mr\<close> answers: the keys of the region, or a failure.\<close>

definition mr_new :: "pd_id \<Rightarrow> nat \<Rightarrow> nat \<Rightarrow> (u32 \<times> u32) option \<Rightarrow> shared_mr res" where
  "mr_new pd ptr len key =
     (case key of
        None \<Rightarrow> Inl (io_err ErrOther)
      | Some (l, r) \<Rightarrow>
          Inr \<lparr>sm_region = \<lparr>mr_addr = ptr, mr_len = len, mr_lkey = l, mr_rkey = r\<rparr>, sm_pd = pd\<rparr>)"

definition shared_register_external ::
  "nat \<Rightarrow> nat \<Rightarrow> (u32 \<times> u32) option \<Rightarrow> shared_pd \<Rightarrow> shared_mr res" where
  "shared_register_external ptr len key sp =
     (case single_pd sp of Inl e \<Rightarrow> Inl e | Inr pd \<Rightarrow> mr_new (SharedPdOf pd) ptr len key)"

section \<open>The listener\<close>

text \<open>
  A connection request carries the cm id of the peer: the device it resolved to, and the
  endpoint that will be built on it. \<open>rejected\<close> logs the ids the listener turned away.
\<close>

record request =
  rq_id :: nat
  rq_device :: "nat option"
  rq_conn :: connection

record listen_event =
  le_type :: event_type
  le_ack_ok :: bool
  le_request :: "request option"

datatype listen_poll = ListenEvent listen_event | NoEvent | ListenFail

record listener =
  channel :: "listen_poll list"
  listen_pd :: "shared_pd option"
  rejected :: "nat list"

record accepted =
  ac_conn :: connection
  ac_pd :: pd_id

text \<open>
  \<open>bind_inner\<close>: the address parses, then the channel, the id and the bind, the domain of a
  device the bind already resolved, and the listen; each may fail.
\<close>

definition bind_inner ::
  "bool \<Rightarrow> bool list \<Rightarrow> nat option \<Rightarrow> listen_poll list \<Rightarrow> shared_pd option \<Rightarrow> listener res" where
  "bind_inner addr_ok calls dev events shared =
     (if \<not> addr_ok then Inl (io_err InvalidInput)
      else if True \<in> set (take 3 calls) then Inl (io_err ErrOther)
      else case (case (shared, dev) of
                   (Some sp, Some ctx) \<Rightarrow> map_prod id Some (for_context ctx sp)
                 | _ \<Rightarrow> (Inr 0, shared)) of
             (Inl e, _) \<Rightarrow> Inl e
           | (Inr _, shared') \<Rightarrow>
               if True \<in> set (take 1 (drop 3 calls)) then Inl (io_err ErrOther)
               else Inr \<lparr>channel = events, listen_pd = shared', rejected = []\<rparr>)"

definition listener_bind :: "bool \<Rightarrow> bool list \<Rightarrow> nat option \<Rightarrow> listen_poll list \<Rightarrow> listener res" where
  "listener_bind addr_ok calls dev events = bind_inner addr_ok calls dev events None"

definition bind_with_shared_pd ::
  "bool \<Rightarrow> bool list \<Rightarrow> nat option \<Rightarrow> listen_poll list \<Rightarrow> bool list \<Rightarrow> listener res" where
  "bind_with_shared_pd addr_ok calls dev events fs =
     bind_inner addr_ok calls dev events (Some (shared_pd_new fs))"

definition listener_register_external ::
  "nat \<Rightarrow> nat \<Rightarrow> (u32 \<times> u32) option \<Rightarrow> listener \<Rightarrow> shared_mr res" where
  "listener_register_external ptr len key l =
     (case listen_pd l of
        None \<Rightarrow> Inl (io_err ErrOther)
      | Some sp \<Rightarrow> shared_register_external ptr len key sp)"

section \<open>Accepting\<close>

text \<open>The protection domain of a new endpoint: the registry's for its device, or its own.\<close>

definition endpoint_pd ::
  "nat \<Rightarrow> shared_pd option \<Rightarrow> connection \<Rightarrow> pd_id res \<times> shared_pd option \<times> connection" where
  "endpoint_pd ctx shared c =
     (case shared of
        Some sp \<Rightarrow> (let p = for_context ctx sp in (map_sum id SharedPdOf (fst p), Some (snd p), c))
      | None \<Rightarrow> (let p = cm_call c in (map_sum id (\<lambda>_. OwnPd) (fst p), None, snd p)))"

text \<open>The rest of \<open>Endpoint::build\<close>: completion channel, its mode, CQ, device query, queue pair.\<close>

definition endpoint_queues :: "connection \<Rightarrow> unit res \<times> connection" where
  "endpoint_queues c =
     and_then (cm_call c) (\<lambda>_ c.
     and_then (cm_call c) (\<lambda>_ c.
     and_then (cm_call c) (\<lambda>_ c.
     and_then (cm_call c) (\<lambda>_ c.
     and_then (cm_call c) (\<lambda>_ c.
       (Inr (), c\<lparr>qp := Some Reset, max_send_sge := endpoint_max_sge (dev_max_sge c)\<rparr>))))))"

text \<open>The set-up closure: own channel, migrate, endpoint, INIT.\<close>

definition setup_request ::
  "request \<Rightarrow> shared_pd option \<Rightarrow> accepted res \<times> shared_pd option" where
  "setup_request req shared =
     (case and_then (cm_call (rq_conn req)) (\<lambda>_. cm_call) of
        (Inl e, _) \<Rightarrow> (Inl e, shared)
      | (Inr _, c) \<Rightarrow>
          (case rq_device req of
             None \<Rightarrow> (Inl (io_err ErrOther), shared)
           | Some ctx \<Rightarrow>
               (case endpoint_pd ctx shared c of
                  (Inl e, shared', _) \<Rightarrow> (Inl e, shared')
                | (Inr pd, shared', c') \<Rightarrow>
                    (case and_then (endpoint_queues c') (\<lambda>_ c.
                            modify_qp Init (c\<lparr>role := Server, disconnected := False\<rparr>)) of
                       (Inl e, _) \<Rightarrow> (Inl e, shared')
                     | (Inr _, c2) \<Rightarrow> (Inr \<lparr>ac_conn = c2, ac_pd = pd\<rparr>, shared')))))"

definition process_event :: "listen_event \<Rightarrow> listener \<Rightarrow> accepted option res \<times> listener" where
  "process_event ev l =
     (if le_type ev = ConnectRequest
      then case le_request ev of
             None \<Rightarrow> (Inl (io_err ErrOther), l)
           | Some req \<Rightarrow>
               if \<not> le_ack_ok ev then (Inl (io_err ErrOther), l)
               else (case setup_request req (listen_pd l) of
                       (Inr a, sp) \<Rightarrow> (Inr (Some a), l\<lparr>listen_pd := sp\<rparr>)
                     | (Inl e, sp) \<Rightarrow>
                         (Inl (IoError ErrOther ConnectionSetupFailed),
                          l\<lparr>listen_pd := sp, rejected := rejected l @ [rq_id req]\<rparr>))
      else if le_type ev = DeviceRemoval then (Inl (IoError ErrOther DeviceRemoved), l)
      else (Inr None, l))"

text \<open>
  \<open>accept\<close> blocks on the channel: \<open>None\<close> once there is nothing more to read. \<open>try_accept\<close> does
  not: an empty channel is \<open>NoEvent\<close>.
\<close>

fun accept_loop :: "listen_poll list \<Rightarrow> listener \<Rightarrow> (accepted res \<times> listener) option" where
  "accept_loop [] l = None"
| "accept_loop (ListenEvent ev # es) l =
     (case process_event ev (l\<lparr>channel := es\<rparr>) of
        (Inl e, l') \<Rightarrow> Some (Inl e, l')
      | (Inr (Some a), l') \<Rightarrow> Some (Inr a, l')
      | (Inr None, l') \<Rightarrow> accept_loop es l')"
| "accept_loop (_ # es) l = Some (Inl (io_err ErrOther), l\<lparr>channel := es\<rparr>)"

definition listener_accept :: "listener \<Rightarrow> (accepted res \<times> listener) option" where
  "listener_accept l = accept_loop (channel l) l"

fun try_accept_loop :: "listen_poll list \<Rightarrow> listener \<Rightarrow> accepted option res \<times> listener" where
  "try_accept_loop [] l = (Inr None, l\<lparr>channel := []\<rparr>)"
| "try_accept_loop (NoEvent # es) l = (Inr None, l\<lparr>channel := es\<rparr>)"
| "try_accept_loop (ListenFail # es) l = (Inl (io_err ErrOther), l\<lparr>channel := es\<rparr>)"
| "try_accept_loop (ListenEvent ev # es) l =
     (case process_event ev (l\<lparr>channel := es\<rparr>) of
        (Inl e, l') \<Rightarrow> (Inl e, l')
      | (Inr (Some a), l') \<Rightarrow> (Inr (Some a), l')
      | (Inr None, l') \<Rightarrow> try_accept_loop es l')"

definition try_accept :: "listener \<Rightarrow> accepted option res \<times> listener" where
  "try_accept l = try_accept_loop (channel l) l"

section \<open>The accept entry points of the stream\<close>

definition accept_begin :: "listener \<Rightarrow> (accepted res \<times> listener) option" where
  "accept_begin = listener_accept"

definition try_accept_begin :: "listener \<Rightarrow> accepted option res \<times> listener" where
  "try_accept_begin = try_accept"

definition hord_accept ::
  "nat \<Rightarrow> nat \<Rightarrow> listener \<Rightarrow> hord_config \<Rightarrow> ((fault + hord_stream) \<times> listener) option" where
  "hord_accept budget now l cfg =
     map_option (\<lambda>(r, l'). (case r of Inl e \<Rightarrow> Inl e | Inr a \<Rightarrow> from_accepted budget now (ac_conn a) cfg, l'))
       (accept_begin l)"

section \<open>The registry\<close>

definition registry_ok :: "shared_pd \<Rightarrow> bool" where
  "registry_ok sp \<longleftrightarrow>
     distinct (map fst (pds sp)) \<and> distinct (map snd (pds sp)) \<and> (\<forall>p \<in> set (pds sp). snd p < next_pd sp)"

lemma registry_new: "registry_ok (shared_pd_new fs)"
  by (simp add: registry_ok_def shared_pd_new_def)

lemma for_context_cases:
  assumes "for_context ctx sp = (r, sp')"
  shows "suffix (pds sp) (pds sp')" "registry_ok sp \<Longrightarrow> registry_ok sp'"
    "r = Inr pd \<Longrightarrow> map_of (pds sp') ctx = Some pd"
    "map_of (pds sp) ctx = Some pd \<Longrightarrow> r = Inr pd \<and> sp' = sp"
proof -
  have "ctx \<notin> fst ` set (pds sp)" if "map_of (pds sp) ctx = None"
    using that by (simp add: map_of_eq_None_iff)
  then show "suffix (pds sp) (pds sp')" "registry_ok sp \<Longrightarrow> registry_ok sp'"
    "r = Inr pd \<Longrightarrow> map_of (pds sp') ctx = Some pd"
    "map_of (pds sp) ctx = Some pd \<Longrightarrow> r = Inr pd \<and> sp' = sp"
    using assms
    by (auto simp: for_context_def Let_def registry_ok_def suffix_def image_iff split: option.splits prod.splits if_splits)
      fastforce+
qed

text \<open>A device keeps the domain it was given, and no other device is given the same.\<close>

lemma for_context_stable:
  assumes "registry_ok sp" and "suffix (pds sp) (pds sp')" and "registry_ok sp'"
    and "map_of (pds sp) ctx = Some pd"
  shows "map_of (pds sp') ctx = Some pd"
proof -
  have "(ctx, pd) \<in> set (pds sp')"
    using assms(2,4) by (auto simp: suffix_def dest: map_of_SomeD)
  then show ?thesis using assms(3) by (simp add: registry_ok_def)
qed

section \<open>What a request becomes\<close>

lemma core_endpoint_queues: "core (snd (endpoint_queues c)) = core c"
  unfolding endpoint_queues_def
  by (intro core_then) (simp_all add: core_def [of "_\<lparr>qp := _, max_send_sge := _\<rparr>"], simp add: core_def)

definition listener_extends :: "shared_pd option \<Rightarrow> shared_pd option \<Rightarrow> bool" where
  "listener_extends sp sp' \<longleftrightarrow>
     (case sp of
        None \<Rightarrow> sp' = None
      | Some p \<Rightarrow> (\<exists>p'. sp' = Some p' \<and> suffix (pds p) (pds p') \<and> (registry_ok p \<longrightarrow> registry_ok p')))"

lemma listener_extends_refl [simp]: "listener_extends sp sp"
  by (simp add: listener_extends_def split: option.split)

lemma listener_extends_trans: "listener_extends a b \<Longrightarrow> listener_extends b c \<Longrightarrow> listener_extends a c"
  by (auto simp: listener_extends_def split: option.splits intro: suffix_order.order_trans)

text \<open>The domain of an endpoint on a device: its own, or the registry's for that device.\<close>

definition pd_on :: "shared_pd option \<Rightarrow> nat option \<Rightarrow> pd_id \<Rightarrow> bool" where
  "pd_on sp dev pd \<longleftrightarrow>
     (case sp of
        None \<Rightarrow> pd = OwnPd
      | Some p \<Rightarrow> (\<exists>ctx i. dev = Some ctx \<and> map_of (pds p) ctx = Some i \<and> pd = SharedPdOf i))"

lemma endpoint_pd_cases:
  assumes "endpoint_pd ctx sp c = (r, sp', c')"
  shows "listener_extends sp sp'" "core c' = core c" "r = Inr pd \<Longrightarrow> pd_on sp' (Some ctx) pd"
proof -
  have "listener_extends sp sp' \<and> core c' = core c \<and> (r = Inr pd \<longrightarrow> pd_on sp' (Some ctx) pd)"
  proof (cases sp)
    case None
    then show ?thesis
      using assms by (auto simp: endpoint_pd_def Let_def pd_on_def map_sum_def split: sum.splits)
  next
    case (Some p)
    obtain q p' where f: "for_context ctx p = (q, p')" by fastforce
    note F = for_context_cases [OF f]
    have r: "r = map_sum id SharedPdOf q" "sp' = Some p'" "c' = c"
      using assms Some f by (auto simp: endpoint_pd_def Let_def)
    have "pd_on sp' (Some ctx) pd" if eq: "r = Inr pd"
    proof -
      obtain i where "q = Inr i" "pd = SharedPdOf i" using eq r by (cases q) auto
      then show ?thesis using F(3) [of i] r(2) by (simp add: pd_on_def)
    qed
    then show ?thesis using F(1,2) r Some by (auto simp: listener_extends_def)
  qed
  then show "listener_extends sp sp'" "core c' = core c" "r = Inr pd \<Longrightarrow> pd_on sp' (Some ctx) pd" by auto
qed

lemma with_qp_init: "and_then (endpoint_queues c) (\<lambda>_ c. modify_qp Init (c\<lparr>role := Server, disconnected := False\<rparr>))
    = (Inr u, d) \<Longrightarrow> qp d = Some Init \<and> role d = Server \<and> \<not> disconnected d"
  unfolding modify_qp_def
  by (auto elim!: and_then_InrD simp: with_qp_def cm_call_def split: option.splits prod.splits if_splits)

lemma setup_request_cases:
  assumes "setup_request req sp = (r, sp')"
  shows "listener_extends sp sp'"
    "r = Inr a \<Longrightarrow> qp (ac_conn a) = Some Init \<and> role (ac_conn a) = Server \<and> \<not> disconnected (ac_conn a)
       \<and> core (ac_conn a) = core (rq_conn req)
       \<and> pd_on sp' (rq_device req) (ac_pd a)"
proof -
  obtain r1 c1 where c1: "and_then (cm_call (rq_conn req)) (\<lambda>_. cm_call) = (r1, c1)" by fastforce
  have k1: "core c1 = core (rq_conn req)"
    using core_then [of "cm_call (rq_conn req)" "core (rq_conn req)" "\<lambda>_. cm_call"] c1 by simp
  have "listener_extends sp sp' \<and> (\<forall>a. r = Inr a \<longrightarrow> qp (ac_conn a) = Some Init \<and> role (ac_conn a) = Server
      \<and> \<not> disconnected (ac_conn a) \<and> core (ac_conn a) = core (rq_conn req)
      \<and> pd_on sp' (rq_device req) (ac_pd a))"
  proof (cases "isl r1 \<or> rq_device req = None")
    case True
    then show ?thesis using assms c1 by (auto simp: setup_request_def split: sum.splits option.splits)
  next
    case False
    then obtain ctx where ctx: "rq_device req = Some ctx" "r1 = Inr ()" by (cases r1) auto
    obtain r2 sp2 c2 where p: "endpoint_pd ctx sp c1 = (r2, sp2, c2)" by (metis surj_pair)
    note P = endpoint_pd_cases [OF p]
    obtain r3 c3 where q: "and_then (endpoint_queues c2) (\<lambda>_ c. modify_qp Init (c\<lparr>role := Server, disconnected := False\<rparr>))
        = (r3, c3)" by fastforce
    have c3: "core c3 = core (rq_conn req)"
    proof -
      have "core (snd (and_then (endpoint_queues c2) (\<lambda>_ c. modify_qp Init (c\<lparr>role := Server, disconnected := False\<rparr>)))) = core c2"
        by (intro core_then core_endpoint_queues) (simp add: core_def [of "_\<lparr>role := _, disconnected := _\<rparr>"], simp add: core_def)
      then show ?thesis using P(2) k1 q by simp
    qed
    have "setup_request req sp = (case r2 of Inl e \<Rightarrow> (Inl e, sp2)
        | Inr pd \<Rightarrow> (case r3 of Inl e \<Rightarrow> (Inl e, sp2) | Inr _ \<Rightarrow> (Inr \<lparr>ac_conn = c3, ac_pd = pd\<rparr>, sp2)))"
      by (simp add: setup_request_def c1 ctx p q split: sum.split)
    then show ?thesis
      using assms P(1,3) c3 ctx with_qp_init [of c2 _ c3] q by (auto split: sum.splits)
  qed
  then show "listener_extends sp sp'"
    "r = Inr a \<Longrightarrow> qp (ac_conn a) = Some Init \<and> role (ac_conn a) = Server \<and> \<not> disconnected (ac_conn a)
       \<and> core (ac_conn a) = core (rq_conn req)
       \<and> pd_on sp' (rq_device req) (ac_pd a)" by auto
qed

section \<open>What an accept reports\<close>

definition benign :: "listen_poll \<Rightarrow> bool" where
  "benign p \<longleftrightarrow>
     (case p of ListenEvent ev \<Rightarrow> le_type ev \<noteq> ConnectRequest \<and> le_type ev \<noteq> DeviceRemoval | _ \<Rightarrow> False)"

text \<open>An accepted connection: a fresh server endpoint of the request, in INIT, on the domain of its device.\<close>

definition accepted_from :: "request \<Rightarrow> listener \<Rightarrow> accepted \<Rightarrow> bool" where
  "accepted_from req l a \<longleftrightarrow>
     core (ac_conn a) = core (rq_conn req) \<and> qp (ac_conn a) = Some Init \<and> role (ac_conn a) = Server
     \<and> \<not> disconnected (ac_conn a) \<and> pd_on (listen_pd l) (rq_device req) (ac_pd a)"

text \<open>An error of the listener itself, which blames no peer and turns nobody away.\<close>

definition listener_error :: "listener \<Rightarrow> accepted res \<Rightarrow> listener \<Rightarrow> bool" where
  "listener_error l r l' \<longleftrightarrow>
     (\<exists>e. r = Inl e \<and> e \<noteq> Panic \<and> \<not> is_device_removed e \<and> \<not> is_connection_setup_failure e)
     \<and> rejected l' = rejected l"

text \<open>
  What must become of the event that ended an accept: a removed device is reported as that; a
  request whose set-up goes through is accepted, and one whose set-up fails is reported as a
  set-up failure and rejected; a request without an id, a failed acknowledgement and a failed
  channel are errors of the listener.
\<close>

definition accept_outcome :: "listen_poll \<Rightarrow> listener \<Rightarrow> accepted res \<Rightarrow> listener \<Rightarrow> bool" where
  "accept_outcome p l r l' \<longleftrightarrow>
     listener_extends (listen_pd l) (listen_pd l')
     \<and> (case p of
          NoEvent \<Rightarrow> False
        | ListenFail \<Rightarrow> listener_error l r l'
        | ListenEvent ev \<Rightarrow>
            if le_type ev = DeviceRemoval
            then (\<exists>e. r = Inl e \<and> is_device_removed e \<and> \<not> is_connection_setup_failure e) \<and> rejected l' = rejected l
            else le_type ev = ConnectRequest
              \<and> (case le_request ev of
                   None \<Rightarrow> listener_error l r l'
                 | Some req \<Rightarrow>
                     if \<not> le_ack_ok ev then listener_error l r l'
                     else case fst (setup_request req (listen_pd l)) of
                            Inr a \<Rightarrow> r = Inr a \<and> accepted_from req l' a \<and> rejected l' = rejected l
                          | Inl _ \<Rightarrow>
                              (\<exists>e. r = Inl e \<and> is_connection_setup_failure e \<and> \<not> is_device_removed e)
                              \<and> rejected l' = rejected l @ [rq_id req]))"

lemma process_event_cases:
  assumes "process_event ev l = (r, l')"
  shows "channel l' = channel l"
    "r = Inr None \<Longrightarrow> benign (ListenEvent ev) \<and> l' = l"
    "r = Inr (Some a) \<Longrightarrow> accept_outcome (ListenEvent ev) l (Inr a) l'"
    "r = Inl e \<Longrightarrow> accept_outcome (ListenEvent ev) l (Inl e) l'"
proof -
  have "channel l' = channel l \<and> (case r of Inr None \<Rightarrow> benign (ListenEvent ev) \<and> l' = l
      | Inr (Some a) \<Rightarrow> accept_outcome (ListenEvent ev) l (Inr a) l'
      | Inl e \<Rightarrow> accept_outcome (ListenEvent ev) l (Inl e) l')"
  proof (cases "le_type ev = ConnectRequest \<and> le_request ev \<noteq> None \<and> le_ack_ok ev")
    case True
    then obtain req where req: "le_request ev = Some req" by auto
    obtain q sp where s: "setup_request req (listen_pd l) = (q, sp)" by fastforce
    note S = setup_request_cases [OF s]
    show ?thesis
    proof (cases q)
      case (Inl f)
      then show ?thesis
        using assms True req s S(1)
        by (auto simp: process_event_def accept_outcome_def is_device_removed_def is_connection_setup_failure_def)
    next
      case (Inr a)
      then show ?thesis
        using assms True req s S(1) S(2) [of a]
        by (auto simp: process_event_def accept_outcome_def accepted_from_def)
    qed
  next
    case False
    then show ?thesis
      using assms
      by (auto simp: process_event_def accept_outcome_def listener_error_def benign_def is_device_removed_def
          is_connection_setup_failure_def split: if_splits option.splits)
  qed
  then show "channel l' = channel l"
    "r = Inr None \<Longrightarrow> benign (ListenEvent ev) \<and> l' = l"
    "r = Inr (Some a) \<Longrightarrow> accept_outcome (ListenEvent ev) l (Inr a) l'"
    "r = Inl e \<Longrightarrow> accept_outcome (ListenEvent ev) l (Inl e) l'" by auto
qed

text \<open>The request an accepted connection came from.\<close>

lemma accept_outcome_accepted:
  assumes "accept_outcome p l (Inr a) l'"
  obtains ev req where "p = ListenEvent ev" "le_type ev = ConnectRequest" "le_request ev = Some req" "accepted_from req l' a"
  using assms
  by (auto simp: accept_outcome_def listener_error_def split: listen_poll.splits if_splits option.splits sum.splits)

lemma accept_outcome_channel [simp]: "accept_outcome p (l\<lparr>channel := es\<rparr>) r l' = accept_outcome p l r l'"
  by (simp add: accept_outcome_def listener_error_def split: listen_poll.split option.split sum.split)

text \<open>
  A non-blocking accept drains benign events and stops at the first that is not: a connection, an
  error of it, or the end of the queue.
\<close>

definition accept_ends :: "listen_poll list \<Rightarrow> listener \<Rightarrow> accepted option res \<Rightarrow> listener \<Rightarrow> bool" where
  "accept_ends es l r l' \<longleftrightarrow>
     (\<exists>pre. list_all benign pre \<and>
        (case r of
           Inr None \<Rightarrow> (es = pre \<or> es = pre @ NoEvent # channel l') \<and> l' = l\<lparr>channel := channel l'\<rparr>
         | Inr (Some a) \<Rightarrow> (\<exists>p. es = pre @ p # channel l' \<and> accept_outcome p l (Inr a) l')
         | Inl e \<Rightarrow> (\<exists>p. es = pre @ p # channel l' \<and> accept_outcome p l (Inl e) l')))"

lemma accept_ends_channel: "accept_ends es (l\<lparr>channel := x\<rparr>) r l' = accept_ends es l r l'"
  by (cases r; cases "projr r") (simp_all add: accept_ends_def)

lemma accept_ends_Cons:
  assumes "benign p" and "accept_ends es l r l'"
  shows "accept_ends (p # es) l r l'"
proof -
  from assms(2) obtain pre where pre: "list_all benign pre" "case r of
           Inr None \<Rightarrow> (es = pre \<or> es = pre @ NoEvent # channel l') \<and> l' = l\<lparr>channel := channel l'\<rparr>
         | Inr (Some a) \<Rightarrow> (\<exists>p. es = pre @ p # channel l' \<and> accept_outcome p l (Inr a) l')
         | Inl e \<Rightarrow> (\<exists>p. es = pre @ p # channel l' \<and> accept_outcome p l (Inl e) l')"
    unfolding accept_ends_def by blast
  have "list_all benign (p # pre)" using pre(1) assms(1) by simp
  then show ?thesis
    unfolding accept_ends_def using pre(2)
    by (intro exI [of _ "p # pre"]) (cases r; cases "projr r"; simp)
qed

lemma accept_ends_here:
  assumes "channel l' = es" and "(\<exists>a. r = Inr (Some a) \<and> accept_outcome p l (Inr a) l')
    \<or> (\<exists>e. r = Inl e \<and> accept_outcome p l (Inl e) l')"
  shows "accept_ends (p # es) l r l'"
  unfolding accept_ends_def using assms by (intro exI [of _ "[]"]) auto

lemma try_accept_loop_ends: "try_accept_loop es l = (r, l') \<Longrightarrow> accept_ends es l r l'"
proof (induction es arbitrary: l)
  case Nil
  then show ?case by (auto simp: accept_ends_def)
next
  case (Cons p es)
  show ?case
  proof (cases p)
    case (ListenEvent ev)
    obtain q l1 where q: "process_event ev (l\<lparr>channel := es\<rparr>) = (q, l1)" by fastforce
    note P = process_event_cases [OF q]
    show ?thesis
    proof (cases "q = Inr None")
      case True
      then have l1: "benign p" "l1 = l\<lparr>channel := es\<rparr>" using P(2) ListenEvent by auto
      have "try_accept_loop es l1 = (r, l')" using Cons.prems q ListenEvent True by simp
      from Cons.IH [OF this] show ?thesis
        using accept_ends_Cons [OF l1(1)] l1(2) by (simp add: accept_ends_channel)
    next
      case False
      then have "r = q" "l' = l1"
        using Cons.prems ListenEvent q by (auto split: sum.splits option.splits)
      moreover have "(\<exists>a. q = Inr (Some a)) \<or> (\<exists>e. q = Inl e)"
        using False by (metis not_None_eq sum.exhaust)
      ultimately show ?thesis
        using P(1,3,4) ListenEvent by (intro accept_ends_here) auto
    qed
  next
    case ListenFail
    then have "r = Inl (io_err ErrOther)" "l' = l\<lparr>channel := es\<rparr>" using Cons.prems by auto
    moreover have "accept_outcome ListenFail l (Inl (io_err ErrOther)) (l\<lparr>channel := es\<rparr>)"
      by (simp add: accept_outcome_def listener_error_def is_device_removed_def is_connection_setup_failure_def)
    ultimately show ?thesis using ListenFail by (intro accept_ends_here) auto
  next
    case NoEvent
    then show ?thesis using Cons.prems by (auto simp: accept_ends_def intro!: exI [of _ "[]"])
  qed
qed

text \<open>The blocking accept ends the same way, and only where the non-blocking one ends too.\<close>

lemma accept_loop_try:
  assumes "accept_loop es l = Some (r, l')" and "NoEvent \<notin> set es"
  shows "try_accept_loop es l = (map_sum id Some r, l')"
  using assms
proof (induction es arbitrary: l)
  case (Cons p es)
  then show ?case
    by (cases p) (auto split: sum.splits option.splits prod.splits)
qed simp

section \<open>Serving a shared arena\<close>

text \<open>The device of the next request on a channel.\<close>

definition next_device :: "listen_poll list \<Rightarrow> nat option" where
  "next_device es =
     (case dropWhile benign es of
        ListenEvent ev # _ \<Rightarrow> Option.bind (le_request ev) rq_device
      | _ \<Rightarrow> None)"

text \<open>A run of the listener: the connections it accepted, in order, each with the device of its request.\<close>

inductive accept_run :: "listener \<Rightarrow> (nat option \<times> accepted) list \<Rightarrow> listener \<Rightarrow> bool" where
  idle: "accept_run l [] l"
| more: "try_accept l = (r, l1) \<Longrightarrow> accept_run l1 as l2 \<Longrightarrow>
     accept_run l ((case r of Inr (Some a) \<Rightarrow> [(next_device (channel l), a)] | _ \<Rightarrow> []) @ as) l2"

abbreviation shared_ok :: "listener \<Rightarrow> bool" where
  "shared_ok l \<equiv> (\<exists>sp. listen_pd l = Some sp \<and> registry_ok sp)"

lemma shared_ok_extends:
  "shared_ok l \<Longrightarrow> listener_extends (listen_pd l) (listen_pd l') \<Longrightarrow> shared_ok l'"
  by (auto simp: listener_extends_def)

lemma pd_on_extends:
  assumes "listener_extends sp sp'" and "\<exists>p. sp = Some p \<and> registry_ok p" and "pd_on sp dev pd"
  shows "pd_on sp' dev pd"
proof -
  obtain p p' where p: "sp = Some p" "registry_ok p" "sp' = Some p'" "suffix (pds p) (pds p')" "registry_ok p'"
    using assms(1,2) by (auto simp: listener_extends_def)
  obtain ctx i where i: "dev = Some ctx" "map_of (pds p) ctx = Some i" "pd = SharedPdOf i"
    using assms(3) p(1) by (auto simp: pd_on_def)
  from for_context_stable [OF p(2,4,5) i(2)] i p(3) show ?thesis by (simp add: pd_on_def)
qed

lemma try_accept_extends:
  assumes "try_accept l = (r, l')"
  shows "listener_extends (listen_pd l) (listen_pd l')"
    "r = Inr (Some a) \<Longrightarrow> pd_on (listen_pd l') (next_device (channel l)) (ac_pd a)"
proof -
  have ends: "accept_ends (channel l) l r l'" using assms by (simp add: try_accept_def try_accept_loop_ends)
  then have "listen_pd l' = listen_pd l \<or> (\<exists>p q. accept_outcome p l q l')"
    by (cases r; cases "projr r")
       (auto simp: accept_ends_def, (metis listener.select_convs(2) listener.surjective listener.update_convs(1))+)
  then show "listener_extends (listen_pd l) (listen_pd l')" by (auto simp: accept_outcome_def)
  show "pd_on (listen_pd l') (next_device (channel l)) (ac_pd a)" if "r = Inr (Some a)"
  proof -
    obtain pre p where p: "list_all benign pre" "channel l = pre @ p # channel l'" "accept_outcome p l (Inr a) l'"
      using ends \<open>r = Inr (Some a)\<close> by (auto simp: accept_ends_def)
    obtain ev req where ev: "p = ListenEvent ev" "le_type ev = ConnectRequest" "le_request ev = Some req" "accepted_from req l' a"
      using accept_outcome_accepted [OF p(3)] .
    have "dropWhile benign (channel l) = p # channel l'"
      using p(1,2) ev(1,2) by (simp add: dropWhile_append2 list_all_iff benign_def)
    then have "next_device (channel l) = rq_device req" by (simp add: next_device_def ev)
    then show ?thesis using ev(4) by (simp add: accepted_from_def)
  qed
qed

lemma accept_run_pds:
  "accept_run l as l' \<Longrightarrow> shared_ok l \<Longrightarrow>
     listener_extends (listen_pd l) (listen_pd l') \<and> shared_ok l' \<and> (\<forall>(dev, a) \<in> set as. pd_on (listen_pd l') dev (ac_pd a))"
proof (induction rule: accept_run.induct)
  case (more l r l1 as l2)
  note E = try_accept_extends(1) [OF more(1)]
  have l1: "shared_ok l1" using shared_ok_extends [OF more.prems E] .
  note IH = more.IH [OF l1]
  have "listener_extends (listen_pd l) (listen_pd l2)"
    using listener_extends_trans [OF E] IH by blast
  moreover have "pd_on (listen_pd l2) (next_device (channel l)) (ac_pd a)" if "r = Inr (Some a)" for a
    using pd_on_extends try_accept_extends(2) [OF more(1) that] IH l1 by blast
  ultimately show ?case using IH by (auto split: sum.splits option.splits)
qed auto

text \<open>The registry of a listener that was just bound: the device it resolved, if any.\<close>

lemma bind_with_shared_pd_ok:
  assumes "bind_with_shared_pd addr_ok calls dev events fs = Inr l"
  shows "shared_ok l" "dev = Some ctx \<Longrightarrow> \<exists>sp pd. listen_pd l = Some sp \<and> map_of (pds sp) ctx = Some pd"
proof -
  have "\<exists>sp. listen_pd l = Some sp \<and> registry_ok sp \<and> (\<forall>ctx. dev = Some ctx \<longrightarrow> (\<exists>pd. map_of (pds sp) ctx = Some pd))"
  proof (cases dev)
    case None
    then show ?thesis
      using assms registry_new [of fs] by (auto simp: bind_with_shared_pd_def bind_inner_def split: if_splits)
  next
    case (Some d)
    obtain r sp where f: "for_context d (shared_pd_new fs) = (r, sp)" by fastforce
    then have "listen_pd l = Some sp" "\<exists>pd. r = Inr pd"
      using assms Some by (auto simp: bind_with_shared_pd_def bind_inner_def split: if_splits sum.splits)
    then show ?thesis using Some for_context_cases(2,3) [OF f] registry_new by auto
  qed
  then show "shared_ok l" "dev = Some ctx \<Longrightarrow> \<exists>sp pd. listen_pd l = Some sp \<and> map_of (pds sp) ctx = Some pd" by auto
qed

text \<open>A region registered while the registry has one device is usable on exactly that device.\<close>

lemma shared_arena_pd:
  assumes bind: "bind_with_shared_pd addr_ok calls dev0 events fs = Inr l0"
    and before: "accept_run l0 bs l" and reg: "listener_register_external ptr len key l = Inr m"
    and after: "accept_run l as l'"
  obtains ctx where "\<And>dev b. (dev, b) \<in> set bs \<Longrightarrow> dev = Some ctx \<and> ac_pd b = sm_pd m"
    "\<And>dev a. (dev, a) \<in> set as \<Longrightarrow> (ac_pd a = sm_pd m) = (dev = Some ctx)"
    "\<And>d. dev0 = Some d \<Longrightarrow> d = ctx"
proof -
  note B = accept_run_pds [OF before bind_with_shared_pd_ok(1) [OF bind]]
  obtain sp where sp: "listen_pd l = Some sp" "registry_ok sp" "shared_register_external ptr len key sp = Inr m"
    using B reg by (auto simp: listener_register_external_def)
  then obtain c pd where p: "pds sp = [(c, pd)]" "sm_pd m = SharedPdOf pd"
    by (auto simp: shared_register_external_def single_pd_def mr_new_def split: list.splits option.splits)
  have "shared_ok l" using sp by blast
  note A = accept_run_pds [OF after this]
  obtain sp' where sp': "listen_pd l' = Some sp'" "registry_ok sp'" "suffix (pds sp) (pds sp')"
    using A sp(1) by (auto simp: listener_extends_def)
  have c: "map_of (pds sp') c = Some pd" using for_context_stable [OF sp(2) sp'(3,2)] p(1) by simp
  have one: "ctx = c" if "map_of (pds sp') ctx = Some pd" for ctx
    using that c sp'(2) by (metis distinct_map fst_conv inj_on_def map_of_SomeD registry_ok_def snd_conv)
  show thesis
  proof
    show "dev = Some c \<and> ac_pd b = sm_pd m" if "(dev, b) \<in> set bs" for dev b
    proof -
      have "pd_on (Some sp) dev (ac_pd b)" using B that sp(1) by auto
      then show ?thesis using p by (auto simp: pd_on_def split: if_splits)
    qed
    show "(ac_pd a = sm_pd m) = (dev = Some c)" if "(dev, a) \<in> set as" for dev a
    proof -
      have "pd_on (Some sp') dev (ac_pd a)" using A that sp'(1) by auto
      then obtain ctx i where "dev = Some ctx" "map_of (pds sp') ctx = Some i" "ac_pd a = SharedPdOf i"
        by (auto simp: pd_on_def)
      then show ?thesis using p(2) one [of ctx] c by auto
    qed
    show "d = c" if dev: "dev0 = Some d" for d
    proof -
      obtain sp0 pd0 where sp0: "listen_pd l0 = Some sp0" "map_of (pds sp0) d = Some pd0" "registry_ok sp0"
        using bind_with_shared_pd_ok(1) [OF bind] bind_with_shared_pd_ok(2) [OF bind dev] by auto
      have "map_of (pds sp) d = Some pd0"
        using for_context_stable [OF sp0(3) _ sp(2) sp0(2)] B sp(1) sp0(1) by (auto simp: listener_extends_def)
      then show ?thesis using p(1) by (simp split: if_splits)
    qed
  qed
qed

section \<open>From a request to a stream\<close>

definition fresh_request :: "listen_poll \<Rightarrow> bool" where
  "fresh_request p \<longleftrightarrow>
     (case p of
        ListenEvent ev \<Rightarrow> (case le_request ev of None \<Rightarrow> True | Some req \<Rightarrow> fresh_conn (rq_conn req))
      | _ \<Rightarrow> True)"

lemma fresh_conn_core: "core c = core d \<Longrightarrow> fresh_conn c = fresh_conn d"
  by (simp add: fresh_conn_def below_brk_def core_def)

lemma accept_loop_accepted:
  "accept_loop es l = Some (Inr a, l') \<Longrightarrow>
     \<exists>ev req. ListenEvent ev \<in> set es \<and> le_request ev = Some req \<and> accepted_from req l' a"
proof (induction es arbitrary: l)
  case (Cons p es)
  show ?case
  proof (cases p)
    case (ListenEvent ev)
    obtain q l1 where q: "process_event ev (l\<lparr>channel := es\<rparr>) = (q, l1)" by fastforce
    show ?thesis
    proof (cases "q = Inr (Some a)")
      case True
      with Cons.prems ListenEvent q have "l' = l1" by simp
      obtain req where "le_request ev = Some req" "accepted_from req l1 a"
        by (rule accept_outcome_accepted [OF process_event_cases(3) [OF q True]]) auto
      with \<open>l' = l1\<close> show ?thesis using ListenEvent by auto
    next
      case False
      then have "accept_loop es l1 = Some (Inr a, l')"
        using Cons.prems ListenEvent q by (auto split: sum.splits option.splits)
      from Cons.IH [OF this] show ?thesis by auto
    qed
  qed (use Cons.prems in auto)
qed simp

lemma hord_accept_world:
  assumes "hord_accept budget now l cfg = Some (Inr s, l')" and "config_ok cfg"
    and "list_all fresh_request (channel l)"
  shows "world_ok s"
proof -
  obtain a where a: "accept_loop (channel l) l = Some (Inr a, l')" "from_accepted budget now (ac_conn a) cfg = Inr s"
    using assms(1)
    by (cases "accept_loop (channel l) l"; cases "fst (the (accept_loop (channel l) l))")
       (auto simp: hord_accept_def accept_begin_def listener_accept_def)
  obtain ev req where "ListenEvent ev \<in> set (channel l)" "le_request ev = Some req" "accepted_from req l' a"
    using accept_loop_accepted [OF a(1)] by blast
  then have "fresh_conn (ac_conn a)"
    using assms(3) fresh_conn_core [of "ac_conn a" "rq_conn req"]
    by (fastforce simp: list_all_iff accepted_from_def fresh_request_def)
  then show ?thesis using from_accepted_world assms(2) a(2) by blast
qed

end
