(* ===== verification/Acceptor.thy ===== *)
theory Acceptor
  imports Listener
begin

text \<open>
  The server runtime of \<open>hord-async/src/listener.rs\<close>: the acceptor thread that drains connection
  requests under an error budget and deals them to the workers' bounded queues, and the worker
  that keeps a teardown handle for every task it runs, so that the tasks it abandons at the
  grace deadline no longer have a queue pair.
\<close>

section \<open>Configuration\<close>

definition MAX_CONSECUTIVE_ACCEPT_ERRORS :: nat where "MAX_CONSECUTIVE_ACCEPT_ERRORS = 50"
definition MAX_DRAIN_PER_WAKEUP :: nat where "MAX_DRAIN_PER_WAKEUP = 64"
definition WORKER_CHANNEL_CAP :: nat where "WORKER_CHANNEL_CAP = 32"
definition DEFAULT_GRACE :: nat where "DEFAULT_GRACE = 30000"

record hord_listener =
  hl_listener :: listener
  hl_config :: hord_config
  hl_workers :: nat
  hl_grace :: nat

text \<open>\<open>available_parallelism\<close> is what the host reports, if it can.\<close>

definition default_workers :: "nat option \<Rightarrow> nat" where
  "default_workers par = max (case par of Some n \<Rightarrow> n | None \<Rightarrow> 1) 1"

definition hord_listener_bind ::
  "nat option \<Rightarrow> bool \<Rightarrow> bool list \<Rightarrow> nat option \<Rightarrow> listen_poll list \<Rightarrow> bool list \<Rightarrow> hord_config
     \<Rightarrow> hord_listener res" where
  "hord_listener_bind par addr_ok calls dev events fs cfg =
     (case bind_with_shared_pd addr_ok calls dev events fs of
        Inl e \<Rightarrow> Inl e
      | Inr l \<Rightarrow> Inr \<lparr>hl_listener = l, hl_config = cfg, hl_workers = default_workers par, hl_grace = DEFAULT_GRACE\<rparr>)"

definition with_workers :: "nat \<Rightarrow> hord_listener \<Rightarrow> hord_listener" where
  "with_workers n h = h\<lparr>hl_workers := max n 1\<rparr>"

definition grace_timeout :: "nat \<Rightarrow> hord_listener \<Rightarrow> hord_listener" where
  "grace_timeout g h = h\<lparr>hl_grace := g\<rparr>"

section \<open>Dealing connections to the workers\<close>

text \<open>A worker's bounded channel: whether its receiver is alive, and what waits in it.\<close>

record worker_queue =
  wq_open :: bool
  wq_items :: "accepted list"

datatype send_result = Sent worker_queue | SendFull | SendClosed

definition try_send :: "accepted \<Rightarrow> worker_queue \<Rightarrow> send_result" where
  "try_send a q =
     (if \<not> wq_open q then SendClosed
      else if length (wq_items q) \<ge> WORKER_CHANNEL_CAP then SendFull
      else Sent (q\<lparr>wq_items := wq_items q @ [a]\<rparr>))"

text \<open>The result: whether some worker took it, the next position, and the queues.\<close>

fun dispatch_loop ::
  "nat \<Rightarrow> nat \<Rightarrow> accepted \<Rightarrow> worker_queue list \<Rightarrow> bool \<times> nat \<times> worker_queue list" where
  "dispatch_loop 0 nxt a qs = (False, nxt, qs)"
| "dispatch_loop (Suc k) nxt a qs =
     (case try_send a (qs ! nxt) of
        Sent q \<Rightarrow> (True, (nxt + 1) mod length qs, qs[nxt := q])
      | _ \<Rightarrow> dispatch_loop k ((nxt + 1) mod length qs) a qs)"

definition dispatch :: "nat \<Rightarrow> accepted \<Rightarrow> worker_queue list \<Rightarrow> bool \<times> nat \<times> worker_queue list" where
  "dispatch nxt a qs = dispatch_loop (length qs) nxt a qs"

section \<open>The acceptor\<close>

text \<open>
  \<open>ac_shed\<close> are the connections dropped because no worker could take them, \<open>ac_taken\<close> those a
  worker has received, \<open>ac_all\<close> every connection accepted so far.
\<close>

record acceptor =
  ac_listener :: listener
  ac_queues :: "worker_queue list"
  ac_next :: nat
  ac_errors :: nat
  ac_running :: bool
  ac_shutdown :: bool
  ac_shed :: "accepted list"
  ac_taken :: "accepted list"
  ac_all :: "accepted list"

definition hand_off :: "accepted \<Rightarrow> acceptor \<Rightarrow> acceptor" where
  "hand_off a ac =
     (case dispatch (ac_next ac) a (ac_queues ac) of
        (sent, nxt, qs) \<Rightarrow>
          ac\<lparr>ac_queues := qs, ac_next := nxt, ac_shed := (if sent then ac_shed ac else ac_shed ac @ [a]),
             ac_all := ac_all ac @ [a], ac_errors := 0\<rparr>)"

datatype wakeup = Drained | Fatal | Capped | Failed

text \<open>One readable notification: drain until the channel is empty, an error, or the cap.\<close>

function drain_wakeup :: "nat \<Rightarrow> acceptor \<Rightarrow> wakeup \<times> acceptor" where
  "drain_wakeup handled ac =
     (case try_accept_begin (ac_listener ac) of
        (Inr (Some a), l) \<Rightarrow>
          (let ac1 = hand_off a (ac\<lparr>ac_listener := l\<rparr>) in
           if handled + 1 \<ge> MAX_DRAIN_PER_WAKEUP then (Capped, ac1) else drain_wakeup (handled + 1) ac1)
      | (Inr None, l) \<Rightarrow> (Drained, ac\<lparr>ac_listener := l\<rparr>)
      | (Inl e, l) \<Rightarrow>
          (let ac1 = ac\<lparr>ac_listener := l\<rparr> in
           if is_device_removed e then (Fatal, ac1)
           else if is_connection_setup_failure e
           then if handled + 1 \<ge> MAX_DRAIN_PER_WAKEUP then (Capped, ac1) else drain_wakeup (handled + 1) ac1
           else (Failed, ac1\<lparr>ac_errors := ac_errors ac1 + 1\<rparr>)))"
  by pat_completeness auto
termination
  by (relation "measure (\<lambda>(handled, ac). MAX_DRAIN_PER_WAKEUP - handled)") auto

declare drain_wakeup.simps [simp del]

definition after_wakeup :: "wakeup \<Rightarrow> acceptor \<Rightarrow> acceptor" where
  "after_wakeup w ac =
     (if w = Fatal then ac\<lparr>ac_running := False\<rparr>
      else if w = Drained then ac
      else if ac_errors ac \<ge> MAX_CONSECUTIVE_ACCEPT_ERRORS then ac\<lparr>ac_running := False\<rparr>
      else ac)"

text \<open>
  One turn of the accept loop: a shutdown that is already set stops it; otherwise the branch
  the biased \<open>select!\<close> took.
\<close>

datatype selected = ShutdownChanged "bool option" | StopChanged | FdReadable | FdFailed

definition accept_turn :: "selected \<Rightarrow> acceptor \<Rightarrow> acceptor" where
  "accept_turn sel ac =
     (if ac_shutdown ac then ac\<lparr>ac_running := False\<rparr>
      else case sel of
             ShutdownChanged (Some v) \<Rightarrow>
               if v then ac\<lparr>ac_shutdown := True, ac_running := False\<rparr> else ac
           | ShutdownChanged None \<Rightarrow> ac\<lparr>ac_running := False\<rparr>
           | StopChanged \<Rightarrow> ac\<lparr>ac_running := False\<rparr>
           | FdFailed \<Rightarrow> ac\<lparr>ac_running := False\<rparr>
           | FdReadable \<Rightarrow> (case drain_wakeup 0 ac of (w, ac1) \<Rightarrow> after_wakeup w ac1))"

text \<open>The acceptor and its workers, interleaved: a worker receives, its thread ends, or
  the host sets its shutdown signal.\<close>

inductive accept_step :: "acceptor \<Rightarrow> acceptor \<Rightarrow> bool" where
  turn: "ac_running ac \<Longrightarrow> accept_step ac (accept_turn sel ac)"
| receive: "w < length (ac_queues ac) \<Longrightarrow> ac_queues ac ! w = q \<Longrightarrow> wq_items q = a # rest \<Longrightarrow>
     accept_step ac (ac\<lparr>ac_queues := (ac_queues ac)[w := q\<lparr>wq_items := rest\<rparr>], ac_taken := ac_taken ac @ [a]\<rparr>)"
| exit: "w < length (ac_queues ac) \<Longrightarrow>
     accept_step ac (ac\<lparr>ac_queues := (ac_queues ac)[w := (ac_queues ac ! w)\<lparr>wq_open := False\<rparr>]\<rparr>)"
| signal: "accept_step ac (ac\<lparr>ac_shutdown := v\<rparr>)"

definition acceptor_start :: "hord_listener \<Rightarrow> bool \<Rightarrow> acceptor" where
  "acceptor_start h sd =
     \<lparr>ac_listener = hl_listener h, ac_queues = replicate (hl_workers h) \<lparr>wq_open = True, wq_items = []\<rparr>,
      ac_next = 0, ac_errors = 0, ac_running = True, ac_shutdown = sd, ac_shed = [], ac_taken = [],
      ac_all = []\<rparr>"

section \<open>Dispatch\<close>

definition can_take :: "worker_queue \<Rightarrow> bool" where
  "can_take q \<longleftrightarrow> wq_open q \<and> length (wq_items q) < WORKER_CHANNEL_CAP"

lemma try_send_cases:
  "can_take q \<Longrightarrow> try_send a q = Sent (q\<lparr>wq_items := wq_items q @ [a]\<rparr>)"
  "\<not> can_take q \<Longrightarrow> try_send a q = SendFull \<or> try_send a q = SendClosed"
  by (auto simp: try_send_def can_take_def)

lemma dispatch_loop_cases:
  "nxt < length qs \<Longrightarrow> dispatch_loop k nxt a qs = (sent, nxt', qs') \<Longrightarrow>
     nxt' < length qs \<and>
     (if sent
      then \<exists>w < length qs. can_take (qs ! w) \<and> qs' = qs[w := (qs ! w)\<lparr>wq_items := wq_items (qs ! w) @ [a]\<rparr>]
      else qs' = qs \<and> (\<forall>j < k. \<not> can_take (qs ! ((nxt + j) mod length qs))))"
proof (induction k arbitrary: nxt)
  case (Suc k)
  have n: "(nxt + 1) mod length qs < length qs" using Suc.prems(1) by (intro mod_less_divisor) linarith
  show ?case
  proof (cases "can_take (qs ! nxt)")
    case True
    then show ?thesis using Suc.prems n by (auto simp: try_send_cases(1) intro!: exI [of _ nxt])
  next
    case False
    then have r: "dispatch_loop k ((nxt + 1) mod length qs) a qs = (sent, nxt', qs')"
      using Suc.prems(2) try_send_cases(2) [OF False, of a] by auto
    have "\<not> can_take (qs ! ((nxt + j) mod length qs))"
      if "\<forall>j < k. \<not> can_take (qs ! (((nxt + 1) mod length qs + j) mod length qs))" "j < Suc k" for j
    proof (cases j)
      case 0
      then show ?thesis using False Suc.prems(1) by simp
    next
      case (Suc i)
      then show ?thesis using that(1) [rule_format, of i] that(2) by (simp add: mod_add_left_eq)
    qed
    with Suc.IH [OF n r] show ?thesis by (auto split: if_splits)
  qed
qed simp

text \<open>A connection goes to exactly one worker that can take it, and is shed only when none can.\<close>

lemma dispatch_cases:
  assumes "nxt < length qs" and "dispatch nxt a qs = (sent, nxt', qs')"
  shows "nxt' < length qs"
    and "sent \<Longrightarrow> \<exists>w < length qs. can_take (qs ! w) \<and> qs' = qs[w := (qs ! w)\<lparr>wq_items := wq_items (qs ! w) @ [a]\<rparr>]"
    and "\<not> sent \<Longrightarrow> qs' = qs \<and> (\<forall>w < length qs. \<not> can_take (qs ! w))"
    and "can_take (qs ! nxt) \<Longrightarrow> sent \<and> qs' = qs[nxt := (qs ! nxt)\<lparr>wq_items := wq_items (qs ! nxt) @ [a]\<rparr>]"
proof -
  note D = dispatch_loop_cases [OF assms(1) assms(2) [unfolded dispatch_def]]
  show "nxt' < length qs"
    "sent \<Longrightarrow> \<exists>w < length qs. can_take (qs ! w) \<and> qs' = qs[w := (qs ! w)\<lparr>wq_items := wq_items (qs ! w) @ [a]\<rparr>]"
    using D by auto
  show "qs' = qs \<and> (\<forall>w < length qs. \<not> can_take (qs ! w))" if "\<not> sent"
  proof -
    have "\<not> can_take (qs ! w)" if w: "w < length qs" for w
    proof -
      have j: "(w + length qs - nxt) mod length qs < length qs" using w by (intro mod_less_divisor) linarith
      have "(nxt + (w + length qs - nxt) mod length qs) mod length qs = (nxt + (w + length qs - nxt)) mod length qs"
        by (simp add: mod_add_right_eq)
      also have "\<dots> = w" using assms(1) w by simp
      finally show ?thesis using D \<open>\<not> sent\<close> j by (metis (no_types, lifting))
    qed
    then show ?thesis using D that by simp
  qed
  show "sent \<and> qs' = qs[nxt := (qs ! nxt)\<lparr>wq_items := wq_items (qs ! nxt) @ [a]\<rparr>]" if "can_take (qs ! nxt)"
    using assms that by (cases "length qs") (auto simp: dispatch_def try_send_cases(1))
qed

section \<open>The acceptor's invariant\<close>

definition queued :: "worker_queue list \<Rightarrow> accepted multiset" where
  "queued qs = (\<Sum>q \<leftarrow> qs. mset (wq_items q))"

lemma queued_update:
  "w < length qs \<Longrightarrow> queued (qs[w := q]) + mset (wq_items (qs ! w)) = queued qs + mset (wq_items q)"
proof (induction qs arbitrary: w)
  case (Cons x qs)
  then show ?case by (cases w) (auto simp: queued_def add.assoc add.left_commute add.commute)
qed simp

definition acceptor_ok :: "nat \<Rightarrow> acceptor \<Rightarrow> bool" where
  "acceptor_ok n ac \<longleftrightarrow>
     length (ac_queues ac) = n \<and> ac_next ac < n
     \<and> list_all (\<lambda>q. length (wq_items q) \<le> WORKER_CHANNEL_CAP) (ac_queues ac)
     \<and> ac_errors ac \<le> MAX_CONSECUTIVE_ACCEPT_ERRORS
     \<and> mset (ac_all ac) = mset (ac_shed ac) + mset (ac_taken ac) + queued (ac_queues ac)"

lemma hand_off_ok:
  assumes "acceptor_ok n ac"
  shows "acceptor_ok n (hand_off a ac)" "ac_errors (hand_off a ac) = 0" "ac_running (hand_off a ac) = ac_running ac"
    "ac_listener (hand_off a ac) = ac_listener ac" "ac_shutdown (hand_off a ac) = ac_shutdown ac"
proof -
  obtain sent nxt qs where d: "dispatch (ac_next ac) a (ac_queues ac) = (sent, nxt, qs)" by (metis surj_pair)
  have n: "ac_next ac < length (ac_queues ac)" using assms by (simp add: acceptor_ok_def)
  note D = dispatch_cases [OF n d]
  have h: "hand_off a ac = ac\<lparr>ac_queues := qs, ac_next := nxt,
      ac_shed := (if sent then ac_shed ac else ac_shed ac @ [a]), ac_all := ac_all ac @ [a], ac_errors := 0\<rparr>"
    by (simp add: hand_off_def d)
  then show "ac_errors (hand_off a ac) = 0" "ac_running (hand_off a ac) = ac_running ac"
    "ac_listener (hand_off a ac) = ac_listener ac" "ac_shutdown (hand_off a ac) = ac_shutdown ac" by simp_all
  show "acceptor_ok n (hand_off a ac)"
  proof (cases sent)
    case False
    then show ?thesis using assms D(1,3) by (auto simp: acceptor_ok_def h)
  next
    case True
    then obtain w where w: "w < length (ac_queues ac)" "can_take (ac_queues ac ! w)"
      "qs = (ac_queues ac)[w := (ac_queues ac ! w)\<lparr>wq_items := wq_items (ac_queues ac ! w) @ [a]\<rparr>]"
      using D(2) by blast
    have "queued qs = add_mset a (queued (ac_queues ac))"
      using queued_update [OF w(1), of "(ac_queues ac ! w)\<lparr>wq_items := wq_items (ac_queues ac ! w) @ [a]\<rparr>"] w(3)
      by simp
    moreover have "list_all (\<lambda>q. length (wq_items q) \<le> WORKER_CHANNEL_CAP) qs"
      using assms w by (auto simp: acceptor_ok_def can_take_def list_all_length nth_list_update)
    ultimately show ?thesis using assms True D(1) w(3) by (simp add: acceptor_ok_def h)
  qed
qed

lemma drain_wakeup_ok:
  assumes "acceptor_ok n ac" and "ac_errors ac < MAX_CONSECUTIVE_ACCEPT_ERRORS" and "drain_wakeup handled ac = (w, ac')"
  shows "acceptor_ok n ac' \<and> ac_running ac' = ac_running ac \<and> ac_shutdown ac' = ac_shutdown ac
    \<and> (w \<noteq> Failed \<longrightarrow> ac_errors ac' < MAX_CONSECUTIVE_ACCEPT_ERRORS)"
  using assms
proof (induction "MAX_DRAIN_PER_WAKEUP - handled" arbitrary: handled ac rule: less_induct)
  case less
  have pos: "0 < MAX_CONSECUTIVE_ACCEPT_ERRORS" by (simp add: MAX_CONSECUTIVE_ACCEPT_ERRORS_def)
  obtain r l where t: "try_accept_begin (ac_listener ac) = (r, l)" by fastforce
  define ac1 where "ac1 = ac\<lparr>ac_listener := l\<rparr>"
  have ok1: "acceptor_ok n ac1" using less.prems(1) by (simp add: acceptor_ok_def ac1_def)
  note step = less.prems(3) [unfolded drain_wakeup.simps [of handled ac] t prod.case, folded ac1_def]
  consider (conn) a where "r = Inr (Some a)" | (none) "r = Inr None" | (err) e where "r = Inl e"
    by (metis not_None_eq sum.exhaust)
  then show ?case
  proof cases
    case conn
    note H = hand_off_ok [OF ok1, of a]
    show ?thesis
    proof (cases "handled + 1 \<ge> MAX_DRAIN_PER_WAKEUP")
      case True
      then show ?thesis using step conn H pos by (auto simp: Let_def ac1_def)
    next
      case False
      then have "drain_wakeup (handled + 1) (hand_off a ac1) = (w, ac')" using step conn by (simp add: Let_def)
      from less.hyps [OF _ H(1) _ this] False H pos show ?thesis by (simp add: ac1_def)
    qed
  next
    case none
    then show ?thesis using step ok1 less.prems(2) by (auto simp: ac1_def)
  next
    case err
    show ?thesis
    proof (cases "is_device_removed e \<or> \<not> is_connection_setup_failure e \<or> handled + 1 \<ge> MAX_DRAIN_PER_WAKEUP")
      case True
      then show ?thesis
        using step err ok1 less.prems(2) by (auto simp: Let_def ac1_def acceptor_ok_def split: if_splits)
    next
      case False
      then have "drain_wakeup (handled + 1) ac1 = (w, ac')" using step err by (simp add: Let_def)
      from less.hyps [OF diff_less_mono2 ok1 _ this] False less.prems(2) show ?thesis by (simp add: ac1_def)
    qed
  qed
qed

text \<open>A running acceptor is under its error budget.\<close>

definition acceptor_inv :: "nat \<Rightarrow> acceptor \<Rightarrow> bool" where
  "acceptor_inv n ac \<longleftrightarrow> acceptor_ok n ac \<and> (ac_running ac \<longrightarrow> ac_errors ac < MAX_CONSECUTIVE_ACCEPT_ERRORS)"

lemma accept_turn_inv:
  assumes "acceptor_inv n ac" and "ac_running ac"
  shows "acceptor_inv n (accept_turn sel ac)"
proof -
  have ok: "acceptor_ok n ac" "ac_errors ac < MAX_CONSECUTIVE_ACCEPT_ERRORS" using assms by (auto simp: acceptor_inv_def)
  have upd: "acceptor_ok n (ac\<lparr>ac_running := b\<rparr>)" "acceptor_ok n (ac\<lparr>ac_shutdown := c, ac_running := b\<rparr>)" for b c
    using ok by (simp_all add: acceptor_ok_def)
  obtain w ac1 where d: "drain_wakeup 0 ac = (w, ac1)" by fastforce
  note D = drain_wakeup_ok [OF ok d]
  then have "acceptor_ok n (ac1\<lparr>ac_running := b\<rparr>)" for b by (simp add: acceptor_ok_def)
  with D have "acceptor_inv n (after_wakeup w ac1)"
    by (auto simp: after_wakeup_def acceptor_inv_def)
  then show ?thesis
    using ok upd d assms by (auto simp: accept_turn_def acceptor_inv_def split: selected.split option.split)
qed

lemma accept_step_inv:
  assumes "accept_step ac ac'" and "acceptor_inv n ac"
  shows "acceptor_inv n ac'"
  using assms
proof cases
  case (turn sel)
  then show ?thesis using accept_turn_inv assms(2) by simp
next
  case (receive w q a rest)
  have "queued ((ac_queues ac)[w := q\<lparr>wq_items := rest\<rparr>]) + {#a#} = queued (ac_queues ac)"
    using queued_update [OF receive(2), of "q\<lparr>wq_items := rest\<rparr>"] receive(3,4) by auto
  moreover have "length rest \<le> WORKER_CHANNEL_CAP"
  proof -
    have "length (wq_items q) \<le> WORKER_CHANNEL_CAP"
      using assms(2) receive(2,3) by (auto simp: acceptor_inv_def acceptor_ok_def list_all_length)
    then show ?thesis using receive(4) by simp
  qed
  ultimately show ?thesis
    using assms(2) receive
    by (auto simp: acceptor_inv_def acceptor_ok_def list_all_length nth_list_update)
next
  case (exit w)
  have "queued ((ac_queues ac)[w := (ac_queues ac ! w)\<lparr>wq_open := False\<rparr>]) = queued (ac_queues ac)"
    using queued_update [OF exit(2), of "(ac_queues ac ! w)\<lparr>wq_open := False\<rparr>"] by simp
  then show ?thesis
    using assms(2) exit by (auto simp: acceptor_inv_def acceptor_ok_def list_all_length nth_list_update)
next
  case (signal v)
  then show ?thesis using assms(2) by (simp add: acceptor_inv_def acceptor_ok_def)
qed

lemma acceptor_start_inv: "0 < hl_workers h \<Longrightarrow> acceptor_inv (hl_workers h) (acceptor_start h sd)"
proof -
  have "queued (replicate k \<lparr>wq_open = True, wq_items = []\<rparr>) = {#}" for k
    by (induction k) (simp_all add: queued_def)
  then show "0 < hl_workers h \<Longrightarrow> ?thesis"
    by (simp add: acceptor_inv_def acceptor_ok_def acceptor_start_def MAX_CONSECUTIVE_ACCEPT_ERRORS_def list_all_length)
qed

lemma accept_reachable_inv:
  assumes "accept_step\<^sup>*\<^sup>* (acceptor_start h sd) ac" and "0 < hl_workers h"
  shows "acceptor_inv (hl_workers h) ac"
  using assms(1)
  by (induction rule: rtranclp_induct) (use acceptor_start_inv [OF assms(2)] accept_step_inv in auto)

section \<open>Bad peers do not stop the server\<close>

text \<open>What a peer can cause on the listener's channel: anything but a listener failure.\<close>

definition peer_event :: "listen_poll \<Rightarrow> bool" where
  "peer_event p \<longleftrightarrow>
     (case p of
        ListenEvent ev \<Rightarrow>
          le_type ev \<noteq> DeviceRemoval \<and> (le_type ev = ConnectRequest \<longrightarrow> le_request ev \<noteq> None \<and> le_ack_ok ev)
      | NoEvent \<Rightarrow> True
      | ListenFail \<Rightarrow> False)"

lemma process_event_peer:
  assumes "peer_event (ListenEvent ev)" and "process_event ev l = (r, l')"
  shows "channel l' = channel l \<and> (\<forall>e. r = Inl e \<longrightarrow> e = IoError ErrOther ConnectionSetupFailed)"
  using assms
  by (auto simp: peer_event_def process_event_def split: if_splits option.splits prod.splits sum.splits)

lemma try_accept_loop_peer:
  "list_all peer_event es \<Longrightarrow> try_accept_loop es l = (r, l') \<Longrightarrow>
     list_all peer_event (channel l') \<and> (\<forall>e. r = Inl e \<longrightarrow> e = IoError ErrOther ConnectionSetupFailed)"
proof (induction es arbitrary: l)
  case (Cons p es)
  show ?case
  proof (cases p)
    case (ListenEvent ev)
    obtain q l1 where q: "process_event ev (l\<lparr>channel := es\<rparr>) = (q, l1)" by fastforce
    have P: "channel l1 = es" "\<forall>e. q = Inl e \<longrightarrow> e = IoError ErrOther ConnectionSetupFailed"
      using process_event_peer [OF _ q] Cons.prems(1) ListenEvent by auto
    show ?thesis
    proof (cases "q = Inr None")
      case True
      then have "try_accept_loop es l1 = (r, l')" using Cons.prems(2) ListenEvent q by simp
      from Cons.IH [OF _ this] Cons.prems(1) show ?thesis by simp
    next
      case False
      then have "r = q" "l' = l1"
        using Cons.prems(2) ListenEvent q by (auto split: sum.splits option.splits)
      then show ?thesis using P Cons.prems(1) by simp
    qed
  next
    case NoEvent
    then show ?thesis using Cons.prems by auto
  next
    case ListenFail
    then show ?thesis using Cons.prems by (simp add: peer_event_def)
  qed
qed auto

lemma drain_wakeup_peer:
  assumes "list_all peer_event (channel (ac_listener ac))" and "drain_wakeup handled ac = (w, ac')"
    and "acceptor_ok n ac"
  shows "w \<in> {Drained, Capped} \<and> ac_errors ac' \<le> ac_errors ac \<and> ac_running ac' = ac_running ac"
  using assms
proof (induction "MAX_DRAIN_PER_WAKEUP - handled" arbitrary: handled ac rule: less_induct)
  case less
  obtain r l where t: "try_accept_begin (ac_listener ac) = (r, l)" by fastforce
  define ac1 where "ac1 = ac\<lparr>ac_listener := l\<rparr>"
  have ok1: "acceptor_ok n ac1" using less.prems(3) by (simp add: acceptor_ok_def ac1_def)
  note step = less.prems(2) [unfolded drain_wakeup.simps [of handled ac] t prod.case, folded ac1_def]
  have L: "list_all peer_event (channel l)" "\<And>e. r = Inl e \<Longrightarrow> e = IoError ErrOther ConnectionSetupFailed"
    using try_accept_loop_peer [OF less.prems(1)] t by (auto simp: try_accept_begin_def try_accept_def)
  consider (conn) a where "r = Inr (Some a)" | (none) "r = Inr None"
    | (err) "r = Inl (IoError ErrOther ConnectionSetupFailed)"
    using L(2) by (metis not_None_eq sum.exhaust)
  then show ?case
  proof cases
    case conn
    note H = hand_off_ok [OF ok1, of a]
    show ?thesis
    proof (cases "handled + 1 \<ge> MAX_DRAIN_PER_WAKEUP")
      case True
      then show ?thesis using step conn H by (auto simp: Let_def ac1_def)
    next
      case False
      then have d: "drain_wakeup (handled + 1) (hand_off a ac1) = (w, ac')" using step conn by (simp add: Let_def)
      have "list_all peer_event (channel (ac_listener (hand_off a ac1)))" using H(4) L(1) by (simp add: ac1_def)
      from less.hyps [OF diff_less_mono2 this d H(1)] False H show ?thesis by (simp add: ac1_def)
    qed
  next
    case none
    then show ?thesis using step by (auto simp: ac1_def)
  next
    case err
    show ?thesis
    proof (cases "handled + 1 \<ge> MAX_DRAIN_PER_WAKEUP")
      case True
      then show ?thesis
        using step err by (auto simp: Let_def ac1_def is_device_removed_def is_connection_setup_failure_def)
    next
      case False
      then have d: "drain_wakeup (handled + 1) ac1 = (w, ac')"
        using step err by (simp add: Let_def is_device_removed_def is_connection_setup_failure_def)
      have "list_all peer_event (channel (ac_listener ac1))" using L(1) by (simp add: ac1_def)
      from less.hyps [OF diff_less_mono2 this d ok1] False show ?thesis by (simp add: ac1_def)
    qed
  qed
qed

lemma bad_peers_keep_running:
  assumes "acceptor_inv n ac" and "ac_running ac" and "\<not> ac_shutdown ac"
    and "list_all peer_event (channel (ac_listener ac))"
  shows "ac_running (accept_turn FdReadable ac)" "ac_errors (accept_turn FdReadable ac) \<le> ac_errors ac"
proof -
  obtain w ac1 where d: "drain_wakeup 0 ac = (w, ac1)" by fastforce
  have ok: "acceptor_ok n ac" "ac_errors ac < MAX_CONSECUTIVE_ACCEPT_ERRORS" using assms by (auto simp: acceptor_inv_def)
  note D = drain_wakeup_peer [OF assms(4) d ok(1)]
  then have "after_wakeup w ac1 = ac1" using ok(2) by (auto simp: after_wakeup_def)
  then show "ac_running (accept_turn FdReadable ac)" "ac_errors (accept_turn FdReadable ac) \<le> ac_errors ac"
    using D d assms(2,3) by (auto simp: accept_turn_def)
qed

section \<open>The worker\<close>

text \<open>
  A worker's tasks: those still running with the stream each drives, those that have finished
  and are not reaped yet, and the teardown handles by task id. A handle reaches the same
  connection the task's stream owns.
\<close>

record worker =
  wk_next :: nat
  wk_live :: "(nat \<times> hord_stream) list"
  wk_done :: "nat list"
  wk_teardowns :: "nat list"

definition reap_one :: "nat \<Rightarrow> worker \<Rightarrow> worker" where
  "reap_one t wk = wk\<lparr>wk_done := remove1 t (wk_done wk), wk_teardowns := removeAll t (wk_teardowns wk)\<rparr>"

definition reap_finished :: "worker \<Rightarrow> worker" where
  "reap_finished wk = fold reap_one (wk_done wk) wk"

text \<open>A connection comes in: reap, prepare it, take its teardown handle, spawn its task.\<close>

definition worker_recv :: "connection \<Rightarrow> hord_config \<Rightarrow> worker \<Rightarrow> worker" where
  "worker_recv c cfg wk =
     (let wk1 = reap_finished wk in
      case accept_prepare c cfg of
        Inl _ \<Rightarrow> wk1
      | Inr s \<Rightarrow> wk1\<lparr>wk_next := Suc (wk_next wk1), wk_live := wk_live wk1 @ [(wk_next wk1, s)],
                      wk_teardowns := wk_next wk1 # wk_teardowns wk1\<rparr>)"

text \<open>The grace deadline: every teardown handle is fired before the surviving tasks are dropped.\<close>

definition fire_teardowns :: "worker \<Rightarrow> worker" where
  "fire_teardowns wk =
     wk\<lparr>wk_live := map (\<lambda>(t, s). (t, if t \<in> set (wk_teardowns wk) then force_teardown s else s)) (wk_live wk)\<rparr>"

inductive worker_step :: "worker \<Rightarrow> worker \<Rightarrow> bool" where
  recv: "worker_step wk (worker_recv c cfg wk)"
| progress: "(t, s) \<in> set (wk_live wk) \<Longrightarrow>
     worker_step wk (wk\<lparr>wk_live := map (\<lambda>p. if fst p = t then (t, s') else p) (wk_live wk)\<rparr>)"
| finish: "worker_step wk (wk\<lparr>wk_live := filter (\<lambda>p. fst p \<noteq> t) (wk_live wk),
     wk_done := wk_done wk @ map fst (filter (\<lambda>p. fst p = t) (wk_live wk))\<rparr>)"
| reap: "t \<in> set (wk_done wk) \<Longrightarrow> worker_step wk (reap_one t wk)"

definition worker_start :: worker where
  "worker_start = \<lparr>wk_next = 0, wk_live = [], wk_done = [], wk_teardowns = []\<rparr>"

text \<open>Ids are never reused, and every running task has its handle.\<close>

definition worker_ok :: "worker \<Rightarrow> bool" where
  "worker_ok wk \<longleftrightarrow>
     distinct (map fst (wk_live wk) @ wk_done wk)
     \<and> (\<forall>t \<in> fst ` set (wk_live wk). t \<in> set (wk_teardowns wk))
     \<and> (\<forall>t \<in> fst ` set (wk_live wk) \<union> set (wk_done wk). t < wk_next wk)"

lemma reap_one_ok: "worker_ok wk \<Longrightarrow> t \<in> set (wk_done wk) \<Longrightarrow> worker_ok (reap_one t wk)"
  by (auto simp: worker_ok_def reap_one_def dest: in_set_remove1 set_remove1_subset [THEN subsetD])

lemma reap_fold_ok:
  "worker_ok wk \<Longrightarrow> set ts \<subseteq> set (wk_done wk) \<Longrightarrow> distinct ts \<Longrightarrow> worker_ok (fold reap_one ts wk)"
proof (induction ts arbitrary: wk)
  case (Cons t ts)
  have "set ts \<subseteq> set (wk_done (reap_one t wk))"
    using Cons.prems set_remove1_eq [of "wk_done wk" t] by (auto simp: reap_one_def worker_ok_def)
  with Cons reap_one_ok show ?case by simp
qed simp

lemma reap_finished_ok: "worker_ok wk \<Longrightarrow> worker_ok (reap_finished wk)"
  unfolding reap_finished_def by (rule reap_fold_ok) (auto simp: worker_ok_def)

lemma worker_step_ok:
  assumes "worker_step wk wk'" and "worker_ok wk"
  shows "worker_ok wk'"
  using assms
proof cases
  case (recv c cfg)
  have ok: "worker_ok (reap_finished wk)" by (rule reap_finished_ok [OF assms(2)])
  then have "wk_next (reap_finished wk) \<notin> fst ` set (wk_live (reap_finished wk)) \<union> set (wk_done (reap_finished wk))"
    by (auto simp: worker_ok_def)
  with ok show ?thesis
    by (auto simp: recv worker_recv_def Let_def worker_ok_def less_Suc_eq split: sum.split)
next
  case (progress t s s')
  have "map fst (map (\<lambda>p. if fst p = t then (t, s') else p) (wk_live wk)) = map fst (wk_live wk)"
    by (induction "wk_live wk") auto
  then have m: "map fst (wk_live wk') = map fst (wk_live wk)" by (simp add: progress)
  then have "fst ` set (wk_live wk') = fst ` set (wk_live wk)" by (metis list.set_map)
  with m assms(2) show ?thesis by (simp add: worker_ok_def progress(1) del: map_map)
next
  case (finish t)
  then show ?thesis
    using assms(2) by (auto simp: worker_ok_def distinct_map_filter intro: inj_onI)
next
  case (reap t)
  then show ?thesis using reap_one_ok assms(2) by simp
qed

lemma worker_reachable_ok:
  assumes "worker_step\<^sup>*\<^sup>* worker_start wk"
  shows "worker_ok wk"
  using assms
  by (induction rule: rtranclp_induct) (use worker_step_ok in \<open>auto simp: worker_start_def worker_ok_def\<close>)

lemma fire_teardowns_quiesces:
  assumes "worker_ok wk" and "(t, s) \<in> set (wk_live (fire_teardowns wk))"
  shows "qp (conn s) = None"
  using assms
  by (auto simp: fire_teardowns_def worker_ok_def force_teardown_def shutdown_def split: if_splits)

end
