(* ===== verification/Sizing.thy ===== *)
theory Sizing
  imports Setup
begin

text \<open>
  The queues against the depths \<open>qp_sizing\<close> asks for: what an endpoint under its invariant can
  have posted or unreaped at any time. Receives always fit. Sends fit as long as no one-sided
  write is outstanding; the room the data lane may take on top of outstanding writes is not
  reserved, so the bound then grows with them. An endpoint that was set up for a configuration
  has the pools of that configuration.
\<close>

text \<open>
  The depth \<open>Endpoint::build\<close> creates the completion queue with. The code casts the three depths
  to \<open>u32\<close>; the casts are the identity for sizes below \<open>2 ^ 32\<close>, the only ones considered.
\<close>

definition cq_depth :: "hord_config \<Rightarrow> nat" where
  "cq_depth cfg = fst (qp_sizing cfg) + snd (qp_sizing cfg) + 16"

text \<open>The endpoint was built for this configuration.\<close>

definition sized_for :: "hord_config \<Rightarrow> hord_stream \<Rightarrow> bool" where
  "sized_for cfg s \<longleftrightarrow> send_pool s = send_pool_size cfg \<and> recv_slots s \<le> recv_wr_count cfg"

lemma lanes_cover: "\<not> recv_lane w \<Longrightarrow> data_lane w \<or> ctrl_lane w \<or> is_write w"
  by (auto simp: recv_lane_def data_lane_def ctrl_lane_def)

lemma send_ids_split:
  "size (filter_mset (\<lambda>w. \<not> recv_lane w) (send_ids s)) =
     size (filter_mset data_lane (send_ids s)) + ctrl_in_flight s + size (write_ids s)"
proof -
  have "filter_mset (\<lambda>w. \<not> recv_lane w) M = filter_mset data_lane M + filter_mset ctrl_lane M + filter_mset is_write M" for M
    by (induction M) (auto simp: recv_lane_def data_lane_def ctrl_lane_def)
  then show ?thesis by (simp add: ctrl_in_flight_def write_ids_def)
qed

lemma data_in_flight:
  assumes "stream_ok s"
  shows "length (send_free s) + size (filter_mset data_lane (send_ids s)) \<le> send_pool s"
  using size_mset_mono [OF stream_okD(3) [OF assms]] by (simp add: send_owned_def)

text \<open>Sends posted or unreaped: the data lane, one control message, and the writes.\<close>

lemma sends_bounded:
  assumes "write_ok s"
  shows "length (send_free s) + size (filter_mset (\<lambda>w. \<not> recv_lane w) (send_ids s))
    \<le> send_pool s + 1 + writes_outstanding s"
proof -
  have ok: "stream_ok s" and ac: "accounted s" using assms by (simp_all add: write_ok_def queue_ok_def)
  have "ctrl_in_flight s \<le> 1" using stream_okD(4) [OF ok] by (simp split: if_splits)
  moreover have "size (write_ids s) \<le> writes_outstanding s"
    using ac size_write_ids [of s] by (simp add: accounted_def)
  ultimately show ?thesis using data_in_flight [OF ok] send_ids_split [of s] by linarith
qed

lemma sq_bounded:
  assumes "write_ok s"
  shows "length (send_free s) + length (sq (conn s)) \<le> send_pool s + 1 + writes_outstanding s"
proof -
  have "list_all (\<lambda>w. \<not> recv_lane (sw_id w)) (sq (conn s))"
    using assms stream_okD(11) [of s] by (auto simp: write_ok_def queue_ok_def list_all_iff sq_entry_ok_def)
  then have "filter (\<lambda>w. \<not> recv_lane w) (map sw_id (sq (conn s))) = map sw_id (sq (conn s))"
    by (auto simp: list_all_iff filter_id_conv)
  then have "filter_mset (\<lambda>w. \<not> recv_lane w) (mset (map sw_id (sq (conn s)))) = mset (map sw_id (sq (conn s)))"
    by (metis mset_filter)
  then have "length (sq (conn s)) \<le> size (filter_mset (\<lambda>w. \<not> recv_lane w) (send_ids s))"
    by (simp add: send_ids_def)
  then show ?thesis using sends_bounded [OF assms] by linarith
qed

lemma rq_bounded:
  assumes "stream_ok s"
  shows "length (rq (conn s)) \<le> recv_slots s"
  using size_mset_mono [OF stream_okD(2) [OF assms]] by (simp add: recv_owned_def)

text \<open>Completions nobody has reaped yet are receives or sends still owned.\<close>

lemma cq_bounded:
  assumes "write_ok s"
  shows "length (cq_ids (cq (conn s))) \<le> recv_slots s + send_pool s + 1 + writes_outstanding s"
proof -
  let ?M = "mset (cq_ids (cq (conn s)))"
  have "size (filter_mset recv_lane ?M) \<le> recv_slots s"
    using size_mset_mono [OF stream_okD(2), of s] assms
    by (simp add: recv_owned_def write_ok_def queue_ok_def)
  moreover have "size (filter_mset (\<lambda>w. \<not> recv_lane w) ?M) \<le> send_pool s + 1 + writes_outstanding s"
    using sends_bounded [OF assms] by (simp add: send_ids_def)
  moreover have "size ?M = size (filter_mset recv_lane ?M) + size (filter_mset (\<lambda>w. \<not> recv_lane w) ?M)"
    by (metis multiset_partition size_union)
  ultimately show ?thesis by simp
qed

lemma queues_fit:
  assumes ok: "write_ok s" and sz: "sized_for cfg s" and idle: "\<not> writes_pending s"
  shows "length (sq (conn s)) \<le> fst (qp_sizing cfg)" "length (rq (conn s)) \<le> snd (qp_sizing cfg)"
    "length (cq_ids (cq (conn s))) \<le> cq_depth cfg"
proof -
  have w: "writes_outstanding s = 0" using idle by (simp add: writes_pending_def)
  have "stream_ok s" using ok by (simp add: write_ok_def queue_ok_def)
  from rq_bounded [OF this] sz show "length (rq (conn s)) \<le> snd (qp_sizing cfg)"
    by (simp add: sized_for_def qp_sizing_def)
  show "length (sq (conn s)) \<le> fst (qp_sizing cfg)" "length (cq_ids (cq (conn s))) \<le> cq_depth cfg"
    using sq_bounded [OF ok] cq_bounded [OF ok] sz w
    by (simp_all add: sized_for_def qp_sizing_def cq_depth_def CTRL_SEND_SLOTS_def HS_SEND_SLOTS_def)
qed

section \<open>Set-up builds an endpoint of that size\<close>

definition pool_sizes :: "hord_stream \<Rightarrow> nat \<times> nat \<times> nat" where
  "pool_sizes s = (send_pool s, split_base s, split_headroom s)"

lemma pool_sizes_upd [simp]:
  "pool_sizes (s\<lparr>conn := c\<rparr>) = pool_sizes s" "pool_sizes (s\<lparr>peer_closed := b\<rparr>) = pool_sizes s"
  "pool_sizes (s\<lparr>hs_got_recv := b\<rparr>) = pool_sizes s" "pool_sizes (s\<lparr>hs_got_send := b\<rparr>) = pool_sizes s"
  "pool_sizes (s\<lparr>hs_recv_len := n\<rparr>) = pool_sizes s" "pool_sizes (s\<lparr>split_recv := sb\<rparr>) = pool_sizes s"
  "pool_sizes (s\<lparr>payload_cap := n\<rparr>) = pool_sizes s" "pool_sizes (s\<lparr>send_credits := n\<rparr>) = pool_sizes s"
  "pool_sizes (s\<lparr>zero_copy := b\<rparr>) = pool_sizes s" "pool_sizes (s\<lparr>split_mode := b\<rparr>) = pool_sizes s"
  "pool_sizes (s\<lparr>peer_split_credits := n\<rparr>) = pool_sizes s" "pool_sizes (s\<lparr>cm_watch := b\<rparr>) = pool_sizes s"
  "pool_sizes (s\<lparr>peer_addr := ad\<rparr>) = pool_sizes s" "pool_sizes (s\<lparr>established_at := n\<rparr>) = pool_sizes s"
  by (simp_all add: pool_sizes_def)

lemma sizes_on_conn [simp]: "pool_sizes (snd (on_conn f s)) = pool_sizes s"
  by (simp add: on_conn_eq)

lemma sizes_post_recv_slots: "pool_sizes (snd (post_recv_slots is s)) = pool_sizes s"
proof (induction "is" arbitrary: s)
  case (Cons i "is")
  have "pool_sizes (snd (post_recv_slot i s)) = pool_sizes s"
    by (cases rule: post_recv_slot_cases [of i s]) simp_all
  then show ?case using Cons.IH by (auto simp: snd_and_then split: sum.split)
qed simp

lemma sizes_poll_handshake_loop: "pool_sizes (snd (poll_handshake_loop s)) = pool_sizes s"
proof (induction s rule: poll_handshake_loop.induct)
  case (1 s)
  then show ?case by (subst poll_handshake_loop.simps) (auto simp: Let_def split: sum.split option.split)
qed

lemma sizes_poll_handshake: "pool_sizes (snd (poll_handshake s)) = pool_sizes s"
  by (auto simp: poll_handshake_def snd_and_then Let_def sizes_poll_handshake_loop split: sum.split)

lemma sizes_exchange_loop: "pool_sizes (snd (exchange_loop n s)) = pool_sizes s"
proof (induction n arbitrary: s)
  case (Suc n)
  then show ?case
    by (auto simp: exchange_loop.simps [of "Suc n"] snd_and_then sizes_poll_handshake split: sum.split option.split)
qed (auto simp: exchange_loop.simps snd_and_then sizes_poll_handshake split: sum.split option.split)

lemma sizes_exchange: "pool_sizes (snd (exchange_handshake n cfg s)) = pool_sizes s"
proof -
  have "pool_sizes (snd (begin_handshake_send cfg s)) = pool_sizes s"
    by (auto simp: begin_handshake_send_def on_conn_eq split: sum.split)
  then show ?thesis using sizes_exchange_loop by (auto simp: exchange_handshake_def snd_and_then split: sum.split)
qed

lemma sizes_apply_peer: "pool_sizes (snd (apply_peer now peer s)) = pool_sizes s"
proof -
  have "pool_sizes (snd (post_split_recvs t)) = pool_sizes t" for t
    using sizes_post_recv_slots by (auto simp: post_split_recvs_def snd_and_then on_conn_eq split: sum.split)
  then show ?thesis
    by (auto simp: apply_peer_def Let_def snd_and_then split: sum.split)
qed

lemma sizes_new_common:
  assumes "new_common c cfg = Inr s"
  shows "pool_sizes s = (send_pool_size cfg, recv_base_count cfg, split_slack cfg)"
proof -
  have "pool_sizes (snd (and_then (post_handshake_recv t) (\<lambda>_. post_all_recvs))) = pool_sizes t" for t
    using sizes_post_recv_slots
    by (auto simp: snd_and_then post_handshake_recv_def post_all_recvs_def on_conn_eq split: sum.split)
  then have "pool_sizes v = pool_sizes t" if "and_then (post_handshake_recv t) (\<lambda>_. post_all_recvs) = (Inr u, v)" for t u v
    using that by (metis snd_conv)
  then show ?thesis
    using assms by (auto simp: new_common_def Let_def pool_sizes_def split: if_splits sum.splits prod.splits)
qed

lemma sizes_finish:
  assumes "and_then (on_conn f s) (\<lambda>_ s. and_then (exchange_handshake budget cfg s) (\<lambda>peer. apply_peer now peer)) = (r, t)"
  shows "pool_sizes t = pool_sizes s"
proof -
  have "pool_sizes (snd (and_then (on_conn f s) (\<lambda>_ s. and_then (exchange_handshake budget cfg s)
      (\<lambda>peer. apply_peer now peer)))) = pool_sizes s"
    by (auto simp: snd_and_then sizes_exchange sizes_apply_peer split: sum.split)
  then show ?thesis using assms by simp
qed

lemma pool_sizes_sized:
  "pool_sizes s = (send_pool_size cfg, recv_base_count cfg, split_slack cfg) \<Longrightarrow> sized_for cfg s"
  by (auto simp: pool_sizes_def sized_for_def recv_slots_def recv_wr_count_def)

lemma from_accepted_sized:
  assumes "from_accepted budget now c cfg = Inr s"
  shows "sized_for cfg s"
proof -
  obtain t where nc: "new_common c cfg = Inr t"
    using assms by (cases "new_common c cfg") (auto simp: from_accepted_def)
  then have "pool_sizes s = pool_sizes t"
    using assms sizes_finish by (auto simp: from_accepted_def split: prod.splits sum.splits)
  then show ?thesis using sizes_new_common [OF nc] pool_sizes_sized by simp
qed

lemma hord_connect_sized:
  assumes "hord_connect budget now addr_ok c cfg = Inr s"
  shows "sized_for cfg s"
proof -
  obtain c1 where cc: "connection_connect addr_ok (cfg_cm cfg) c = (Inr (), c1)"
    using assms by (cases "connection_connect addr_ok (cfg_cm cfg) c"; cases "fst (connection_connect addr_ok (cfg_cm cfg) c)")
      (auto simp: hord_connect_def)
  obtain t where nc: "new_common c1 cfg = Inr t"
    using assms cc by (cases "new_common c1 cfg") (auto simp: hord_connect_def)
  then have "pool_sizes s = pool_sizes t"
    using assms cc sizes_finish by (auto simp: hord_connect_def split: prod.splits sum.splits)
  then show ?thesis using sizes_new_common [OF nc] pool_sizes_sized by simp
qed

end
