(* ===== verification/Endpoint_Run.thy ===== *)
theory Endpoint_Run
  imports Sizing Serving
begin

text \<open>
  The life of an endpoint: set up by \<open>accept\<close> or \<open>connect\<close>, then any sequence of the stream's own
  operations, with the NIC, the peer, the CM channel and the device answering as they like in
  between. Whatever state that leads to satisfies the invariant and has the size it was built
  for.
\<close>

inductive endpoint_run :: "hord_config \<Rightarrow> hord_stream \<Rightarrow> bool" for cfg where
  accepted: "fresh_conn c \<Longrightarrow> from_accepted budget now c cfg = Inr s \<Longrightarrow> endpoint_run cfg s"
| connected: "fresh_conn c \<Longrightarrow> hord_connect budget now addr_ok c cfg = Inr s \<Longrightarrow> endpoint_run cfg s"
| reads: "endpoint_run cfg s \<Longrightarrow> endpoint_run cfg (snd (try_read n s))"
| writes: "endpoint_run cfg s \<Longrightarrow> endpoint_run cfg (snd (try_write buf s))"
| flushes: "endpoint_run cfg s \<Longrightarrow> endpoint_run cfg (snd (try_flush_stage s))"
| returns_credits: "endpoint_run cfg s \<Longrightarrow> endpoint_run cfg (snd (return_owed_credits urgent s))"
| drains: "endpoint_run cfg s \<Longrightarrow> endpoint_run cfg (snd (drain_completions s))"
| takes: "endpoint_run cfg s \<Longrightarrow> endpoint_run cfg (snd (next_completed_transfer s))"
| posts_writes: "endpoint_run cfg s \<Longrightarrow> raddr < 2 ^ 64 \<Longrightarrow>
     endpoint_run cfg (snd (begin_rdma_write_gather_inner segs raddr rkey imm s))"
| registers: "endpoint_run cfg s \<Longrightarrow> endpoint_run cfg (snd (on_conn (register_buffer len access) s))"
| environ: "endpoint_run cfg s \<Longrightarrow>
     endpoint_run cfg (s\<lparr>conn := (conn s)\<lparr>arrivals := evs, cm_events := es, post_faults := fs, reg_faults := rs\<rparr>\<rparr>)"

lemma sized_for_statics: "statics t = statics s \<Longrightarrow> sized_for cfg t = sized_for cfg s"
  by (simp add: sized_for_def statics_def recv_slots_def)

lemma frozen_run:
  assumes "world_ok s \<and> sized_for cfg s" and "write_ok t \<and> fixtures t = fixtures s"
  shows "world_ok t \<and> sized_for cfg t"
  using world_ok_frozen [of s t] sized_for_statics [of t s cfg] assms by (simp add: fixtures_def)

lemma environ_world: "world_ok s \<Longrightarrow>
    world_ok (s\<lparr>conn := (conn s)\<lparr>arrivals := evs, cm_events := es, post_faults := fs, reg_faults := rs\<rparr>\<rparr>)"
  by (subst world_ok_cong [of _ s]) (simp_all add: statics_def core_def live_def)

lemma endpoint_run_ok:
  assumes "endpoint_run cfg s" and "config_ok cfg"
  shows "world_ok s \<and> sized_for cfg s"
  using assms(1)
proof induction
  case (accepted c budget now s)
  then show ?case using from_accepted_world assms(2) from_accepted_sized by blast
next
  case (connected c budget now addr_ok s)
  then show ?case using hord_connect_world assms(2) hord_connect_sized by blast
next
  case (reads s n)
  show ?case
    by (rule frozen_run [OF reads.IH frozen.try_read_pres]) (use reads.IH in \<open>simp add: world_ok_def\<close>)
next
  case (writes s buf)
  show ?case
    by (rule frozen_run [OF writes.IH frozen.try_write_pres]) (use writes.IH in \<open>simp add: world_ok_def\<close>)
next
  case (flushes s)
  then have "length (tx_stage s) < payload_cap s" using stream_okD by (simp add: world_ok_def write_ok_def queue_ok_def)
  then show ?case
    by (intro frozen_run [OF flushes.IH frozen.try_flush_stage_pres]) (use flushes.IH in \<open>simp_all add: world_ok_def\<close>)
next
  case (returns_credits s urgent)
  show ?case
    by (rule frozen_run [OF returns_credits.IH frozen.return_owed_credits_pres]) (use returns_credits.IH in \<open>simp add: world_ok_def\<close>)
next
  case (drains s)
  show ?case
    by (rule frozen_run [OF drains.IH frozen.drain_completions_pres]) (use drains.IH in \<open>simp add: world_ok_def\<close>)
next
  case (takes s)
  show ?case
    by (rule frozen_run [OF takes.IH frozen.next_completed_transfer_pres]) (use takes.IH in \<open>simp add: world_ok_def\<close>)
next
  case (posts_writes s raddr segs rkey imm)
  then show ?case
    using begin_gather_write_ok [of s raddr segs rkey imm] begin_gather_frozen [of s raddr segs rkey imm]
    by (intro frozen_run [OF posts_writes.IH]) (simp add: world_ok_def safe_outcome_def)
next
  case (registers s len access)
  then show ?case
    using register_world [of s len access] sized_for_statics [of "snd (on_conn (register_buffer len access) s)" s cfg]
    by (simp add: on_conn_eq statics_def)
next
  case (environ s evs es fs rs)
  then show ?case using environ_world by (auto simp: sized_for_def recv_slots_def)
qed

section \<open>What the NIC does in a poll\<close>

text \<open>A poll of the completion queue lets the NIC act, and takes one completion.\<close>

lemma poll_mem: "mem (snd (poll c)) = mem (settle c)"
  by (simp add: poll_def Let_def split: list.split cq_entry.split)

lemma settle_send_stable:
  assumes "queue_ok s"
  shows "read_mem (mem (settle (conn s))) (rb_addr (send s)) (rb_len (send s))
    = read_mem (smem s) (rb_addr (send s)) (rb_len (send s))"
proof -
  have "read_mem (mem (fold nic_step evs (conn s))) (rb_addr (send s)) (rb_len (send s))
      = read_mem (smem s) (rb_addr (send s)) (rb_len (send s))" if "queue_ok s" for evs s
    using that
  proof (induction evs arbitrary: s)
    case (Cons ev evs)
    let ?t = "s\<lparr>conn := nic_step ev (conn s)\<rparr>"
    have "queue_ok ?t"
      using Cons.prems stream_ok_nic_step layout_ok_fixtures [OF nic_step_fixtures] by (simp add: queue_ok_def)
    from Cons.IH [OF this] show ?case
      using nic_step_send_stable [of s "rb_addr (send s)" "rb_len (send s)" ev] Cons.prems by (simp add: queue_ok_def)
  qed simp
  from this [OF assms] show ?thesis by (auto simp: settle_def split: list.split)
qed

lemma rx_bytes_mem: "mem c = mem d \<Longrightarrow> rx_bytes (s\<lparr>conn := c\<rparr>) = rx_bytes (s\<lparr>conn := d\<rparr>)"
  by (auto simp: rx_bytes_def msg_bytes_def slot_buf_def intro!: arg_cong [of _ _ concat] map_cong)

end
