(* ===== verification/Example_Async.thy ===== *)
theory Example_Async
  imports Example_State Async_Serve Split_Pump Accept_Async Acceptor Endpoint_Run
begin

text \<open>The example endpoint under the async driver, the split handles and the server runtime.\<close>

section \<open>The single-task driver\<close>

definition ex_async :: "hord_stream \<Rightarrow> async_stream" where
  "ex_async s = \<lparr>a_stream = s, a_cm = True, a_armed = False, cq_ready = [], cm_ready = [], arm_faults = []\<rparr>"

lemma ex_async_fields [simp]:
  "a_stream (ex_async s) = s" "a_cm (ex_async s) = True" "cq_ready (ex_async s) = []" "cm_ready (ex_async s) = []"
  "arm_faults (ex_async s) = []" "a_armed (ex_async s) = False"
  by (simp_all add: ex_async_def)

lemma ex_poll_read:
  obtains b where "poll_read 2 (ex_async ex_stream) = Some (Ready (Inr [13, 10]), b)"
proof -
  obtain s' where "try_read 2 ex_stream = (Inr (Some [13, 10]), s')" using ex_read by (metis prod.collapse)
  then show thesis
    by (intro that) (simp add: poll_read_def poll_until.simps on_stream_def try_read_into_def Let_def)
qed

lemma ex_poll_write:
  obtains b where "poll_write [1, 2, 3] (ex_async ex_stream) = Some (Ready (Inr 3), b)"
  by (simp add: poll_write_def poll_until.simps on_stream_def try_write_from_def Let_def try_write_def
      try_write_loop.simps)

lemma ex_poll_flush: "poll_flush (ex_async ex_stream) = Some (Ready (Inr ()), ex_async ex_stream)"
  by (simp add: poll_flush_def poll_until.simps on_stream_def poll_flush_ready_def Let_def try_flush_stage_def
      sends_outstanding_def writes_pending_def ex_async_def)

text \<open>The same endpoint with nothing received and nothing about to arrive.\<close>

definition ex_idle :: hord_stream where
  "ex_idle = ex_stream\<lparr>rx_ready := [], conn := ex_conn\<lparr>arrivals := []\<rparr>\<rparr>"

lemmas ex_reactor_run =
  poll_reactor_def a_drain_def drain_completions_def drain_loop.simps pump_nb_def poll_cm_event_def arm_cq_def
  poll_try_def

lemma ex_idle_poll:
  "poll_read 4 (ex_async ex_idle) = Some (Pending, (ex_async ex_idle)\<lparr>a_armed := True\<rparr>)"
  by (simp add: poll_read_def poll_until.simps on_stream_def try_read_into_def Let_def try_read_def ex_idle_def
      return_owed_credits_def maybe_return_credits_def ex_reactor_run ex_run poll_def settle_def)

lemma ex_idle_wait:
  "poll_split_completion (ex_async ex_idle) = Some (Pending, (ex_async ex_idle)\<lparr>a_armed := True\<rparr>)"
  by (simp add: poll_split_completion_def poll_until.simps on_stream_def next_transfer_def next_completed_transfer_def
      is_closed_def Let_def ex_idle_def ex_reactor_run ex_run poll_def settle_def)

lemma ex_idle_ok: "queue_ok ex_idle"
proof -
  have layout: "layout_ok ex_idle"
    by (simp add: layout_ok_def span_disjoint_def pool_buffers_def ex_idle_def)
  have owned: "recv_owned ex_idle = {#1, 2, 3#}" "send_owned ex_idle = {#0, 1#}" "ctrl_in_flight ex_idle = 0"
    by (simp_all add: ex_idle_def owned_defs slot_bound_def wr_id_simps del: One_nat_def)
  have geo: "geometry ex_idle"
    by (simp add: geometry_def ENVELOPE_LEN_def CTRL_SEND_SLOTS_def slot_bound_def ex_idle_def)
  have posted: "recv_posted_ok ex_idle"
    by (simp add: recv_posted_ok_def recv_slots_def slot_bound_def wr_id_simps ex_wr_def slot_wr_def
        slot_buf_def slot_off_def ex_idle_def)
  have sub: "{#1, 2, 3#} \<subseteq># {#0::nat, 1, 2, 3#}" using mset_subset_eq_add_right [of "{#1::nat, 2, 3#}" "{#0#}"] by (simp del: One_nat_def)
  have slots: "recv_slots ex_idle = 4" "send_pool ex_idle = 2" by (simp_all add: ex_idle_def recv_slots_def)
  have "stream_ok ex_idle"
    unfolding stream_ok_def owned slots ex_recv_slots using geo posted sub
    by (simp add: cq_ok_def u32_max_def ready_ok_def ex_idle_def del: mset_upt One_nat_def)
  with layout show ?thesis by (simp add: queue_ok_def)
qed

section \<open>Writes as futures\<close>

lemmas ex_future_run =
  poll_drive_write.simps plan_batch_def drive_write_def next_gather_batch_def next_batch_len_def batch_segment.simps
  poll_rdma_write_def poll_until.simps on_stream_def post_attempt_def drain_attempt_def subslice_def wrap64_def
  begin_rdma_write_gather_def begin_rdma_write_gather_with_imm_def bc_sealed_def

lemma ex_future:
  obtains f b where "poll_drive_write (drive_write [ex_seg] 4096 9 (Some 7)) (ex_async ex_writer) = Some (Ready (Inr ()), f, b)"
  by (simp add: ex_future_run ex_write_run ex_reactor_run ex_writer_def ex_seg_def ex_run is_closed_def)

lemma ex_future_runt:
  obtains f b where "poll_drive_write (drive_write [ex_seg] 4096 9 None) (ex_async ex_runt) = Some (Ready (Inl (io_err InvalidData)), f, b)"
    "writes_pending (a_stream b)" "\<not> wf_armed f" "qp (conn (a_stream b)) \<noteq> None"
  by (simp add: ex_future_run ex_write_run ex_reactor_run ex_runt_def ex_seg_def ex_run ex_wr_def handle_recv_def
      recv_slot_def is_closed_def)

section \<open>Split handles\<close>

text \<open>The idle endpoint whose next post will be refused.\<close>

definition ex_refusing :: hord_stream where
  "ex_refusing = ex_idle\<lparr>conn := (conn ex_idle)\<lparr>post_faults := [True]\<rparr>\<rparr>"

lemma ex_refusing_ok: "queue_ok ex_refusing"
  using ex_idle_ok layout_ok_cong [of ex_refusing ex_idle]
  by (simp add: ex_refusing_def queue_ok_def stream_ok_def owned_defs cq_ok_def recv_posted_ok_def ready_ok_def geometry_def)

lemma ex_reader_parks:
  "poll_half (ReadOp 4) 0 (into_split (ex_async ex_refusing)) = (True, \<lparr>sh_wakers = [0], sh_async = ex_async ex_refusing\<rparr>)"
  by (simp add: poll_half_def read_half_poll_read_def half_poll_def on_stream_def try_read_into_def try_read_def
      ex_refusing_def ex_idle_def return_owed_credits_def maybe_return_credits_def into_split_def register_waker_def
      and_then_def Let_def ex_async_def)

lemma ex_pump_parks:
  "pump_task \<lparr>sh_wakers = [0], sh_async = ex_async ex_refusing\<rparr>
     = ([], True, \<lparr>sh_wakers = [0], sh_async = (ex_async ex_refusing)\<lparr>a_armed := True\<rparr>\<rparr>)"
  by (simp add: pump_task.simps drive_once_def ex_refusing_def ex_idle_def ex_reactor_run ex_run poll_def settle_def)

lemma ex_writer_fails:
  obtains s where
    "poll_half (WriteHalfOp [1, 2, 3, 4, 5, 6, 7, 8]) 1 \<lparr>sh_wakers = [0], sh_async = (ex_async ex_refusing)\<lparr>a_armed := True\<rparr>\<rparr>
       = (False, \<lparr>sh_wakers = [0], sh_async = (ex_async s)\<lparr>a_armed := True\<rparr>\<rparr>)"
    "peer_closed s" "cq (conn s) = []" "arrivals (conn s) = []" "qp (conn s) \<noteq> None"
  by (simp add: poll_half_def write_half_poll_write_def half_poll_def on_stream_def try_write_from_def try_write_def
      ex_refusing_def ex_idle_def try_write_loop.simps post_data_message_def post_into_def copy_in_def post_send_def
      ex_run ex_async_def envelope_bytes_def can_send_data_def)

lemma ex_pump_idle:
  assumes "peer_closed s" and "cq (conn s) = []" and "arrivals (conn s) = []" and "qp (conn s) \<noteq> None"
  shows "pump_task \<lparr>sh_wakers = w, sh_async = (ex_async s)\<lparr>a_armed := True\<rparr>\<rparr>
     = ([], True, \<lparr>sh_wakers = w, sh_async = (ex_async s)\<lparr>a_armed := True\<rparr>\<rparr>)"
  using assms
  by (auto simp: pump_task.simps drive_once_def ex_reactor_run ex_run poll_def settle_def)

text \<open>A reader parks and the pump runs; then the writer's post is refused.\<close>

lemma ex_refusing_open:
  "\<not> shared_is_closed (into_split (ex_async ex_refusing))"
  "\<not> shared_is_closed \<lparr>sh_wakers = w, sh_async = ex_async ex_refusing\<rparr>"
  "\<not> shared_is_closed \<lparr>sh_wakers = w, sh_async = (ex_async ex_refusing)\<lparr>a_armed := b\<rparr>\<rparr>"
  by (simp_all add: shared_is_closed_def is_closed_def into_split_def ex_refusing_def ex_idle_def)

definition ex_parked :: split_system where
  "ex_parked = (split_init (ex_async ex_refusing))\<lparr>sy_shared := \<lparr>sh_wakers = [0], sh_async = (ex_async ex_refusing)\<lparr>a_armed := True\<rparr>\<rparr>,
     sy_pumped := True, sy_parked := [0 \<mapsto> ReadOp 4]\<rparr>"

lemma ex_parked_run: "split_step\<^sup>*\<^sup>* (split_init (ex_async ex_refusing)) ex_parked"
proof -
  let ?y0 = "split_init (ex_async ex_refusing)"
  let ?sh1 = "\<lparr>sh_wakers = [0], sh_async = ex_async ex_refusing\<rparr>"
  let ?y1 = "?y0\<lparr>sy_shared := ?sh1, sy_parked := [0 \<mapsto> ReadOp 4]\<rparr>"
  have "split_step ?y0 ?y1"
    using split_step.polled [of "ReadOp 4" 0 ?y0 True ?sh1] ex_reader_parks
    by (simp add: split_init_def ex_refusing_open)
  moreover have "split_step ?y1 ex_parked"
    using split_step.pumped [of ?y1 "[]" True] ex_pump_parks
    by (simp add: split_init_def ex_parked_def fun_upd_def)
  ultimately show ?thesis by (meson converse_rtranclp_into_rtranclp rtranclp.rtrancl_refl)
qed

lemma ex_parked_facts: "sy_parked ex_parked 0 = Some (ReadOp 4)" "sy_pumped ex_parked" "\<not> peer_closed (sy_stream ex_parked)"
  by (simp_all add: ex_parked_def ex_refusing_def ex_idle_def)

lemma ex_split_run:
  obtains y where "split_step\<^sup>*\<^sup>* (split_init (ex_async ex_refusing)) y" "sy_parked y 0 = Some (ReadOp 4)"
    "peer_closed (sy_stream y)" "fst (pump_task (sy_shared y)) = []" "fst (snd (pump_task (sy_shared y)))"
proof (rule ex_writer_fails)
  fix s
  let ?sh2 = "\<lparr>sh_wakers = [0], sh_async = (ex_async ex_refusing)\<lparr>a_armed := True\<rparr>\<rparr>"
  let ?sh3 = "\<lparr>sh_wakers = [0], sh_async = (ex_async s)\<lparr>a_armed := True\<rparr>\<rparr>"
  let ?y3 = "ex_parked\<lparr>sy_shared := ?sh3, sy_failed := True\<rparr>"
  assume w: "poll_half (WriteHalfOp [1, 2, 3, 4, 5, 6, 7, 8]) 1 ?sh2 = (False, ?sh3)" and s: "peer_closed s"
    "cq (conn s) = []" "arrivals (conn s) = []" "qp (conn s) \<noteq> None"
  have "shared_is_closed ?sh3" using s(1) by (simp add: shared_is_closed_def is_closed_def)
  then have "split_step ex_parked ?y3"
    using split_step.polled [of "WriteHalfOp [1, 2, 3, 4, 5, 6, 7, 8]" 1 ex_parked False ?sh3] w
    by (simp add: ex_parked_def split_init_def ex_refusing_open fun_upd_idem)
  with ex_parked_run have "split_step\<^sup>*\<^sup>* (split_init (ex_async ex_refusing)) ?y3" by (rule rtranclp.rtrancl_into_rtrancl)
  then show thesis by (rule that) (simp_all add: s ex_parked_def ex_pump_idle)
qed

section \<open>Send queue\<close>

definition ex_sizes :: hord_config where
  "ex_sizes = \<lparr>max_message_size = 16, recv_pool_size = 2, send_pool_size = 2,
     cfg_cm = cm_params_default, cfg_zero_copy = True, cfg_split_mode = True, cfg_split_credits = 0\<rparr>"

lemma ex_sized: "sized_for ex_sizes ex_stream"
  by (simp add: sized_for_def ex_sizes_def recv_slots_def recv_wr_count_def recv_base_count_def CTRL_RECV_SLACK_def
      split_slack_def)

section \<open>A received message\<close>

text \<open>An endpoint set up by \<open>from_accepted\<close>, with a message of the peer received and not yet read.\<close>

definition ex_arrives :: "bytes \<Rightarrow> hord_stream \<Rightarrow> hord_stream" where
  "ex_arrives bs s = s\<lparr>conn := (conn s)\<lparr>arrivals :=
     [[NicRecv (envelope_bytes \<lparr>env_length = of_nat (length bs), env_credits = 0, env_flags = 0\<rparr> @ bs)]],
     cm_events := [], post_faults := [], reg_faults := []\<rparr>\<rparr>"

lemma ex_arrives_run: "endpoint_run cfg s \<Longrightarrow> endpoint_run cfg (ex_arrives bs s)"
  unfolding ex_arrives_def by (rule endpoint_run.environ)

lemma ex_setup_posted:
  obtains s w where "from_accepted 0 0 ex_fresh ex_config = Inr s"
    "rq (conn s) = \<lparr>rw_id = recv_wr_id 0, rw_addr = 0, rw_len = 16, rw_lkey = 1\<rparr> # w"
    "cq (conn s) = []" "qp (conn s) = Some ReadyToSend" "rx_ready s = []" "peer_closed s = False" "msg_size s = 16" "recv_pool s = 1" "send_credits s = 4"
    "recv s = \<lparr>rb_addr = 0, rb_len = 48, rb_lkey = 1, rb_rkey = 1\<rparr>" "split_base s = 3"
  by (simp add: ex_setup_run hs_ids hs_ids(3) [symmetric] ex_read_own ex_peer_frame
      post_split_recvs_def negotiate_split_def)

lemma ex_frame_read:
  "envelope_decode (read_mem (write_mem m 0 (envelope_bytes e @ bs)) 0 8) = Inr e"
  "n = length bs \<Longrightarrow> read_mem (write_mem m 0 (envelope_bytes e @ bs)) 8 n = bs"
proof -
  have "read_mem (write_mem m 0 (envelope_bytes e @ bs)) 0 8 = envelope_bytes e"
    by (auto simp: read_mem_def write_mem_def nth_append ENVELOPE_LEN_def intro: nth_equalityI)
  then show "envelope_decode (read_mem (write_mem m 0 (envelope_bytes e @ bs)) 0 8) = Inr e"
    using envelope_decode_bytes_append [of e "[]"] by simp
  show "n = length bs \<Longrightarrow> read_mem (write_mem m 0 (envelope_bytes e @ bs)) 8 n = bs"
    by (auto simp: read_mem_def write_mem_def nth_append ENVELOPE_LEN_def intro: nth_equalityI)
qed

lemma ex_received:
  obtains s where "endpoint_run ex_config s" "rx_bytes s = [5, 6]"
proof (rule ex_setup_posted)
  fix s w assume s: "from_accepted 0 0 ex_fresh ex_config = Inr s"
    "rq (conn s) = \<lparr>rw_id = recv_wr_id 0, rw_addr = 0, rw_len = 16, rw_lkey = 1\<rparr> # w"
    "cq (conn s) = []" "qp (conn s) = Some ReadyToSend" "rx_ready s = []" "peer_closed s = False" "msg_size s = 16" "recv_pool s = 1" "send_credits s = 4"
    "recv s = \<lparr>rb_addr = 0, rb_len = 48, rb_lkey = 1, rb_rkey = 1\<rparr>" "split_base s = 3"
  have "rx_bytes (snd (drain_completions (ex_arrives [5, 6] s))) = [5, 6]"
    using s(2-)
    by (simp add: ex_arrives_def drain_completions_def drain_loop.simps ex_nic_run handle_recv_def recv_slot_def
        pump_nb_def copy_out_def ex_frame_read is_credit_only_def CREDIT_ONLY_def rx_bytes_def msg_bytes_def slot_buf_def
        slot_off_def ex_run)
  then show thesis
    using that [OF endpoint_run.drains [OF ex_arrives_run [OF endpoint_run.accepted [OF ex_fresh_ok s(1)]]]]
    by blast
qed

text \<open>
  A server side with three send slots, right after its set-up: three writes and two messages, then
  one more message that the device refuses.
\<close>

definition ex_deep :: hord_config where
  "ex_deep = ex_config\<lparr>send_pool_size := 3\<rparr>"

lemma ex_deep_ok: "config_ok ex_deep"
  by (simp add: config_ok_def ex_deep_def ex_config_def recv_wr_count_def recv_base_count_def CTRL_RECV_SLACK_def
      split_slack_def slot_bound_def u32_max_def)

lemma ex_deep_setup:
  obtains s where "from_accepted 0 0 ex_fresh ex_deep = Inr s"
   "payload_cap s = 8" "send_credits s = 4" "send_free s = [2, 1, 0]" "tx_stage s = []" "\<not> peer_closed s"
   "zero_copy s" "send_pool s = 3" "writes_outstanding s = 0" "grant_pending s = 0"
   "sq (conn s) = []" "qp (conn s) = Some ReadyToSend" "post_faults (conn s) = []" "max_send_sge (conn s) = 2"
   "rb_len (send s) = 64" "msg_size s = 16"
  by (simp add: ex_setup_run ex_deep_def hs_ids hs_ids(3) [symmetric] ex_read_own ex_peer_frame
      post_split_recvs_def negotiate_split_def)

lemma ex_one_write:
  assumes "zero_copy s" "\<not> peer_closed s" "send_pool s = 3" "send_free s = [2, 1, 0]" "writes_outstanding s < 3"
    "qp (conn s) = Some ReadyToSend" "post_faults (conn s) = []" "max_send_sge (conn s) = 2"
  obtains w where "begin_rdma_write_gather [ex_seg] 4096 9 s
    = (Inr (), s\<lparr>conn := (conn s)\<lparr>post_faults := [], sq := sq (conn s) @ [w]\<rparr>, writes_outstanding := Suc (writes_outstanding s)\<rparr>)"
  using assms by (simp add: begin_rdma_write_gather_def ex_write_run ex_seg_def ex_run max_def)

lemma ex_two_messages:
  assumes "payload_cap s = 8" "send_credits s = 4" "send_free s = [2, 1, 0]" "tx_stage s = []" "\<not> peer_closed s"
   "grant_pending s = 0" "qp (conn s) = Some ReadyToSend" "post_faults (conn s) = []" "rb_len (send s) = 64" "msg_size s = 16"
  obtains t where "try_write [1, 2, 3, 4, 5, 6, 7, 8, 9, 10, 11, 12, 13, 14, 15, 16] s = (Inr 16, t)"
    "length (sq (conn t)) = length (sq (conn s)) + 2" "can_send_data t" "tx_stage t = []" "payload_cap t = 8" "send_free t = [2]"
    "\<not> peer_closed t" "grant_pending t = 0" "qp (conn t) = Some ReadyToSend" "rb_len (send t) = 64" "msg_size t = 16"
proof -
  have "\<exists>t. try_write [1, 2, 3, 4, 5, 6, 7, 8, 9, 10, 11, 12, 13, 14, 15, 16] s = (Inr 16, t)
    \<and> length (sq (conn t)) = length (sq (conn s)) + 2 \<and> can_send_data t \<and> tx_stage t = [] \<and> payload_cap t = 8 \<and> send_free t = [2]
    \<and> \<not> peer_closed t \<and> grant_pending t = 0 \<and> qp (conn t) = Some ReadyToSend \<and> rb_len (send t) = 64 \<and> msg_size t = 16"
    using assms by (simp add: try_write_def try_write_loop.simps post_data_message_def can_send_data_def wrap_sub32_def post_into_def copy_in_def
      post_send_def ex_run)
  then show thesis using that by blast
qed

lemma ex_refused_message:
  assumes "payload_cap s = 8" "can_send_data s" "send_free s = [2]" "tx_stage s = []"
   "qp (conn s) = Some ReadyToSend" "post_faults (conn s) = [True]" "rb_len (send s) = 64" "msg_size s = 16"
  obtains t where "try_write [1, 2, 3, 4, 5, 6, 7, 8] s = (Inl (io_err ErrOther), t)" "peer_closed t"
  using assms by (simp add: try_write_def try_write_loop.simps [of 8 "[1, 2, 3, 4, 5, 6, 7, 8]"] post_data_message_def can_send_data_def post_into_def copy_in_def
      post_send_def ex_run)

definition ex_three_writes :: "hord_stream \<Rightarrow> unit res \<times> hord_stream" where
  "ex_three_writes s =
     and_then (begin_rdma_write_gather [ex_seg] 4096 9 s) (\<lambda>_ s.
     and_then (begin_rdma_write_gather [ex_seg] 4096 9 s) (\<lambda>_.
       begin_rdma_write_gather [ex_seg] 4096 9))"

lemma ex_three_writes_run:
  assumes "zero_copy s" "\<not> peer_closed s" "send_pool s = 3" "send_free s = [2, 1, 0]" "writes_outstanding s = 0"
    "qp (conn s) = Some ReadyToSend" "post_faults (conn s) = []" "max_send_sge (conn s) = 2"
  obtains ws where "ex_three_writes s
    = (Inr (), s\<lparr>conn := (conn s)\<lparr>post_faults := [], sq := sq (conn s) @ ws\<rparr>, writes_outstanding := 3\<rparr>)" "length ws = 3"
proof (rule ex_one_write [of s])
  fix w1 assume w1: "begin_rdma_write_gather [ex_seg] 4096 9 s = (Inr (),
      s\<lparr>conn := (conn s)\<lparr>post_faults := [], sq := sq (conn s) @ [w1]\<rparr>, writes_outstanding := Suc (writes_outstanding s)\<rparr>)"
  let ?s1 = "s\<lparr>conn := (conn s)\<lparr>post_faults := [], sq := sq (conn s) @ [w1]\<rparr>, writes_outstanding := Suc 0\<rparr>"
  obtain w2 where w2: "begin_rdma_write_gather [ex_seg] 4096 9 ?s1 = (Inr (),
      s\<lparr>conn := (conn s)\<lparr>post_faults := [], sq := sq (conn s) @ [w1, w2]\<rparr>, writes_outstanding := Suc (Suc 0)\<rparr>)"
    by (rule ex_one_write [of ?s1]) (use assms in simp_all)
  let ?s2 = "s\<lparr>conn := (conn s)\<lparr>post_faults := [], sq := sq (conn s) @ [w1, w2]\<rparr>, writes_outstanding := Suc (Suc 0)\<rparr>"
  obtain w3 where w3: "begin_rdma_write_gather [ex_seg] 4096 9 ?s2 = (Inr (),
      s\<lparr>conn := (conn s)\<lparr>post_faults := [], sq := sq (conn s) @ [w1, w2, w3]\<rparr>, writes_outstanding := Suc (Suc (Suc 0))\<rparr>)"
    by (rule ex_one_write [of ?s2]) (use assms in simp_all)
  show thesis
    using w1 w2 w3 assms(5) by (intro that [of "[w1, w2, w3]"]) (simp_all add: ex_three_writes_def numeral_3_eq_3)
qed (use assms in simp_all)

lemma ex_deep_full:
  obtains s t u where "from_accepted 0 0 ex_fresh ex_deep = Inr s"
    "and_then (ex_three_writes s) (\<lambda>_. try_write [1, 2, 3, 4, 5, 6, 7, 8, 9, 10, 11, 12, 13, 14, 15, 16]) = (Inr 16, t)"
    "length (sq (conn t)) = 5" "can_send_data t"
    "try_write [1, 2, 3, 4, 5, 6, 7, 8] (t\<lparr>conn := (conn t)\<lparr>post_faults := [True]\<rparr>\<rparr>) = (Inl (io_err ErrOther), u)" "peer_closed u"
proof (rule ex_deep_setup)
  fix s assume s: "from_accepted 0 0 ex_fresh ex_deep = Inr s"
   "payload_cap s = 8" "send_credits s = 4" "send_free s = [2, 1, 0]" "tx_stage s = []" "\<not> peer_closed s"
   "zero_copy s" "send_pool s = 3" "writes_outstanding s = 0" "grant_pending s = 0"
   "sq (conn s) = []" "qp (conn s) = Some ReadyToSend" "post_faults (conn s) = []" "max_send_sge (conn s) = 2"
   "rb_len (send s) = 64" "msg_size s = 16"
  obtain ws where ws: "ex_three_writes s
      = (Inr (), s\<lparr>conn := (conn s)\<lparr>post_faults := [], sq := sq (conn s) @ ws\<rparr>, writes_outstanding := 3\<rparr>)" "length ws = 3"
    by (rule ex_three_writes_run [of s]) (use s in simp_all)
  let ?s3 = "s\<lparr>conn := (conn s)\<lparr>post_faults := [], sq := sq (conn s) @ ws\<rparr>, writes_outstanding := 3\<rparr>"
  obtain t where t: "try_write [1, 2, 3, 4, 5, 6, 7, 8, 9, 10, 11, 12, 13, 14, 15, 16] ?s3 = (Inr 16, t)"
    "length (sq (conn t)) = 5" "can_send_data t" "tx_stage t = []" "payload_cap t = 8" "send_free t = [2]"
    "qp (conn t) = Some ReadyToSend" "rb_len (send t) = 64" "msg_size t = 16"
    by (rule ex_two_messages [of ?s3]) (use s ws(2) in simp_all)
  obtain u where "try_write [1, 2, 3, 4, 5, 6, 7, 8] (t\<lparr>conn := (conn t)\<lparr>post_faults := [True]\<rparr>\<rparr>) = (Inl (io_err ErrOther), u)"
    "peer_closed u"
    by (rule ex_refused_message [of "t\<lparr>conn := (conn t)\<lparr>post_faults := [True]\<rparr>\<rparr>"]) (use t in \<open>simp_all add: can_send_data_def\<close>)
  then show thesis using that [OF s(1)] ws(1) t by simp
qed

section \<open>Accepting\<close>

text \<open>The server side of \<open>ex_fresh\<close>, finished in stages with no wait in between.\<close>

definition ex_runtime :: runtime where
  "ex_runtime = \<lparr>rt_cq = True, rt_cm = True, rt_cq_ready = [], rt_cm_ready = [], rt_arm_faults = []\<rparr>"

lemma ex_accept_async:
  obtains s a where "accept_prepare ex_fresh ex_config = Inr s"
    "accept_async 0 [] [] ex_runtime s ex_config = Inr a"
proof -
  have "\<exists>a. (case accept_prepare ex_fresh ex_config of Inl e \<Rightarrow> Inl e
      | Inr s \<Rightarrow> accept_async 0 [] [] ex_runtime s ex_config) = Inr a"
    by (simp add: accept_prepare_def accept_async_def establish_phase.simps exchange_phase.simps exchange_try_def
        ex_runtime_def on_stream_def poll_established_def finish_handshake_def
        ex_setup_run hs_ids hs_ids(3) [symmetric] ex_read_own ex_peer_frame post_split_recvs_def negotiate_split_def)
  then show thesis by (auto split: sum.splits intro: that)
qed

text \<open>A listener with a shared domain: a disconnect of an old peer, a request that cannot be set
  up because its device is gone, then a good one.\<close>

definition ex_request :: "nat \<Rightarrow> nat option \<Rightarrow> listen_poll" where
  "ex_request i dev = ListenEvent \<lparr>le_type = ConnectRequest, le_ack_ok = True,
     le_request = Some \<lparr>rq_id = i, rq_device = dev, rq_conn = ex_fresh\<rparr>\<rparr>"

definition ex_listener :: listener where
  "ex_listener = \<lparr>channel = [ListenEvent \<lparr>le_type = Disconnected, le_ack_ok = True, le_request = None\<rparr>,
       ex_request 5 None, ex_request 6 (Some 3)],
     listen_pd = Some \<lparr>pds = [(3, 0)], next_pd = 1, pd_faults = []\<rparr>, rejected = []\<rparr>"

definition ex_hord_listener :: hord_listener where
  "ex_hord_listener = \<lparr>hl_listener = ex_listener, hl_config = ex_config, hl_workers = 1, hl_grace = DEFAULT_GRACE\<rparr>"

lemmas ex_accept_run =
  try_accept_def ex_listener_def ex_request_def process_event_def setup_request_def
  cm_call_def next_fault_def and_then_def ex_fresh_def endpoint_pd_def for_context_def endpoint_queues_def modify_qp_def
  with_qp_def Let_def

lemma ex_rejects: "try_accept ex_listener =
   (Inl (IoError ErrOther ConnectionSetupFailed), ex_listener\<lparr>channel := [ex_request 6 (Some 3)], rejected := [5]\<rparr>)"
  by (simp add: ex_accept_run)

lemma ex_accepts:
  obtains a where "try_accept (ex_listener\<lparr>channel := [ex_request 6 (Some 3)], rejected := [5]\<rparr>) =
      (Inr (Some a), ex_listener\<lparr>channel := [], rejected := [5]\<rparr>)"
  by (simp add: ex_accept_run)

text \<open>A listener bound to one device, a region registered with it, then a request on that device and
  one on another.\<close>

lemma ex_two_devices:
  obtains l m a b l' where "bind_with_shared_pd True [] (Some 3) [ex_request 5 (Some 3), ex_request 6 (Some 8)] [] = Inr l"
    "listener_register_external 0 4096 (Some (1, 2)) l = Inr m" "accept_run l [(Some 3, a), (Some 8, b)] l'"
proof -
  define l where "l = \<lparr>channel = [ex_request 5 (Some 3), ex_request 6 (Some 8)],
    listen_pd = Some \<lparr>pds = [(3, 0)], next_pd = 1, pd_faults = []\<rparr>, rejected = []\<rparr>"
  have bind: "bind_with_shared_pd True [] (Some 3) [ex_request 5 (Some 3), ex_request 6 (Some 8)] [] = Inr l"
    by (simp add: bind_with_shared_pd_def bind_inner_def shared_pd_new_def for_context_def next_fault_def l_def)
  obtain m where reg: "listener_register_external 0 4096 (Some (1, 2)) l = Inr m"
    by (simp add: l_def listener_register_external_def shared_register_external_def single_pd_def mr_new_def)
  obtain a where a: "try_accept l = (Inr (Some a), l\<lparr>channel := [ex_request 6 (Some 8)]\<rparr>)"
    by (simp add: l_def ex_accept_run)
  obtain b l2 where b: "try_accept (l\<lparr>channel := [ex_request 6 (Some 8)]\<rparr>) = (Inr (Some b), l2)"
    by (simp add: l_def ex_accept_run)
  have dev: "next_device (channel l) = Some 3" "next_device [ex_request 6 (Some 8)] = Some 8"
    by (simp_all add: next_device_def l_def ex_request_def benign_def)
  from accept_run.more [OF b accept_run.idle] dev(2)
  have "accept_run (l\<lparr>channel := [ex_request 6 (Some 8)]\<rparr>) [(Some 8, b)] l2" by simp
  from accept_run.more [OF a this] dev(1) have "accept_run l [(Some 3, a), (Some 8, b)] l2" by simp
  with bind reg that show thesis by blast
qed

lemma ex_peers: "list_all peer_event (channel ex_listener)"
  by (simp add: ex_listener_def ex_request_def peer_event_def)

text \<open>The good request alone, through the blocking accept.\<close>

definition ex_server :: listener where
  "ex_server = ex_listener\<lparr>channel := [ex_request 6 (Some 3)]\<rparr>"

lemma ex_accepted_conn:
  "listener_accept ex_server = Some (Inr \<lparr>ac_conn = ex_fresh, ac_pd = SharedPdOf 0\<rparr>, ex_server\<lparr>channel := []\<rparr>)"
  by (simp add: ex_accept_run listener_accept_def ex_server_def endpoint_max_sge_def MAX_WRITE_SGE_def)

lemma ex_hord_accept:
  obtains s where "hord_accept 0 0 ex_server ex_config = Some (Inr s, ex_server\<lparr>channel := []\<rparr>)"
  using ex_setup by (auto simp: hord_accept_def accept_begin_def ex_accepted_conn)

lemma ex_server_fresh: "list_all fresh_request (channel ex_server)"
  using ex_fresh_ok by (simp add: ex_server_def ex_request_def fresh_request_def)

lemma ex_worker:
  obtains s where "worker_recv ex_fresh ex_config worker_start
    = \<lparr>wk_next = 1, wk_live = [(0, s)], wk_done = [], wk_teardowns = [0]\<rparr>"
proof (rule ex_accept_async)
  fix s assume "accept_prepare ex_fresh ex_config = Inr s"
  then have "worker_recv ex_fresh ex_config worker_start
    = \<lparr>wk_next = 1, wk_live = [(0, s)], wk_done = [], wk_teardowns = [0]\<rparr>"
    by (simp add: worker_recv_def worker_start_def reap_finished_def Let_def)
  then show thesis by (rule that)
qed

section \<open>Serving\<close>

definition ex_body_future :: "nat \<Rightarrow> serve_future" where
  "ex_body_future n = \<lparr>sf_write = drive_write [ex_seg] 4096 9 None,
     sf_lease = \<lparr>ls_buf = recv ex_stream, ls_pooled = False\<rparr>, sf_len = n\<rparr>"

definition ex_serving :: serving where
  "ex_serving = (source_pool_new 2 64, ex_async ex_writer)"

lemma ex_serve_future:
  obtains sf pa sf' pa' where "async_serve ex_req 3 ex_fill ex_serving = (Inr (Inr sf), pa)"
    "poll_serve sf pa = Some (Ready (Inr (Complete 3)), sf', pa')"
proof -
  have "\<exists>x. (case async_serve ex_req 3 ex_fill ex_serving of (Inr (Inr sf), pa) \<Rightarrow> poll_serve sf pa | _ \<Rightarrow> None)
      = Some (Ready (Inr (Complete 3)), x)"
    by (simp add: ex_serving_def async_serve_def decide_def ex_req_def split_mode_negotiated_def ex_writer_def
      register_source_def on_conn_eq register_buffer_def Let_def next_fault_def start_body_def start_write_plan_def
      run_fill_def ex_fill_def copy_in_def from_registered_def poll_serve_def async_rdma_write_with_imm_def
      ex_future_run ex_write_run ex_reactor_run ex_run is_closed_def ex_conn_def ex_async_def)
  then show thesis by (auto split: prod.splits sum.splits intro: that)
qed

end
