(* ===== verification/Async_Correctness.thy ===== *)
theory Async_Correctness
  imports Example_Async
begin

text \<open>
  What the async driver, the split handles, the accept paths and the server runtime guarantee,
  stated over the definitions of \<open>Reactor\<close>, \<open>Write_Future\<close>, \<open>Split_Pump\<close>, \<open>Accept_Async\<close>, \<open>Listener\<close>,
  \<open>Acceptor\<close>, \<open>Async_Serve\<close>, \<open>Sizing\<close> and \<open>Endpoint_Run\<close>.
\<close>

section \<open>The single-task driver\<close>

text \<open>
  C4. Every poll of an async stream comes back, keeps the endpoint invariant with the accounting
  of writes, and never panics: \<open>poll_read\<close>, \<open>poll_write\<close>, \<open>poll_flush\<close> and the wait for a
  transfer, whatever the fds, the NIC, the peer and the CM channel do.
\<close>

theorem async_polls_safe:
  assumes "write_ok (a_stream a)"
  shows "(\<exists>r b. poll_read n a = Some (r, b) \<and> write_ok (a_stream b) \<and> r \<noteq> Ready (Inl Panic))
    \<and> (\<exists>r b. poll_write buf a = Some (r, b) \<and> write_ok (a_stream b) \<and> r \<noteq> Ready (Inl Panic))
    \<and> (\<exists>r b. poll_flush a = Some (r, b) \<and> write_ok (a_stream b) \<and> r \<noteq> Ready (Inl Panic))
    \<and> (\<exists>r b. poll_split_completion a = Some (r, b) \<and> write_ok (a_stream b) \<and> r \<noteq> Ready (Inl Panic))"
  using polls_return(1) [of n a] polls_return(2) [of buf a] polls_return(3,4) [of a] wr.poll_functions_safe [OF assms]
  by (fastforce simp: poll_outcome_def)

theorem async_polls_safe_witness:
  "\<exists>b. poll_write [1, 2, 3] (ex_async ex_stream) = Some (Ready (Inr 3), b) \<and> write_ok (a_stream b)"
  using async_polls_safe [of "ex_async ex_stream" 2 "[1, 2, 3]"] ex_write_ok ex_poll_write
  by (metis ex_async_fields(1) option.inject prod.inject)

text \<open>
  C10. \<open>poll_read\<close> delivers the byte stream in order: what it returns continues the bytes received
  so far, extended by what arrived meanwhile; end of file is reported only on a closed and
  drained connection; and a poll that parks has consumed nothing.
\<close>

theorem async_read_law:
  assumes "queue_ok (a_stream a)" and "poll_read n a = Some (r, b)"
  shows "(\<forall>bs. r = Ready (Inr bs) \<longrightarrow>
        (\<exists>arrived. rx_bytes (a_stream a) @ arrived = bs @ rx_bytes (a_stream b)) \<and> length bs \<le> n
        \<and> (0 < n \<and> bs = [] \<longrightarrow> peer_closed (a_stream b) \<and> rx_bytes (a_stream b) = []))
    \<and> (r = Pending \<longrightarrow> (\<exists>arrived. rx_bytes (a_stream b) = rx_bytes (a_stream a) @ arrived))"
  using poll_read_law [OF assms] by (auto simp: read_law_def)

theorem async_read_law_witness:
  "\<exists>b arrived. poll_read 2 (ex_async ex_stream) = Some (Ready (Inr [13, 10]), b)
     \<and> rx_bytes ex_stream @ arrived = [13, 10] @ rx_bytes (a_stream b)"
proof (rule ex_poll_read)
  fix b assume "poll_read 2 (ex_async ex_stream) = Some (Ready (Inr [13, 10]), b)"
  with async_read_law [OF _ this] ex_queue_ok show ?thesis by auto
qed

text \<open>
  C11. \<open>poll_write\<close> takes at least one byte of a non-empty buffer, and exactly the bytes it reports
  are appended to the send queue; \<open>poll_flush\<close> resolves only when no byte is staged and nothing
  of this end is with the NIC.
\<close>

theorem async_write_law:
  assumes "queue_ok (a_stream a)"
  shows "(poll_write buf a = Some (Ready (Inr n), b) \<longrightarrow>
        n \<le> length buf \<and> (buf \<noteq> [] \<longrightarrow> 0 < n)
        \<and> (\<exists>sent. tx_bytes (a_stream a) @ take n buf = sent @ tx_bytes (a_stream b)))
    \<and> (poll_flush a = Some (Ready (Inr ()), c) \<longrightarrow>
        tx_bytes (a_stream c) = [] \<and> \<not> sends_outstanding (a_stream c) \<and> \<not> writes_pending (a_stream c))"
  using poll_write_law [OF assms, of buf n b] poll_flush_law [OF assms, of c] by (auto simp: write_law_def)

theorem async_write_law_witness:
  "\<exists>b sent. poll_write [1, 2, 3] (ex_async ex_stream) = Some (Ready (Inr 3), b)
     \<and> tx_bytes ex_stream @ [1, 2, 3] = sent @ tx_bytes (a_stream b)"
proof (rule ex_poll_write)
  fix b assume "poll_write [1, 2, 3] (ex_async ex_stream) = Some (Ready (Inr 3), b)"
  with async_write_law [of "ex_async ex_stream" "[1, 2, 3]" 3 b "ex_async ex_stream"] ex_queue_ok show ?thesis by auto
qed



section \<open>One-sided writes as futures\<close>

text \<open>
  C18. The future of a gather write, polled to whatever end: every poll comes back, keeps the
  invariant and the geometry of the endpoint, and never panics; the future stays well formed
  with its cancel guard armed while it is pending; and it resolves to success only when no
  write of this endpoint is left with the NIC and the connection is still open.
\<close>

theorem write_future_sound:
  assumes "wf_ok f" and "write_ok (a_stream a)"
  shows "\<exists>r f' b. poll_drive_write f a = Some (r, f', b) \<and> write_ok (a_stream b)
    \<and> fixtures (a_stream b) = fixtures (a_stream a) \<and> r \<noteq> Ready (Inl Panic) \<and> wf_ok f'
    \<and> (r = Pending \<longrightarrow> wf_armed f' = wf_armed f)
    \<and> (r = Ready (Inr ()) \<longrightarrow> write_ids (a_stream b) = {#} \<and> \<not> peer_closed (a_stream b))"
proof -
  have "held_ok (fixtures (a_stream a)) (a_stream a)" using assms(2) by simp
  from poll_drive_write_props [OF assms(1) this] obtain r f' b where
    "poll_drive_write f a = Some (r, f', b)" "write_ok (a_stream b)" "fixtures (a_stream b) = fixtures (a_stream a)"
    "r \<noteq> Ready (Inl Panic)" "wf_ok f'" "r = Pending \<longrightarrow> wf_armed f' = wf_armed f"
    "r = Ready (Inr ()) \<longrightarrow> \<not> writes_pending (a_stream b) \<and> \<not> peer_closed (a_stream b)" by blast
  then show ?thesis using no_writes_pending [of "a_stream b"] by (auto simp: write_ok_def)
qed

theorem write_future_sound_witness:
  "\<exists>f b. poll_drive_write (drive_write [ex_seg] 4096 9 (Some 7)) (ex_async ex_writer) = Some (Ready (Inr ()), f, b)
     \<and> write_ids (a_stream b) = {#}"
proof (rule ex_future)
  fix f b assume "poll_drive_write (drive_write [ex_seg] 4096 9 (Some 7)) (ex_async ex_writer) = Some (Ready (Inr ()), f, b)"
  with write_future_sound [OF drive_write_ok, of "ex_async ex_writer" "[ex_seg]" 4096 9 "Some 7"] ex_writer_ok
  show ?thesis by auto
qed

text \<open>
  C19. Serving a body asynchronously, with or without the pool: the first poll keeps the
  invariant and answers at once exactly as the policy says, or starts a body. From there on,
  through any number of pending polls, with the other users of the connection active in between:
  the cancel guard stays armed, the next poll comes back, keeps the invariant and does not
  panic; and a body is reported complete only with the length the policy promises, when no
  write of the connection is with the NIC any more.
\<close>

theorem async_serve_sound:
  assumes "world_ok (a_stream (snd pa))" and "pool_idle (fst pa)" and "fills fill (unat object_size)"
    and "async_serve req object_size fill pa = (r, pa1) \<or> async_serve_pooled req object_size fill pa = (r, pa1)"
  shows "world_ok (a_stream (snd pa1)) \<and> r \<noteq> Inl Panic
    \<and> (\<forall>st. r = Inr (Inl st) \<longrightarrow>
         st = (if object_size > req_len req then TooLarge object_size else Complete object_size))
    \<and> (\<forall>sf sf1 pa2. r = Inr (Inr sf) \<and> serve_run sf pa1 sf1 pa2 \<longrightarrow>
         wf_armed (sf_write sf1)
         \<and> (\<exists>q sf2 pa3. poll_serve sf1 pa2 = Some (q, sf2, pa3) \<and> world_ok (a_stream (snd pa3)) \<and> q \<noteq> Ready (Inl Panic)
            \<and> (\<forall>st. q = Ready (Inr st) \<longrightarrow>
                 st = (if object_size > req_len req then TooLarge object_size else Complete object_size)
                 \<and> write_ids (a_stream (snd pa3)) = {#})))"
proof -
  have start: "world_ok (a_stream (snd pa1)) \<and> r \<noteq> Inl Panic
      \<and> (\<forall>st. r = Inr (Inl st) \<longrightarrow> st = served req object_size)
      \<and> (\<forall>sf. r = Inr (Inr sf) \<longrightarrow> serve_ok req object_size sf)"
    using async_serve_ok [OF assms(1,3)] async_serve_pooled_ok [OF assms(1-3)] assms(4) by blast
  have "wf_armed (sf_write sf1) \<and> (\<exists>q sf2 pa3. poll_serve sf1 pa2 = Some (q, sf2, pa3)
      \<and> world_ok (a_stream (snd pa3)) \<and> q \<noteq> Ready (Inl Panic)
      \<and> (\<forall>st. q = Ready (Inr st) \<longrightarrow> st = served req object_size \<and> write_ids (a_stream (snd pa3)) = {#}))"
    if "r = Inr (Inr sf)" "serve_run sf pa1 sf1 pa2" for sf sf1 pa2
  proof -
    have run: "serve_ok req object_size sf1" "world_ok (a_stream (snd pa2))"
      using serve_run_ok [OF that(2)] start that(1) by auto
    from poll_serve_ok [OF this] run(1) show ?thesis by (auto simp: serve_ok_def)
  qed
  with start show ?thesis unfolding served_def by blast
qed

theorem async_serve_sound_witness:
  "\<exists>sf pa sf' pa'. async_serve ex_req 3 ex_fill ex_serving = (Inr (Inr sf), pa) \<and> serve_run sf pa sf pa
     \<and> poll_serve sf pa = Some (Ready (Inr (Complete 3)), sf', pa') \<and> write_ids (a_stream (snd pa')) = {#}"
proof (rule ex_serve_future)
  fix sf pa sf' pa'
  assume run: "async_serve ex_req 3 ex_fill ex_serving = (Inr (Inr sf), pa)"
    "poll_serve sf pa = Some (Ready (Inr (Complete 3)), sf', pa')"
  have "world_ok (a_stream (snd ex_serving))" "pool_idle (fst ex_serving)" "fills ex_fill (unat (3 :: u64))"
    using ex_writer_ok pool_idle_new ex_fills by (simp_all add: ex_serving_def)
  from async_serve_sound [OF this, of ex_req "Inr (Inr sf)" pa] run serve_run.started [of sf pa] show ?thesis by fastforce
qed

text \<open>
  C20. Dropping the future of a body before it resolved. What it holds is dropped one by one, and
  when the source, or its lease, is given back, either no write is with the NIC or the queue
  pair is destroyed; the source is given back, and the connection is left quiet.
\<close>

theorem cancelled_serve_quiesces:
  assumes "wf_armed (sf_write sf)" and "write_ok (a_stream (snd pa))" and "cancel_serve sf pa = (drops, pa')"
  shows "(\<exists>found. (HeldSource (sf_lease sf), found) \<in> set drops)
    \<and> (\<forall>l found. (HeldSource l, found) \<in> set drops \<longrightarrow> writes_quiet (a_stream (snd found)))
    \<and> writes_quiet (a_stream (snd pa'))"
  using cancel_serve_ok [OF assms(1,2)] assms(3) by (auto simp: cancel_serve_run Let_def)

theorem cancelled_serve_quiesces_witness:
  "\<exists>found. (HeldSource (sf_lease (ex_body_future 5)), found) \<in> set (fst (cancel_serve (ex_body_future 5) ex_serving))
     \<and> writes_quiet (a_stream (snd found))"
proof -
  have "wf_armed (sf_write (ex_body_future 5))" "write_ok (a_stream (snd ex_serving))"
    using ex_writer_ok by (simp_all add: ex_body_future_def drive_write_def ex_serving_def)
  from cancelled_serve_quiesces [OF this prod.collapse [symmetric]] show ?thesis by blast
qed

section \<open>Split handles\<close>

text \<open>
  C3. The split connection, under every interleaving of handle polls, pump polls, drops and moves
  of the environment: the endpoint invariant holds; a pump that ended has closed the
  connection; and a handle that is parked is registered with a pump that is alive, and, once the
  pump has run, the next completion will signal it. On an open connection a parked handle has
  missed nothing: polled now, its read, write, flush or wait would still have no result. A
  parked handle is left on a closed connection only where the refused post of another handle
  closed it.
\<close>

theorem split_no_lost_wakeup:
  assumes "split_step\<^sup>*\<^sup>* (split_init a) y" and "queue_ok (a_stream a)"
  shows "queue_ok (sy_stream y) \<and> (\<not> sy_pump y \<longrightarrow> peer_closed (sy_stream y))
    \<and> (\<forall>t op. sy_parked y t = Some op \<longrightarrow>
         t \<in> set (sh_wakers (sy_shared y)) \<and> sy_pump y
         \<and> (sy_pumped y \<longrightarrow> will_signal (sh_async (sy_shared y)))
         \<and> (if peer_closed (sy_stream y) then sy_failed y else \<not> half_answers op t (sy_shared y)))"
proof -
  have ok: "split_ok y" by (rule split_reachable_ok [OF assms])
  then have "queue_ok (sy_stream y)" by (simp add: split_ok_def)
  moreover have "\<not> half_answers op t (sy_shared y)"
    if "sy_parked y t = Some op" "\<not> peer_closed (sy_stream y)" for t op
    using idle_no_answer that ok by (simp add: split_ok_def parked_ok_def)
  ultimately show ?thesis using ok by (auto simp: split_ok_def parked_ok_def split: if_splits)
qed

theorem split_no_lost_wakeup_witness:
  "\<exists>y. split_step\<^sup>*\<^sup>* (split_init (ex_async ex_refusing)) y \<and> sy_parked y 0 = Some (ReadOp 4)
     \<and> 0 \<in> set (sh_wakers (sy_shared y)) \<and> will_signal (sh_async (sy_shared y)) \<and> \<not> half_answers (ReadOp 4) 0 (sy_shared y)"
  using split_no_lost_wakeup [OF ex_parked_run] ex_refusing_ok ex_parked_run ex_parked_facts by auto

text \<open>
  What the invariant above does not promise: a handle whose post fails closes the connection
  itself, and wakes nobody. The other handle stays parked on a closed connection, and a poll of
  the pump finds nothing to do.
\<close>

theorem split_close_unnoticed:
  "\<exists>a y. queue_ok (a_stream a) \<and> split_step\<^sup>*\<^sup>* (split_init a) y \<and> sy_parked y 0 = Some (ReadOp 4)
     \<and> peer_closed (sy_stream y) \<and> (\<exists>sh. pump_task (sy_shared y) = ([], True, sh))"
proof (rule ex_split_run)
  fix y assume "split_step\<^sup>*\<^sup>* (split_init (ex_async ex_refusing)) y" "sy_parked y 0 = Some (ReadOp 4)"
    "peer_closed (sy_stream y)" "fst (pump_task (sy_shared y)) = []" "fst (snd (pump_task (sy_shared y)))"
  then show ?thesis using ex_refusing_ok by (metis ex_async_fields(1) prod.collapse)
qed

section \<open>Accepting connections\<close>

text \<open>
  C24. Every way to a served connection establishes the endpoint's invariant: the staged async
  accept, the async connect, the wrapped blocking accept, and the blocking accept through the
  listener, whatever the peer, the device and the CM channel do.
\<close>

theorem accept_establishes:
  assumes "config_ok cfg"
  shows "(fresh_conn c \<and>
      (accept_prepare c cfg = Inr p \<and> accept_async now est ex rt p cfg = Inr a
       \<or> async_connect budget now addr_ok rt c cfg = Inr a \<or> async_from_accepted budget now rt c cfg = Inr a)
        \<longrightarrow> world_ok (a_stream a))
    \<and> (list_all fresh_request (channel l) \<and> hord_accept budget now l cfg = Some (Inr s, l') \<longrightarrow> world_ok s)"
  using accept_async_world [of c cfg p now est ex rt a] async_connect_world [of c cfg budget now addr_ok rt a]
    async_from_accepted_world [of c cfg budget now rt a] hord_accept_world [of budget now l cfg s l'] assms
  by blast

theorem accept_establishes_witness:
  "\<exists>s p a. hord_accept 0 0 ex_server ex_config = Some (Inr s, ex_server\<lparr>channel := []\<rparr>) \<and> world_ok s
     \<and> accept_prepare ex_fresh ex_config = Inr p \<and> accept_async 0 [] [] ex_runtime p ex_config = Inr a
     \<and> world_ok (a_stream a)"
proof (rule ex_accept_async)
  fix p a assume pa: "accept_prepare ex_fresh ex_config = Inr p" "accept_async 0 [] [] ex_runtime p ex_config = Inr a"
  obtain s where s: "hord_accept 0 0 ex_server ex_config = Some (Inr s, ex_server\<lparr>channel := []\<rparr>)"
    using ex_hord_accept by blast
  note W = accept_establishes [OF ex_config_ok, of ex_fresh p 0 "[]" "[]" ex_runtime a 0 True ex_server s "ex_server\<lparr>channel := []\<rparr>"]
  show ?thesis using W pa s ex_fresh_ok ex_server_fresh by blast
qed

text \<open>
  C26. What a non-blocking accept reports: events that concern no request are skipped, and the
  first that does decides. A request whose set-up goes through is returned as a server endpoint
  in INIT on the domain of its device; a request whose set-up fails is always rejected and
  reported as that connection's failure; device removal is reported as that, exactly on a
  removal event; and a request without an id, a failed acknowledgement or a failed channel is an
  error of the listener that blames and rejects nobody.
\<close>

theorem accept_outcomes:
  assumes "try_accept l = (r, l')"
  shows "accept_ends (channel l) l r l'"
  using try_accept_loop_ends assms by (simp add: try_accept_def)

theorem accept_outcomes_witness:
  "accept_ends (channel ex_listener) ex_listener (Inl (IoError ErrOther ConnectionSetupFailed))
     (ex_listener\<lparr>channel := [ex_request 6 (Some 3)], rejected := [5]\<rparr>)"
  by (rule accept_outcomes [OF ex_rejects])

text \<open>
  C29. What a memory region registered with the listener's shared domain is good for. The listener
  registers it while its registry has one device, the one it was bound to if the bind resolved
  one; every connection accepted before is on that device and on the region's domain; of the
  connections accepted afterwards exactly those on that device can use the region, and one on a
  second device cannot.
\<close>

theorem shared_arena_usable:
  assumes "bind_with_shared_pd addr_ok calls bound events fs = Inr l0" and "accept_run l0 before l"
    and "listener_register_external ptr len key l = Inr m" and "accept_run l after l'"
  shows "\<exists>ctx. (\<forall>(dev, b) \<in> set before. dev = Some ctx \<and> ac_pd b = sm_pd m)
    \<and> (\<forall>(dev, a) \<in> set after. ac_pd a = sm_pd m \<longleftrightarrow> dev = Some ctx)
    \<and> (\<forall>d. bound = Some d \<longrightarrow> d = ctx)"
  by (rule shared_arena_pd [OF assms]) blast

theorem shared_arena_usable_witness:
  "\<exists>l m a b l'. bind_with_shared_pd True [] (Some 3) [ex_request 5 (Some 3), ex_request 6 (Some 8)] [] = Inr l
     \<and> listener_register_external 0 4096 (Some (1, 2)) l = Inr m
     \<and> accept_run l [(Some 3, a), (Some 8, b)] l' \<and> ac_pd a = sm_pd m \<and> ac_pd b \<noteq> sm_pd m"
proof (rule ex_two_devices)
  fix l m a b l'
  assume ex: "bind_with_shared_pd True [] (Some 3) [ex_request 5 (Some 3), ex_request 6 (Some 8)] [] = Inr l"
    "listener_register_external 0 4096 (Some (1, 2)) l = Inr m" "accept_run l [(Some 3, a), (Some 8, b)] l'"
  from shared_arena_usable [OF ex(1) accept_run.idle ex(2,3)]
  have "ac_pd a = sm_pd m" "ac_pd b \<noteq> sm_pd m" by auto
  with ex show ?thesis by blast
qed

text \<open>
  C30. The protection-domain registry stays well formed: one domain per device and one device per
  domain; a lookup keeps every entry, and answers with the domain the device already has.
\<close>

theorem registry_well_formed:
  assumes "registry_ok sp" and "for_context ctx sp = (r, sp')"
  shows "registry_ok sp' \<and> (\<forall>c pd. map_of (pds sp) c = Some pd \<longrightarrow> map_of (pds sp') c = Some pd)
    \<and> (\<forall>pd. r = Inr pd \<longrightarrow> map_of (pds sp') ctx = Some pd \<and> (\<forall>c. map_of (pds sp') c = Some pd \<longrightarrow> c = ctx))"
proof -
  note F = for_context_cases [OF assms(2)]
  have ok: "registry_ok sp'" using F(2) assms(1) .
  then have "map_of (pds sp') c = Some pd \<Longrightarrow> map_of (pds sp') ctx = Some pd \<Longrightarrow> c = ctx" for c pd
    by (metis distinct_map fst_conv inj_on_def map_of_SomeD registry_ok_def snd_conv)
  then show ?thesis using ok F(3) for_context_stable [OF assms(1) F(1) ok] by blast
qed

theorem registry_well_formed_witness:
  "\<exists>sp. for_context 8 \<lparr>pds = [(3, 0)], next_pd = 1, pd_faults = []\<rparr> = (Inr 1, sp) \<and> registry_ok sp
     \<and> map_of (pds sp) 3 = Some 0"
proof -
  have run: "for_context 8 \<lparr>pds = [(3, 0)], next_pd = 1, pd_faults = []\<rparr>
      = (Inr 1, \<lparr>pds = [(8, 1), (3, 0)], next_pd = 2, pd_faults = []\<rparr>)"
    by (simp add: for_context_def next_fault_def numeral_2_eq_2)
  have "registry_ok \<lparr>pds = [(3, 0)], next_pd = 1, pd_faults = []\<rparr>" by (simp add: registry_ok_def)
  from registry_well_formed [OF this run] run show ?thesis by simp
qed

section \<open>The server runtime\<close>

text \<open>
  C25. The acceptor and its workers, in every reachable state: no queue exceeds its capacity, a
  running acceptor is under its error budget, and every connection it accepted is with a
  worker, in exactly one queue, or shed.
\<close>

theorem acceptor_invariant:
  assumes "accept_step\<^sup>*\<^sup>* (acceptor_start h sd) ac" and "0 < hl_workers h"
  shows "list_all (\<lambda>q. length (wq_items q) \<le> WORKER_CHANNEL_CAP) (ac_queues ac)
    \<and> (ac_running ac \<longrightarrow> ac_errors ac < MAX_CONSECUTIVE_ACCEPT_ERRORS)
    \<and> mset (ac_all ac) = mset (ac_shed ac) + mset (ac_taken ac) + (\<Sum>q \<leftarrow> ac_queues ac. mset (wq_items q))"
  using accept_reachable_inv [OF assms] by (simp add: acceptor_inv_def acceptor_ok_def queued_def)

theorem acceptor_invariant_witness:
  "\<exists>ac. accept_step\<^sup>*\<^sup>* (acceptor_start ex_hord_listener False) ac
     \<and> mset (ac_all ac) = mset (ac_shed ac) + mset (ac_taken ac) + (\<Sum>q \<leftarrow> ac_queues ac. mset (wq_items q))"
proof -
  let ?ac = "accept_turn FdReadable (acceptor_start ex_hord_listener False)"
  have "accept_step (acceptor_start ex_hord_listener False) ?ac"
    by (rule accept_step.turn) (simp add: acceptor_start_def)
  then have "accept_step\<^sup>*\<^sup>* (acceptor_start ex_hord_listener False) ?ac" by blast
  from acceptor_invariant [OF this] this show ?thesis by (auto simp: ex_hord_listener_def)
qed

text \<open>
  Dealing a connection out: it goes to one worker whose queue is open and not full, the next
  in turn when that one can take it, and it is shed only when no worker can take it; every
  other queue is left as it was.
\<close>

theorem dispatch_correct:
  assumes "nxt < length qs" and "dispatch nxt a qs = (sent, nxt', qs')"
  shows "nxt' < length qs
    \<and> (if sent then \<exists>w < length qs. can_take (qs ! w) \<and> (can_take (qs ! nxt) \<longrightarrow> w = nxt)
           \<and> qs' = qs[w := (qs ! w)\<lparr>wq_items := wq_items (qs ! w) @ [a]\<rparr>]
       else qs' = qs \<and> (\<forall>w < length qs. \<not> can_take (qs ! w)))"
  using dispatch_cases [OF assms] assms(1) by (cases "can_take (qs ! nxt)") auto

text \<open>
  C27. Peers cannot stop the server: whatever requests, failing set-ups and stray events are
  waiting, a turn of the accept loop leaves the acceptor running and does not use up its error
  budget.
\<close>

theorem peers_cannot_stop_acceptor:
  assumes "acceptor_inv n ac" and "ac_running ac" and "\<not> ac_shutdown ac"
    and "list_all peer_event (channel (ac_listener ac))"
  shows "ac_running (accept_turn FdReadable ac) \<and> ac_errors (accept_turn FdReadable ac) \<le> ac_errors ac"
  using bad_peers_keep_running [OF assms] by simp

theorem peers_cannot_stop_acceptor_witness:
  "ac_running (accept_turn FdReadable (acceptor_start ex_hord_listener False))"
proof -
  have "acceptor_inv 1 (acceptor_start ex_hord_listener False)"
    using acceptor_start_inv [of ex_hord_listener False] by (simp add: ex_hord_listener_def)
  from peers_cannot_stop_acceptor [OF this] ex_peers show ?thesis
    by (simp add: acceptor_start_def ex_hord_listener_def)
qed

text \<open>
  C28. A worker that gives up at its grace deadline leaves nothing running on the device: every
  task it still has has a teardown handle, and after they are fired no stream of those tasks
  has a queue pair.
\<close>

theorem worker_grace_quiesces:
  assumes "worker_step\<^sup>*\<^sup>* worker_start wk" and "(t, s) \<in> set (wk_live (fire_teardowns wk))"
  shows "qp (conn s) = None"
  by (rule fire_teardowns_quiesces [OF worker_reachable_ok [OF assms(1)] assms(2)])

theorem worker_grace_quiesces_witness:
  "\<exists>s. (0, s) \<in> set (wk_live (fire_teardowns (worker_recv ex_fresh ex_config worker_start))) \<and> qp (conn s) = None"
proof (rule ex_worker)
  fix s assume wk: "worker_recv ex_fresh ex_config worker_start
    = \<lparr>wk_next = 1, wk_live = [(0, s)], wk_done = [], wk_teardowns = [0]\<rparr>"
  have "worker_step\<^sup>*\<^sup>* worker_start (worker_recv ex_fresh ex_config worker_start)" using worker_step.recv by blast
  moreover have live: "(0, force_teardown s) \<in> set (wk_live (fire_teardowns (worker_recv ex_fresh ex_config worker_start)))"
    by (simp add: wk fire_teardowns_def)
  ultimately show ?thesis using worker_grace_quiesces by blast
qed

section \<open>Queue depths\<close>

text \<open>
  C31. The queues are deep enough: an endpoint built for a configuration, with no one-sided write
  outstanding, never has more sends, receives or unreaped completions than the depths
  \<open>qp_sizing\<close> and the completion queue were created with. Set-up builds such an endpoint and
  every operation keeps it so (\<open>endpoint_run_ok\<close>).
\<close>

theorem queue_depths_suffice:
  assumes "write_ok s" and "sized_for cfg s" and "\<not> writes_pending s"
  shows "length (sq (conn s)) \<le> fst (qp_sizing cfg) \<and> length (rq (conn s)) \<le> snd (qp_sizing cfg)
    \<and> length (cq_ids (cq (conn s))) \<le> cq_depth cfg"
  using queues_fit [OF assms] by simp

theorem queue_depths_suffice_witness: "length (rq (conn ex_stream)) \<le> snd (qp_sizing ex_sizes)"
  using queue_depths_suffice [OF ex_write_ok ex_sized] by (simp add: writes_pending_def)

text \<open>
  C39. With one-sided writes outstanding they are not: the data lane does not count the send-queue
  entries the writes hold. An endpoint right after its set-up, with three send slots and a send
  queue of five, takes three writes and two messages; the queue is full, and the endpoint would
  still admit a message. When the device refuses it, the connection is closed.
\<close>

theorem send_queue_overruns:
  "\<exists>s t u. config_ok ex_deep \<and> fresh_conn ex_fresh \<and> from_accepted 0 0 ex_fresh ex_deep = Inr s
     \<and> and_then (ex_three_writes s) (\<lambda>_. try_write [1, 2, 3, 4, 5, 6, 7, 8, 9, 10, 11, 12, 13, 14, 15, 16]) = (Inr 16, t)
     \<and> length (sq (conn t)) = fst (qp_sizing ex_deep) \<and> can_send_data t
     \<and> try_write [1, 2, 3, 4, 5, 6, 7, 8] (t\<lparr>conn := (conn t)\<lparr>post_faults := [True]\<rparr>\<rparr>) = (Inl (io_err ErrOther), u)
     \<and> peer_closed u"
proof (rule ex_deep_full)
  fix s t u
  assume "from_accepted 0 0 ex_fresh ex_deep = Inr s"
    "and_then (ex_three_writes s) (\<lambda>_. try_write [1, 2, 3, 4, 5, 6, 7, 8, 9, 10, 11, 12, 13, 14, 15, 16]) = (Inr 16, t)"
    "length (sq (conn t)) = 5" "can_send_data t"
    "try_write [1, 2, 3, 4, 5, 6, 7, 8] (t\<lparr>conn := (conn t)\<lparr>post_faults := [True]\<rparr>\<rparr>) = (Inl (io_err ErrOther), u)"
    "peer_closed u"
  moreover have "fst (qp_sizing ex_deep) = 5"
    by (simp add: qp_sizing_def ex_deep_def ex_config_def CTRL_SEND_SLOTS_def HS_SEND_SLOTS_def)
  ultimately show ?thesis using ex_deep_ok ex_fresh_ok by metis
qed

text \<open>
  C40. The write future can resolve to an error with writes still in flight: an error of the drive
  loop ends it early, and the cancel guard is disarmed all the same.
\<close>

theorem write_future_leaves_early:
  "\<exists>a f b. write_ok (a_stream a) \<and> \<not> writes_pending (a_stream a)
     \<and> poll_drive_write (drive_write [ex_seg] 4096 9 None) a = Some (Ready (Inl (io_err InvalidData)), f, b)
     \<and> writes_pending (a_stream b) \<and> \<not> wf_armed f \<and> qp (conn (a_stream b)) \<noteq> None"
proof (rule ex_future_runt)
  fix f b assume b: "poll_drive_write (drive_write [ex_seg] 4096 9 None) (ex_async ex_runt) = Some (Ready (Inl (io_err InvalidData)), f, b)"
    "writes_pending (a_stream b)" "\<not> wf_armed f" "qp (conn (a_stream b)) \<noteq> None"
  have "world_ok ex_runt"
    unfolding ex_runt_def by (rule world_ok_regions [OF ex_world_ok]) (simp_all add: ex_conn_def)
  then have "write_ok ex_runt" by (simp add: world_ok_def)
  moreover have "\<not> writes_pending ex_runt" by (simp add: ex_runt_def writes_pending_def)
  ultimately show ?thesis using b by (metis ex_async_fields(1))
qed

end
