(* ===== verification/Http_Text.thy ===== *)
theory Http_Text
  imports Http_Demo
begin

text \<open>
  A message head as its lines: printing the lines of a head and parsing it back, and where a
  reader finds its end. \<open>text_bytes\<close> is \<open>str::as_bytes\<close> on ASCII text. \<open>Head::parse\<close> reads the text
  \<open>String::from_utf8_lossy\<close> makes of the head; what the programs rely on is that ASCII bytes
  stand for themselves.
\<close>

section \<open>Text and bytes\<close>

definition text_bytes :: "string \<Rightarrow> bytes" where
  "text_bytes s = map of_char s"

definition CRLF :: string where "CRLF = [CHR 0x0D, CHR 0x0A]"

definition ascii :: "string \<Rightarrow> bool" where
  "ascii s \<longleftrightarrow> list_all (\<lambda>c. of_char c < (128 :: nat)) s"

definition decodes_ascii :: "(bytes \<Rightarrow> string) \<Rightarrow> bool" where
  "decodes_ascii utf8 \<longleftrightarrow> (\<forall>s. ascii s \<longrightarrow> utf8 (text_bytes s) = s)"

section \<open>Lines\<close>

text \<open>A line of a head: not empty, no carriage return.\<close>

definition head_line :: "string \<Rightarrow> bool" where
  "head_line l \<longleftrightarrow> l \<noteq> [] \<and> CHR 0x0D \<notin> set l"

fun head_text :: "string list \<Rightarrow> string" where
  "head_text [] = CRLF"
| "head_text (l # ls) = l @ CRLF @ head_text ls"

lemma split_crlf_line: "CHR 0x0D \<notin> set l \<Longrightarrow> split_crlf (l @ CRLF @ rest) = l # split_crlf rest"
proof (induction l rule: split_crlf.induct)
  case (2 c)
  then show ?case by (cases rest) (simp_all add: CRLF_def)
next
  case (3 c d cs)
  then show ?case by auto
qed (simp add: CRLF_def)

lemma split_crlf_head_text:
  "list_all head_line ls \<Longrightarrow> filter (\<lambda>l. l \<noteq> []) (split_crlf (head_text ls)) = ls"
proof (induction ls)
  case Nil
  show ?case by (simp add: CRLF_def)
next
  case (Cons l ls)
  then show ?case by (simp add: split_crlf_line head_line_def)
qed

lemma head_parse_text:
  assumes "list_all head_line (start # ls)"
  shows "head_parse (head_text (start # ls)) = Inr \<lparr>head_start = splitn3 start,
    head_headers = List.map_filter (\<lambda>l. map_option (\<lambda>(k, v). (trim k, trim v)) (split_once (CHR '':'') l)) ls\<rparr>"
  unfolding head_parse_def split_crlf_head_text [OF assms] by simp

text \<open>A header line \<open>Name: value\<close>.\<close>

definition header_line :: "string \<times> string \<Rightarrow> string" where
  "header_line kh = fst kh @ '': '' @ snd kh"

definition token :: "string \<Rightarrow> bool" where
  "token k \<longleftrightarrow> k \<noteq> [] \<and> CHR '':'' \<notin> set k \<and> list_all (\<lambda>c. \<not> is_whitespace c) k"

definition field_value :: "string \<Rightarrow> bool" where
  "field_value v \<longleftrightarrow> trim v = v \<and> CHR 0x0D \<notin> set v"

definition header_ok :: "string \<times> string \<Rightarrow> bool" where
  "header_ok kh \<longleftrightarrow> token (fst kh) \<and> field_value (snd kh)"

lemma trim_space: "trim (CHR '' '' # v) = trim v"
  by (simp add: trim_def is_whitespace_def)

lemma header_line_parse:
  assumes "header_ok kh"
  shows "map_option (\<lambda>(k, v). (trim k, trim v)) (split_once (CHR '':'') (header_line kh)) = Some kh"
proof -
  have "trim (fst kh) = fst kh"
    using assms by (auto simp: header_ok_def token_def list_all_iff intro!: trim_plain)
  moreover have "split_once (CHR '':'') (fst kh @ CHR '':'' # CHR '' '' # snd kh) = Some (fst kh, CHR '' '' # snd kh)"
    using assms by (intro split_once_append) (simp add: header_ok_def token_def)
  ultimately show ?thesis
    using assms by (cases kh) (simp add: header_line_def trim_space header_ok_def field_value_def)
qed

lemma header_line_ok: "header_ok kh \<Longrightarrow> head_line (header_line kh)"
  by (auto simp: header_ok_def token_def field_value_def head_line_def header_line_def list_all_iff is_whitespace_def)

text \<open>What is printed as a start line and headers is parsed back as that.\<close>

lemma head_round_trip:
  assumes "head_line start" and "list_all header_ok hs"
  shows "head_parse (head_text (start # map header_line hs)) = Inr \<lparr>head_start = splitn3 start, head_headers = hs\<rparr>"
proof -
  have "list_all head_line (start # map header_line hs)"
    using assms header_line_ok by (auto simp: list_all_iff)
  moreover have "List.map_filter (\<lambda>l. map_option (\<lambda>(k, v). (trim k, trim v)) (split_once (CHR '':'') l)) (map header_line hs) = hs"
    using assms(2) by (induction hs) (simp_all add: List.map_filter_simps header_line_parse)
  ultimately show ?thesis by (simp only: head_parse_text)
qed

section \<open>Where a reader finds the end\<close>

lemma unat_of_char [simp]: "unat (of_char c :: u8) = of_char c"
proof -
  have "(of_char c :: u8) = of_nat (of_char c)" by (simp add: of_nat_of_char)
  moreover have "of_char c < (256 :: nat)" by simp
  ultimately show ?thesis by (simp add: unat_of_nat take_bit_nat_eq_self_iff)
qed

lemma unat_thirteen: "unat (13 :: u8) = 13" by simp

lemma of_char_cr: "(of_char c :: u8) = 13 \<longleftrightarrow> c = CHR 0x0D"
proof
  assume "(of_char c :: u8) = 13"
  then have "of_char c = (13 :: nat)" by (metis unat_of_char unat_thirteen)
  then have "of_char c = (of_char (CHR 0x0D) :: nat)" by simp
  then show "c = CHR 0x0D" by (simp only: of_char_eq_iff)
qed simp

lemma find_from_skip: "b \<noteq> 13 \<Longrightarrow> find_from i (b # bs) = find_from (i + 1) bs"
  by (cases "length bs < 4") (auto simp: CRLF2_def find_from.simps [of i "b # bs"] find_from.simps [of "Suc i" bs])

lemma find_from_skip_text:
  "CHR 0x0D \<notin> set l \<Longrightarrow> find_from i (text_bytes l @ bs) = find_from (i + length l) bs"
  by (induction l arbitrary: i) (auto simp: text_bytes_def find_from_skip of_char_cr)

lemma find_from_crlf: "b \<noteq> 13 \<Longrightarrow> find_from i (13 # 10 # b # bs) = find_from (i + 2) (b # bs)"
proof -
  assume "b \<noteq> 13"
  then have "find_from i (13 # 10 # b # bs) = find_from (i + 1) (10 # b # bs)"
    by (subst find_from.simps) (cases bs; auto simp: CRLF2_def find_from.simps [of "Suc i" "[10, b]"])
  then show ?thesis by (simp add: find_from_skip)
qed

lemma find_from_head_text:
  "ls \<noteq> [] \<Longrightarrow> list_all head_line ls \<Longrightarrow>
     find_from i (text_bytes (head_text ls) @ rest) = Some (i + length (head_text ls) - 4)"
proof (induction ls arbitrary: i)
  case (Cons l ls)
  have skip: "find_from i (text_bytes (head_text (l # ls)) @ rest)
      = find_from (i + length l) (13 # 10 # text_bytes (head_text ls) @ rest)"
    using Cons.prems find_from_skip_text [of l i] by (simp add: head_line_def text_bytes_def CRLF_def)
  show ?case
  proof (cases ls)
    case Nil
    then show ?thesis
      using skip by (simp add: text_bytes_def CRLF_def find_from.simps CRLF2_def)
  next
    case (Cons l' ls')
    then have "head_line l'" using Cons.prems by simp
    then obtain c cs where l': "l' = c # cs" "c \<noteq> CHR 0x0D" by (cases l') (auto simp: head_line_def)
    have "text_bytes (head_text ls) @ rest = of_char c # text_bytes (cs @ CRLF @ head_text ls') @ rest"
      by (simp add: Cons l' text_bytes_def)
    moreover have "(of_char c :: u8) \<noteq> 13" using l'(2) by (simp add: of_char_cr)
    from find_from_crlf [OF this] calculation have "find_from (i + length l) (13 # 10 # text_bytes (head_text ls) @ rest)
        = find_from (i + length l + 2) (text_bytes (head_text ls) @ rest)"
      by (simp only:)
    with skip Cons.IH [of "i + length l + 2"] Cons.prems Cons show ?thesis by (simp add: CRLF_def)
  qed
qed simp

lemma find_head_end:
  assumes "ls \<noteq> []" and "list_all head_line ls"
  shows "find_double_crlf (text_bytes (head_text ls) @ rest) = Some (length (head_text ls) - 4)"
  using find_from_head_text [OF assms, of 0] by (simp add: find_double_crlf_def)

lemma length_text_bytes [simp]: "length (text_bytes s) = length s"
  by (simp add: text_bytes_def)

lemma text_bytes_append: "text_bytes (s @ t) = text_bytes s @ text_bytes t"
  by (simp add: text_bytes_def)

lemma length_head_text: "ls \<noteq> [] \<Longrightarrow> list_all head_line ls \<Longrightarrow> 4 \<le> length (head_text ls)"
  by (cases ls; cases "tl ls") (auto simp: CRLF_def head_line_def)

text \<open>An earlier blank line stays the first one, whatever follows.\<close>

lemma find_from_extend: "find_from i buf = Some k \<Longrightarrow> find_from i (buf @ ext) = Some k"
proof (induction i buf rule: find_from.induct)
  case (1 i buf)
  have len: "\<not> length buf < 4" using 1(2) by (auto simp: find_from.simps [of i buf])
  show ?case
  proof (cases "take 4 buf = CRLF2")
    case True
    then have "i = k" using 1(2) len by (simp add: find_from.simps [of i buf])
    then show ?thesis using True len by (simp add: find_from.simps [of k "buf @ ext"])
  next
    case False
    then have "find_from (i + 1) (tl buf) = Some k" using 1(2) len by (simp add: find_from.simps [of i buf])
    from 1(1) [OF len False this] have "find_from (i + 1) (tl (buf @ ext)) = Some k"
      using len by (cases buf) auto
    then show ?thesis using len False by (simp add: find_from.simps [of i "buf @ ext"])
  qed
qed

lemma find_none_shorter:
  assumes "find_double_crlf buf = None" and "ls \<noteq> []" "list_all head_line ls"
    and "buf @ more_bytes = text_bytes (head_text ls) @ body"
  shows "length buf < length (head_text ls)"
proof (rule ccontr)
  assume "\<not> length buf < length (head_text ls)"
  with assms(4) obtain rest where "buf = text_bytes (head_text ls) @ rest"
    by (metis append_eq_append_conv_if append_take_drop_id length_text_bytes linorder_not_less)
  with find_head_end [OF assms(2,3), of rest] assms(1) show False by simp
qed

lemma find_some_exact:
  assumes "find_double_crlf buf = Some idx" and "ls \<noteq> []" "list_all head_line ls"
    and "buf @ more_bytes = text_bytes (head_text ls) @ body"
  shows "take (idx + 4) buf = text_bytes (head_text ls)" "drop (idx + 4) buf @ more_bytes = body"
proof -
  have "find_double_crlf (buf @ more_bytes) = Some idx"
    using assms(1) find_from_extend by (simp only: find_double_crlf_def)
  then have "idx + 4 = length (text_bytes (head_text ls))"
    using assms(4) find_head_end [OF assms(2,3)] length_head_text [OF assms(2,3)] by simp
  moreover have "idx + 4 \<le> length buf" by (rule find_double_crlf_spec(1) [OF assms(1)])
  ultimately have eq: "take (length (text_bytes (head_text ls))) (buf @ more_bytes) = take (idx + 4) buf"
    "drop (length (text_bytes (head_text ls))) (buf @ more_bytes) = drop (idx + 4) buf @ more_bytes" by simp_all
  then show "take (idx + 4) buf = text_bytes (head_text ls)" "drop (idx + 4) buf @ more_bytes = body"
    using assms(4) by simp_all
qed

section \<open>Reading what has arrived\<close>

text \<open>
  A source that does not wait or fail while it has something and is in good order: a read returns
  the next bytes of what is there. A message that has arrived is then read without waiting, and
  read as it was sent.
\<close>

locale buffered_source = byte_source +
  fixes good :: "'a \<Rightarrow> bool"
  assumes rd_buffered: "inv s \<Longrightarrow> good s \<Longrightarrow> content s \<noteq> [] \<Longrightarrow> 0 < n \<Longrightarrow>
    \<exists>bs s'. rd n s = Some (Inr bs, s') \<and> bs \<noteq> [] \<and> content s = bs @ content s' \<and> good s'"
begin

lemma read_head_buffered:
  assumes "ls \<noteq> []" "list_all head_line ls" "length (head_text ls) \<le> MAX_HEAD_BYTES"
  shows "inv s \<Longrightarrow> good s \<Longrightarrow> buf @ content s = text_bytes (head_text ls) @ body \<Longrightarrow>
    \<exists>rest s'. read_head_loop rd buf s = Some (Inr (text_bytes (head_text ls), rest), s')
      \<and> inv s' \<and> good s' \<and> rest @ content s' = body"
proof (induction "Suc MAX_HEAD_BYTES - length buf" arbitrary: buf s rule: less_induct)
  case less
  show ?case
  proof (cases "find_double_crlf buf")
    case (Some idx)
    then show ?thesis
      using find_some_exact [OF Some assms(1,2) less.prems(3)] less.prems(1,2)
      by (simp add: read_head_loop.simps [of rd buf s])
  next
    case None
    have short: "length buf < length (head_text ls)" by (rule find_none_shorter [OF None assms(1,2) less.prems(3)])
    moreover have "length (buf @ content s) = length (head_text ls) + length body" using less.prems(3) by simp
    ultimately have ne: "content s \<noteq> []" by auto
    then obtain got s1 where r: "rd 1024 s = Some (Inr got, s1)" "got \<noteq> []" "content s = got @ content s1" "good s1"
      using rd_buffered [OF less.prems(1,2) ne, of 1024] by auto
    have small: "length buf \<le> MAX_HEAD_BYTES" using short assms(3) by simp
    then have lt: "Suc MAX_HEAD_BYTES - length (buf @ got) < Suc MAX_HEAD_BYTES - length buf"
      using r(2) by (cases got) auto
    have "inv s1" using rd_inv [OF less.prems(1) r(1)] by simp
    moreover have "(buf @ got) @ content s1 = text_bytes (head_text ls) @ body" using less.prems(3) r(3) by simp
    ultimately show ?thesis
      using less.hyps [OF lt] None small r by (simp add: read_head_loop.simps [of rd buf s])
  qed
qed

lemma read_body_buffered:
  "inv s \<Longrightarrow> good s \<Longrightarrow> acc @ content s = body \<Longrightarrow> \<exists>s'. read_body rd acc (length body) s = Some (Inr body, s')"
proof (induction "length body - length acc" arbitrary: acc s rule: less_induct)
  case less
  show ?case
  proof (cases "length acc < length body")
    case False
    then have "acc = body" using less.prems(3) by auto
    then show ?thesis by (simp add: read_body.simps [of rd body "length body" s])
  next
    case True
    let ?n = "min (length body - length acc) (2 ^ 20)"
    have ne: "content s \<noteq> []" using True less.prems(3) by auto
    then obtain got s1 where r: "rd ?n s = Some (Inr got, s1)" "got \<noteq> []" "content s = got @ content s1" "good s1"
      using rd_buffered [OF less.prems(1,2) ne, of ?n] True by auto
    then have lt: "length body - length (acc @ got) < length body - length acc" using True by (cases got) auto
    have "inv s1" using rd_inv [OF less.prems(1) r(1)] by simp
    moreover have "(acc @ got) @ content s1 = body" using less.prems(3) r(3) by simp
    ultimately show ?thesis
      using less.hyps [OF lt] True r by (simp add: read_body.simps [of rd acc "length body" s])
  qed
qed

end

text \<open>A device that takes what is posted: there is a queue pair, and no post will be refused.\<close>

definition posts_work :: "connection \<Rightarrow> bool" where
  "posts_work c \<longleftrightarrow> qp c \<noteq> None \<and> True \<notin> set (post_faults c)"

text \<open>An operation that then fails in no other way than by a panic.\<close>

definition sound_post :: "'a res \<times> hord_stream \<Rightarrow> bool" where
  "sound_post y \<longleftrightarrow> posts_work (conn (snd y)) \<and> (\<forall>e. fst y = Inl e \<longrightarrow> e = Panic)"

lemma sound_post_then:
  assumes "sound_post r" and "\<And>a. fst r = Inr a \<Longrightarrow> sound_post (f a (snd r))"
  shows "sound_post (and_then r f)"
  using assms by (auto simp: sound_post_def fst_and_then snd_and_then split: sum.splits)

lemma post_recv_slot_sound: "posts_work (conn s) \<Longrightarrow> sound_post (post_recv_slot slot s)"
  by (auto simp: sound_post_def post_recv_slot_def recv_slot_def post_recv_def with_qp_def on_conn_eq posts_work_def
       guard_post_def next_fault_def split: sum.splits option.splits prod.splits list.splits)

lemma post_into_sound: "posts_work (conn s) \<Longrightarrow> sound_post (post_into slot i e payload s)"
  by (auto simp: sound_post_def post_into_def copy_in_def post_send_def with_qp_def on_conn_eq posts_work_def Let_def
       guard_post_def next_fault_def split: sum.splits option.splits prod.splits list.splits)

lemma credit_return_sound: "posts_work (conn s) \<Longrightarrow> sound_post (maybe_return_credits k s)"
proof -
  assume w: "posts_work (conn s)"
  obtain r t where p: "post_into (ctrl_slot s) (ctrl_send_wr_id (ctrl_slot s))
      \<lparr>env_length = 0, env_credits = of_nat (min (grant_pending s) 65535), env_flags = CREDIT_ONLY\<rparr> [] s = (r, t)"
    by fastforce
  have "posts_work (conn t)" "r = Inl e \<Longrightarrow> e = Panic" for e
    using post_into_sound [OF w, of "ctrl_slot s" "ctrl_send_wr_id (ctrl_slot s)"
      "\<lparr>env_length = 0, env_credits = of_nat (min (grant_pending s) 65535), env_flags = CREDIT_ONLY\<rparr>" "[]"] p
    by (simp_all add: sound_post_def)
  then show ?thesis
    using w p by (auto simp: maybe_return_credits_def send_credit_return_def Let_def sound_post_def
        split: sum.splits fault.splits)
qed

lemma try_read_loop_sound: "posts_work (conn s) \<Longrightarrow> sound_post (try_read_loop n acc s)"
proof (induction n acc s rule: try_read_loop.induct)
  case (1 n acc s)
  show ?case
  proof (cases "length acc < n \<and> rx_ready s \<noteq> []")
    case True
    then obtain m ms where rx: "length acc < n" "rx_ready s = m # ms" by (auto simp: neq_Nil_conv)
    define tk where "tk = min (rm_end m - rm_start m) (n - length acc)"
    define p where "p = post_recv_slot (rm_slot m) (s\<lparr>rx_ready := ms\<rparr>)"
    have p: "sound_post p" using post_recv_slot_sound 1(3) by (simp add: p_def)
    have IH1: "sound_post (try_read_loop n (acc @ bs)
        ((snd p)\<lparr>grant_pending := wrap_add32 (grant_pending (snd p)) 1\<rparr>))"
      if "\<not> rm_end m < rm_start m" "recv_slot s (rm_slot m) = Inr bo"
        "copy_out (fst bo) (rm_start m) tk (smem s) = Inr bs" "rm_start m + tk = rm_end m" "fst p = Inr u"
      for bo bs u
      using 1(1) [OF rx that(1) tk_def that(2,3,4) p_def that(5)] p by (simp add: sound_post_def)
    have IH2: "sound_post (try_read_loop n (acc @ bs)
        (s\<lparr>rx_ready := m\<lparr>rm_start := rm_start m + tk\<rparr> # ms\<rparr>))"
      if "\<not> rm_end m < rm_start m" "recv_slot s (rm_slot m) = Inr bo"
        "copy_out (fst bo) (rm_start m) tk (smem s) = Inr bs" "rm_start m + tk \<noteq> rm_end m" for bo bs
      using 1(2) [OF rx that(1) tk_def that(2,3,4)] 1(3) by simp
    have panics: "recv_slot s (rm_slot m) = Inl e \<Longrightarrow> e = Panic" "copy_out b x y z = Inl e \<Longrightarrow> e = Panic" for e b x y z
      by (auto simp: recv_slot_def copy_out_def split: if_splits option.splits)
    have here: "sound_post (Inl Panic, s)" using 1(3) by (simp add: sound_post_def)
    show ?thesis
      by (subst try_read_loop.simps)
         (auto simp: rx Let_def tk_def [symmetric] p_def [symmetric] IH1 IH2 here
           simp del: One_nat_def dest!: panics split: sum.split, use p in \<open>auto simp: sound_post_def\<close>)
  next
    case False
    then show ?thesis using 1(3) by (auto simp: try_read_loop.simps [of n acc s] sound_post_def)
  qed
qed

lemma try_read_sound:
  assumes "posts_work (conn s)"
  shows "sound_post (try_read n s)"
  unfolding try_read_def using assms try_read_loop_sound [OF assms, of n "[]"] credit_return_sound
  by (auto simp: sound_post_def [of "(Inr _, _)"] sound_post_def [of "(Inl _, _)"] intro!: sound_post_then)
     (auto simp: sound_post_def)

lemma hord_read_buffered:
  assumes q: "queue_ok s" and w: "posts_work (conn s)" and ne: "rx_bytes s \<noteq> []" and n: "0 < n"
  shows "\<exists>bs s'. hord_read n s = Some (Inr bs, s') \<and> bs \<noteq> [] \<and> rx_bytes s = bs @ rx_bytes s' \<and> posts_work (conn s')"
proof -
  have rx: "rx_ready s \<noteq> []" using ne by (auto simp: rx_bytes_def)
  obtain r t where t: "try_read n s = (r, t)" by fastforce
  have "r \<noteq> Inr None"
  proof
    assume "r = Inr None"
    then have "and_then (try_read_loop n [] s) (\<lambda>bs s. and_then
        (maybe_return_credits (proactive_threshold s) s) (\<lambda>_ s. (Inr (Some bs), s))) = (Inr None, t)"
      using t rx n by (simp add: try_read_def)
    then show False by (auto elim!: and_then_InrD)
  qed
  moreover have "r \<noteq> Inl e" for e
    using try_read_sound [OF w, of n] queue.try_read_safe [OF q, of n] t
    by (auto simp: sound_post_def)
  ultimately obtain bs where r: "r = Inr (Some bs)" by (metis not_None_eq sum.exhaust)
  have bs: "rx_bytes s = bs @ rx_bytes t" "length bs = min n (length (rx_bytes s))"
    using try_read_refines [of s n bs t] q t r n by (simp_all add: queue_ok_def)
  have "hord_read n s = Some (Inr bs, t)" using t r by (simp add: hord_read.simps [of n s])
  moreover have "bs \<noteq> []" using bs(2) n ne by (auto simp: min_def split: if_splits)
  moreover have "posts_work (conn t)" using try_read_sound [OF w, of n] t by (simp add: sound_post_def)
  ultimately show ?thesis using bs(1) by blast
qed

interpretation hbuf: buffered_source hord_read rx_bytes queue_ok "\<lambda>s. posts_work (conn s)"
  by unfold_locales (rule hord_read_buffered)

end
