(* ===== verification/Demo_Server.thy ===== *)
theory Demo_Server
  imports Serving Http_Text Listener
begin

text \<open>
  The demo server \<open>hord-demo/src/bin/server.rs\<close>: one request per connection, routed on method and
  path, answered on the stream or by a one-sided write into the client's buffer. Every response
  keeps the endpoint and the source pool intact, and its head reads back as it was meant.
  \<open>utf8\<close> is the text \<open>String::from_utf8_lossy\<close> makes of the head.
\<close>

section \<open>Constants and arguments\<close>

definition MAX_BODY :: nat where "MAX_BODY = 2 ^ 30"
definition SOURCE_POOL_CAP :: nat where "SOURCE_POOL_CAP = 4"
definition SOURCE_POOL_BUF_SIZE :: nat where "SOURCE_POOL_BUF_SIZE = 4 * 2 ^ 20"

definition parse_u16 :: "string \<Rightarrow> nat option" where
  "parse_u16 s = from_str_radix 10 65535 s"

text \<open>The argument loop of \<open>main\<close>: \<open>Inl\<close> ends the program with success or failure.\<close>

fun server_args :: "string list \<Rightarrow> string \<times> nat \<Rightarrow> bool + string \<times> nat" where
  "server_args [] (bind, port) = Inr (bind, port)"
| "server_args (arg # args) (bind, port) =
     (if arg = ''--bind''
      then (case args of [] \<Rightarrow> Inr (bind, port) | v # rest \<Rightarrow> server_args rest (v, port))
      else if arg = ''--port''
      then (case args of
              [] \<Rightarrow> Inr (bind, port)
            | v # rest \<Rightarrow> server_args rest (bind, case parse_u16 v of Some p \<Rightarrow> p | None \<Rightarrow> port))
      else if arg = ''-h'' \<or> arg = ''--help'' then Inl True
      else Inl False)"

section \<open>Writing a response\<close>

text \<open>\<open>Write::write_all\<close>: the stream's \<open>write\<close> until everything is taken.\<close>

partial_function (option) write_all :: "bytes \<Rightarrow> hord_stream \<Rightarrow> (unit res \<times> hord_stream) option" where
  "write_all buf s =
     (if buf = [] then Some (Inr (), s)
      else then_loop (hord_write buf s) (\<lambda>n s.
             if n = 0 then Some (Inl (io_err WriteZero), s) else write_all (drop n buf) s))"

declare write_all.simps [code]

definition http_head :: "string \<Rightarrow> (string \<times> string) list \<Rightarrow> string" where
  "http_head start hs = head_text (start # map header_line hs)"

definition status_line :: "nat \<Rightarrow> string \<Rightarrow> string" where
  "status_line status reason = ''HTTP/1.1 '' @ show_radix 10 status @ '' '' @ reason"

definition respond_headers ::
  "nat \<Rightarrow> string \<Rightarrow> rdma_write_status option \<Rightarrow> string option \<Rightarrow> (string \<times> string) list" where
  "respond_headers len content_type zc cr =
     [(''Content-Type'', content_type), (''Content-Length'', show_radix 10 len), (''Connection'', ''close'')]
     @ (case cr of None \<Rightarrow> [] | Some v \<Rightarrow> [(''Content-Range'', v)])
     @ (case zc of None \<Rightarrow> [] | Some st \<Rightarrow> [(HEADER, status_header_value st)])"

definition respond ::
  "nat \<Rightarrow> string \<Rightarrow> bytes \<Rightarrow> string \<Rightarrow> rdma_write_status option \<Rightarrow> string option \<Rightarrow> hord_stream
     \<Rightarrow> (unit res \<times> hord_stream) option" where
  "respond status reason body content_type zc cr s =
     then_loop (write_all (text_bytes (http_head (status_line status reason)
         (respond_headers (length body) content_type zc cr))) s) (\<lambda>_ s.
     then_loop (write_all body s) (\<lambda>_ s. hord_flush s))"

definition unsatisfiable_headers :: "nat \<Rightarrow> (string \<times> string) list" where
  "unsatisfiable_headers whole =
     [(''Content-Type'', ''application/octet-stream''), (''Content-Length'', ''0''),
      (''Content-Range'', content_range_unsatisfied whole), (''Connection'', ''close'')]"

definition respond_unsatisfiable :: "nat \<Rightarrow> hord_stream \<Rightarrow> (unit res \<times> hord_stream) option" where
  "respond_unsatisfiable whole s =
     then_loop (write_all (text_bytes (http_head (status_line 416 ''Range Not Satisfiable'')
         (unsatisfiable_headers whole))) s) (\<lambda>_ s. hord_flush s)"

definition zero_copy_status :: "bool \<Rightarrow> rdma_write_status \<Rightarrow> (nat \<times> string) res" where
  "zero_copy_status part st =
     (case st of
        Complete _ \<Rightarrow> Inr (if part then (206, ''Partial Content'') else (200, ''OK''))
      | TooLarge _ \<Rightarrow> Inr (413, ''Content Too Large'')
      | Declined \<Rightarrow> Inl Panic)"

definition zero_copy_headers ::
  "nat \<Rightarrow> nat \<Rightarrow> nat \<Rightarrow> bool \<Rightarrow> rdma_write_status \<Rightarrow> (string \<times> string) list" where
  "zero_copy_headers base len whole part st =
     [(''Content-Type'', ''application/octet-stream''), (''Content-Length'', ''0''),
      (HEADER, status_header_value st)]
     @ (if part \<and> (\<exists>n. st = Complete n)
        then [(''Content-Range'', content_range base (base + len - 1) whole)] else [])
     @ [(''Connection'', ''close'')]"

type_synonym served_conn = "source_pool \<times> hord_stream"

definition on_served :: "(hord_stream \<Rightarrow> ('a res \<times> hord_stream) option) \<Rightarrow> served_conn \<Rightarrow> ('a res \<times> served_conn) option" where
  "on_served f ps = map_option (\<lambda>(r, s). (r, fst ps, s)) (f (snd ps))"

definition serve_size_zero_copy ::
  "rdma_write_req \<Rightarrow> nat \<Rightarrow> nat \<Rightarrow> nat \<Rightarrow> bool \<Rightarrow> served_conn \<Rightarrow> (unit res \<times> served_conn) option" where
  "serve_size_zero_copy req base len whole part ps =
     then_loop (serve_rdma_write_pooled req (of_nat len) (\<lambda>buf. pattern_fill_registered_from buf base len) ps)
       (\<lambda>st ps.
          case zero_copy_status part st of
            Inl e \<Rightarrow> Some (Inl e, ps)
          | Inr (code, reason) \<Rightarrow>
              then_loop (on_served (write_all (text_bytes (http_head (status_line code reason)
                  (zero_copy_headers base len whole part st)))) ps) (\<lambda>_. on_served hord_flush))"

section \<open>One request\<close>

abbreviation LF :: string where "LF \<equiv> [CHR 0x0A]"

definition answer_request :: "head \<Rightarrow> served_conn \<Rightarrow> (unit res \<times> served_conn) option" where
  "answer_request h ps =
     (let (meth, path, version) = head_start h;
          zc_req = (if zero_copy_negotiated (snd ps) then Option.bind (head_header h HEADER) parse_req else None);
          declined = (if head_header h HEADER \<noteq> None then Some Declined else None)
      in if meth \<noteq> ''GET''
         then on_served (respond 405 ''Method Not Allowed'' (text_bytes (''only GET is supported'' @ LF))
                ''text/plain'' declined None) ps
         else if path = ''/''
         then on_served (respond 200 ''OK'' (text_bytes (''HORD prototype server. Try GET /size/<bytes>.'' @ LF))
                ''text/plain'' declined None) ps
         else case strip_prefix ''/size/'' path of
           None \<Rightarrow> on_served (respond 404 ''Not Found'' (text_bytes (''not found'' @ LF)) ''text/plain'' declined None) ps
         | Some rest \<Rightarrow>
             (case parse_usize rest of
                None \<Rightarrow> on_served (respond 400 ''Bad Request'' (text_bytes (''bad size'' @ LF)) ''text/plain'' declined None) ps
              | Some n \<Rightarrow>
                  if n \<le> MAX_BODY
                  then (case (case head_header h ''Range'' of Some r \<Rightarrow> parse_range r n | None \<Rightarrow> Full) of
                          Unsatisfiable \<Rightarrow> on_served (respond_unsatisfiable n) ps
                        | Range start fin \<Rightarrow>
                            (let len = fin - start + 1 in
                             case zc_req of
                               Some req \<Rightarrow> serve_size_zero_copy req start len n True ps
                             | None \<Rightarrow> on_served (respond 206 ''Partial Content'' (pattern_fill_from len start)
                                          ''application/octet-stream'' declined (Some (content_range start fin n))) ps)
                        | Full \<Rightarrow>
                            (case zc_req of
                               Some req \<Rightarrow> serve_size_zero_copy req 0 n n False ps
                             | None \<Rightarrow> on_served (respond 200 ''OK'' (pattern_fill n)
                                          ''application/octet-stream'' declined None) ps))
                  else on_served (respond 413 ''Content Too Large'' (text_bytes (''size exceeds server limit'' @ LF))
                         ''text/plain'' declined None) ps))"

definition serve_one :: "(bytes \<Rightarrow> string) \<Rightarrow> served_conn \<Rightarrow> (unit res \<times> served_conn) option" where
  "serve_one utf8 ps =
     then_loop (on_served (read_head hord_read) ps) (\<lambda>(head_bytes, leftover) ps.
       case head_parse (utf8 head_bytes) of
         Inl e \<Rightarrow> Some (Inl e, ps)
       | Inr h \<Rightarrow> answer_request h ps)"

text \<open>
  One turn of the accept loop: a connection is served and its stream dropped, which destroys its
  queue pair; a failed accept or a failed request does not end the loop.
\<close>

definition server_turn ::
  "(bytes \<Rightarrow> string) \<Rightarrow> nat \<Rightarrow> nat \<Rightarrow> listener \<Rightarrow> (hord_stream option \<times> listener) option" where
  "server_turn utf8 budget now l =
     Option.bind (hord_accept budget now l hord_config_default) (\<lambda>(r, l').
       case r of
         Inl e \<Rightarrow> Some (None, l')
       | Inr s \<Rightarrow> map_option (\<lambda>(_, _, s'). (Some (force_teardown s'), l'))
                    (serve_one utf8 (source_pool_new SOURCE_POOL_CAP SOURCE_POOL_BUF_SIZE, s)))"

section \<open>Serving is safe\<close>

lemma on_served_safe:
  assumes "on_served f ps = Some y" and "\<And>z. f (snd ps) = Some z \<Longrightarrow> safe_outcome P z" and "Q (fst ps)"
  shows "safe_outcome (\<lambda>(p, s). Q p \<and> P s) y"
  using assms by (auto simp: on_served_def safe_outcome_def split: prod.splits)

text \<open>The blocking calls keep a connection whose memory is laid out as set up.\<close>

lemma blocking_world:
  assumes "world_ok s"
  shows "hord_read n s = Some r \<Longrightarrow> safe_outcome world_ok r" "hord_write buf s = Some w \<Longrightarrow> safe_outcome world_ok w"
    "hord_flush s = Some f \<Longrightarrow> safe_outcome world_ok f"
proof -
  have s: "write_ok s \<and> fixtures s = fixtures s" using assms by (simp add: world_ok_def)
  have lift: "safe_outcome world_ok y" if "safe_outcome (\<lambda>t. write_ok t \<and> fixtures t = fixtures s) y" for y :: "'x res \<times> hord_stream"
    using that world_ok_frozen [OF assms] by (simp add: safe_outcome_def)
  show "hord_read n s = Some r \<Longrightarrow> safe_outcome world_ok r" "hord_write buf s = Some w \<Longrightarrow> safe_outcome world_ok w"
    "hord_flush s = Some f \<Longrightarrow> safe_outcome world_ok f"
    using frozen.hord_read_safe [of n s r "fixtures s"] frozen.hord_write_safe [of buf s w "fixtures s"]
      frozen.hord_flush_safe [of s f "fixtures s"] s
    by (auto intro: lift)
qed

lemma write_all_world:
  assumes "write_all buf s = Some y" and "world_ok s"
  shows "safe_outcome world_ok y"
proof -
  have "world_ok s \<longrightarrow> safe_outcome world_ok y"
    using assms(1)
  proof (induction buf s y rule: write_all.raw_induct [rotated, consumes 1, case_names 1])
    case (1 write_all buf s y)
    show ?case
    proof
      assume s: "world_ok s"
      show "safe_outcome world_ok y"
      proof (cases "buf = []")
        case True
        then show ?thesis using 1(2) s by (auto simp: safe_outcome_def)
      next
        case False
        then have "then_loop (hord_write buf s) (\<lambda>n s.
             if n = 0 then Some (Inl (io_err WriteZero), s) else write_all (drop n buf) s) = Some y"
          using 1(2) by simp
        then show ?thesis
          by (rule then_loop_safe)
             (use blocking_world(2) [OF s] 1(1) in \<open>auto simp: safe_outcome_def split: if_splits\<close>)
      qed
    qed
  qed
  then show ?thesis using assms(2) by blast
qed

lemma respond_world:
  assumes "respond status reason body content_type zc cr s = Some y" and "world_ok s"
  shows "safe_outcome world_ok y"
  using assms(1) unfolding respond_def
proof (rule then_loop_safe)
  fix u t
  assume run: "then_loop (write_all body t) (\<lambda>_. hord_flush) = Some y" and t: "world_ok t"
  from run show "safe_outcome world_ok y"
    by (rule then_loop_safe) (use t write_all_world blocking_world(3) in blast)+
qed (use write_all_world assms(2) in blast)

lemma respond_unsatisfiable_world:
  assumes "respond_unsatisfiable n s = Some y" and "world_ok s"
  shows "safe_outcome world_ok y"
  using assms(1) unfolding respond_unsatisfiable_def
  by (rule then_loop_safe) (use write_all_world blocking_world(3) assms(2) in blast)+

definition served_ok :: "served_conn \<Rightarrow> bool" where
  "served_ok ps \<longleftrightarrow> pool_idle (fst ps) \<and> world_ok (snd ps)"

lemma on_served_world:
  assumes "on_served f ps = Some y" and "served_ok ps" and "\<And>z. f (snd ps) = Some z \<Longrightarrow> safe_outcome world_ok z"
  shows "safe_outcome served_ok y"
  using assms by (auto simp: on_served_def safe_outcome_def served_ok_def split: prod.splits)

lemma pattern_fills: "fills (\<lambda>buf. pattern_fill_registered_from buf base len) len"
  using fill_registered_loop_spec [of 0 len]
  by (auto simp: fills_def pattern_fill_registered_from_def)

lemma serve_size_zero_copy_world:
  assumes run: "serve_size_zero_copy req base len whole part ps = Some y" and ok: "served_ok ps" and len: "len < 2 ^ 64"
  shows "safe_outcome served_ok y"
proof -
  let ?serve = "serve_rdma_write_pooled req (of_nat len) (\<lambda>buf. pattern_fill_registered_from buf base len) ps"
  have un: "unat (of_nat len :: u64) = len" using len by (simp add: unat_of_nat take_bit_nat_eq_self_iff)
  have sv: "world_ok s' \<and> r \<noteq> Inl Panic \<and> pool_idle p' \<and> (\<forall>st. r = Inr st \<longrightarrow> st \<noteq> Declined)"
    if "?serve = Some (r, p', s')" for r p' s'
  proof -
    have "serve_rdma_write_pooled req (of_nat len) (\<lambda>buf. pattern_fill_registered_from buf base len) (fst ps, snd ps)
        = Some (r, p', s')" using that by simp
    from serve_pooled_world [OF _ _ this] ok pattern_fills [of base len] un
    show ?thesis by (auto simp: served_ok_def served_def split: if_splits)
  qed
  obtain r p' s' where s: "?serve = Some (r, p', s')"
    using run by (cases ?serve) (auto simp: serve_size_zero_copy_def)
  show ?thesis
  proof (cases r)
    case (Inl e)
    then show ?thesis using run s sv [OF s] by (auto simp: serve_size_zero_copy_def safe_outcome_def served_ok_def)
  next
    case (Inr st)
    then obtain code reason where z: "zero_copy_status part st = Inr (code, reason)"
      using sv [OF s] Inr by (cases st; cases part) (auto simp: zero_copy_status_def)
    then have "then_loop (on_served (write_all (text_bytes (http_head (status_line code reason)
                  (zero_copy_headers base len whole part st)))) (p', s')) (\<lambda>_. on_served hord_flush) = Some y"
      using run s Inr by (simp add: serve_size_zero_copy_def)
    moreover have "served_ok (p', s')" using sv [OF s] by (simp add: served_ok_def)
    moreover have "served_ok ps' \<Longrightarrow> on_served (write_all bs) ps' = Some z \<Longrightarrow> safe_outcome served_ok z"
      "served_ok ps' \<Longrightarrow> on_served hord_flush ps' = Some z \<Longrightarrow> safe_outcome served_ok z" for ps' bs z
      using write_all_world blocking_world(3) by (auto simp: served_ok_def intro: on_served_world)
    ultimately show ?thesis by (metis (no_types, lifting) then_loop_safe)
  qed
qed

lemma read_head_safe:
  assumes "read_head rd s = Some y" and "P s" and rd: "\<And>n s r. P s \<Longrightarrow> rd n s = Some r \<Longrightarrow> safe_outcome P r"
  shows "safe_outcome P y"
proof -
  have "P s \<Longrightarrow> read_head_loop rd buf s = Some y \<Longrightarrow> safe_outcome P y" for buf s
  proof (induction "Suc MAX_HEAD_BYTES - length buf" arbitrary: buf s rule: less_induct)
    case less
    show ?case
    proof (cases "find_double_crlf buf = None \<and> length buf \<le> MAX_HEAD_BYTES")
      case False
      then show ?thesis
        using less.prems by (auto simp: read_head_loop.simps [of rd buf s] safe_outcome_def split: option.splits)
    next
      case True
      then obtain r where r: "rd 1024 s = Some r"
        using less.prems(2) by (cases "rd 1024 s") (auto simp: read_head_loop.simps [of rd buf s])
      have sr: "safe_outcome P r" by (rule rd [OF less.prems(1) r])
      show ?thesis
      proof (cases "\<exists>got. fst r = Inr got \<and> got \<noteq> []")
        case False
        then show ?thesis
          using less.prems(2) True r sr
          by (auto simp: read_head_loop.simps [of rd buf s] safe_outcome_def split: sum.splits if_splits)
      next
        case nonempty: True
        then obtain got where got: "fst r = Inr got" "got \<noteq> []" by blast
        then have "read_head_loop rd (buf @ got) (snd r) = Some y"
          using less.prems(2) True r by (simp add: read_head_loop.simps [of rd buf s])
        moreover have "Suc MAX_HEAD_BYTES - length (buf @ got) < Suc MAX_HEAD_BYTES - length buf"
          using got(2) True by (cases got) auto
        ultimately show ?thesis using less.hyps [of "buf @ got" "snd r"] sr by (simp add: safe_outcome_def)
      qed
    qed
  qed
  then show ?thesis using assms(1,2) by (simp add: read_head_def)
qed

lemma answer_request_world:
  assumes run: "answer_request h ps = Some y" and ok: "served_ok ps"
  shows "safe_outcome served_ok y"
proof -
  have resp: "safe_outcome served_ok y" if "on_served (respond a b c d e f) ps = Some y" for a b c d e f
    by (rule on_served_world [OF that ok]) (use respond_world ok in \<open>auto simp: served_ok_def\<close>)
  have unsat: "safe_outcome served_ok y" if "on_served (respond_unsatisfiable n) ps = Some y" for n
    by (rule on_served_world [OF that ok]) (use respond_unsatisfiable_world ok in \<open>auto simp: served_ok_def\<close>)
  have zc: "safe_outcome served_ok y"
    if "serve_size_zero_copy req base len whole part ps = Some y" "len \<le> MAX_BODY" for req base len whole part
    using serve_size_zero_copy_world [OF that(1) ok] that(2) by (simp add: MAX_BODY_def)
  have rng: "Suc (fin - start) \<le> MAX_BODY" if "parse_range v n = Range start fin" "n \<le> MAX_BODY" for v n start fin
    using parse_range_bounds [OF that(1)] that(2) by linarith
  obtain meth path version where h: "head_start h = (meth, path, version)" by (rule prod_cases3)
  show ?thesis
    using run unfolding answer_request_def h Let_def prod.case
    by (auto simp: resp unsat split: if_splits option.splits range_spec.splits intro: resp unsat zc rng)
qed

text \<open>A request, whatever it says: the pool has all its buffers back and nothing panics.\<close>

lemma serve_one_world:
  assumes "serve_one utf8 ps = Some y" and "served_ok ps"
  shows "safe_outcome served_ok y"
  using assms(1) unfolding serve_one_def
proof (rule then_loop_safe)
  show "safe_outcome served_ok z" if "on_served (read_head hord_read) ps = Some z" for z
    by (rule on_served_world [OF that assms(2)])
       (use read_head_safe [of hord_read "snd ps" _ world_ok] blocking_world(1) assms(2) in \<open>auto simp: served_ok_def\<close>)
  show "safe_outcome served_ok y"
    if "(\<lambda>(head_bytes, leftover) ps. case head_parse (utf8 head_bytes) of
         Inl e \<Rightarrow> Some (Inl e, ps) | Inr h \<Rightarrow> answer_request h ps) hb ps' = Some y" "served_ok ps'" for hb ps'
    using that answer_request_world
    by (cases hb) (auto simp: head_parse_def safe_outcome_def split: sum.splits list.splits)
qed

section \<open>What a response says\<close>

lemma plain_field: "v \<noteq> [] \<Longrightarrow> list_all (\<lambda>c. \<not> is_whitespace c) v \<Longrightarrow> field_value v"
  unfolding field_value_def by (auto simp: list_all_iff is_whitespace_def intro!: trim_plain)

lemma show10_field: "field_value (show_radix 10 n)"
  by (rule plain_field) (use show10_plain in \<open>auto simp: list_all_iff\<close>)

lemma status_value_plain: "status_header_value st \<noteq> []" "list_all (\<lambda>c. \<not> is_whitespace c) (status_header_value st)"
proof -
  have "list_all (\<lambda>c. \<not> is_whitespace c) (show_radix 10 n)" for n using show10_plain by (auto simp: list_all_iff)
  then show "status_header_value st \<noteq> []" "list_all (\<lambda>c. \<not> is_whitespace c) (status_header_value st)"
    by (simp_all add: status_header_value_def is_whitespace_def split: rdma_write_status.split)
qed

lemma content_range_field: "field_value (content_range a b n)"
proof -
  have "\<not> is_whitespace (last (show_radix 10 n))"
    using show10_plain [of "last (show_radix 10 n)" n] last_in_set [OF show_radix_nonempty] by blast
  then have "trim (content_range a b n) = content_range a b n"
    unfolding content_range_def
    by (intro trim_id) (simp_all add: is_whitespace_def)
  moreover have "c \<noteq> CHR 0x0D" if "c \<in> set (show_radix 10 k)" for c k
    using show10_plain [OF that] by (auto simp: is_whitespace_def)
  ultimately show ?thesis by (auto simp: field_value_def content_range_def)
qed

lemma tokens: "token ''Content-Type''" "token ''Content-Length''" "token ''Connection''" "token ''Content-Range''"
  "token HEADER" "token ''Host''" "token ''User-Agent''" "token ''Range''"
  by (simp_all add: token_def is_whitespace_def HEADER_def)

lemma splitn3_status: "CHR '' '' \<notin> set v \<Longrightarrow> splitn3 (''HTTP/1.1 '' @ v @ '' '' @ reason) = (''HTTP/1.1'', v, reason)"
  using split_once_append [of "CHR '' ''" "''HTTP/1.1''" "v @ '' '' @ reason"] split_once_append [of "CHR '' ''" v reason]
  by (simp add: splitn3_def)

lemma http_head_parse:
  assumes "CHR 0x0D \<notin> set reason" and "list_all header_ok hs"
  shows "head_parse (http_head (status_line status reason) hs) =
    Inr \<lparr>head_start = (''HTTP/1.1'', show_radix 10 status, reason), head_headers = hs\<rparr>"
proof -
  have no: "c \<notin> set (show_radix 10 k)" if "is_whitespace c" for c k using show10_plain that by blast
  have "head_line (status_line status reason)"
    using assms(1) no [of "CHR 0x0D"] by (simp add: head_line_def status_line_def is_whitespace_def)
  moreover have "splitn3 (status_line status reason) = (''HTTP/1.1'', show_radix 10 status, reason)"
    unfolding status_line_def by (rule splitn3_status) (use no [of "CHR '' ''"] in \<open>simp add: is_whitespace_def\<close>)
  ultimately show ?thesis unfolding http_head_def using head_round_trip [OF _ assms(2)] by simp
qed

lemma respond_headers_ok:
  assumes "field_value ct" and "\<And>v. cr = Some v \<Longrightarrow> field_value v"
  shows "list_all header_ok (respond_headers len ct zc cr)"
  using assms tokens plain_field [OF status_value_plain] show10_field [of len]
  by (auto simp: respond_headers_def header_ok_def split: option.split) (auto simp: field_value_def trim_def is_whitespace_def)

text \<open>What a client finds in the head of a response: the code, the length of the body, the range.\<close>

lemma respond_headers_lookup:
  fixes len ct zc cr start
  defines "h \<equiv> \<lparr>head_start = start, head_headers = respond_headers len ct zc cr\<rparr>"
  assumes "len \<le> u64_max"
  shows "head_content_length h = Some len" "head_header h ''Content-Range'' = cr"
    "head_header h HEADER = map_option status_header_value zc"
  using assms(2)
  by (cases cr; cases zc; simp add: h_def respond_headers_def head_content_length_def head_header_def
      eq_ignore_ascii_case_def ascii_lower_def HEADER_def parse_usize_show)+

text \<open>
  A message on the wire, and what the head of it says to a client that parses it: status, type,
  length of the body, zero-copy status and range.
\<close>

definition send_message :: "string \<Rightarrow> bytes \<Rightarrow> hord_stream \<Rightarrow> (unit res \<times> hord_stream) option" where
  "send_message msg body s =
     then_loop (write_all (text_bytes msg) s) (\<lambda>_ s. then_loop (write_all body s) (\<lambda>_ s. hord_flush s))"

definition says :: "string \<Rightarrow> nat \<Rightarrow> string \<Rightarrow> nat \<Rightarrow> rdma_write_status option \<Rightarrow> string option \<Rightarrow> bool" where
  "says msg status ct len zc cr \<longleftrightarrow>
     (\<exists>h. head_parse msg = Inr h \<and> fst (snd (head_start h)) = show_radix 10 status
        \<and> head_header h ''Content-Type'' = Some ct \<and> head_content_length h = Some len
        \<and> head_header h ''Content-Range'' = cr \<and> head_header h HEADER = map_option status_header_value zc)"

lemma write_all_nothing: "write_all [] s = Some (Inr (), s)"
  by (simp add: write_all.simps)

lemma send_head_only: "send_message msg [] s = then_loop (write_all (text_bytes msg) s) (\<lambda>_. hord_flush)"
  by (simp add: send_message_def write_all_nothing)

lemma respond_sends:
  assumes "CHR 0x0D \<notin> set reason" and "field_value ct" and "\<And>v. cr = Some v \<Longrightarrow> field_value v"
    and "length body \<le> u64_max"
  obtains msg where "says msg status ct (length body) zc cr" "respond status reason body ct zc cr = send_message msg body"
proof (rule that)
  let ?hs = "respond_headers (length body) ct zc cr"
  let ?h = "\<lparr>head_start = (''HTTP/1.1'', show_radix 10 status, reason), head_headers = ?hs\<rparr>"
  have "head_parse (http_head (status_line status reason) ?hs) = Inr ?h"
    by (rule http_head_parse [OF assms(1) respond_headers_ok [OF assms(2,3)]])
  moreover have "head_header ?h ''Content-Type'' = Some ct"
    by (simp add: head_header_def respond_headers_def eq_ignore_ascii_case_def)
  ultimately show "says (http_head (status_line status reason) ?hs) status ct (length body) zc cr"
    using respond_headers_lookup [OF assms(4), of "head_start ?h" ct zc cr] by (simp add: says_def)
  show "respond status reason body ct zc cr = send_message (http_head (status_line status reason) ?hs) body"
    by (rule ext) (simp add: respond_def send_message_def)
qed

lemma zero_text: "show_radix 10 0 = ''0''" by code_simp

lemma octet_field: "field_value ''application/octet-stream''" "field_value ''text/plain''" "field_value ''0''" "field_value ''close''"
  by (rule plain_field; simp add: is_whitespace_def)+

lemma content_range_unsatisfied_field: "field_value (content_range_unsatisfied n)"
proof -
  have "\<not> is_whitespace (last (show_radix 10 n))"
    using show10_plain [of "last (show_radix 10 n)" n] last_in_set [OF show_radix_nonempty] by blast
  then have "trim (content_range_unsatisfied n) = content_range_unsatisfied n"
    unfolding content_range_unsatisfied_def by (intro trim_id) (simp_all add: is_whitespace_def)
  moreover have "c \<noteq> CHR 0x0D" if "c \<in> set (show_radix 10 n)" for c
    using show10_plain [OF that] by (auto simp: is_whitespace_def)
  ultimately show ?thesis by (auto simp: field_value_def content_range_unsatisfied_def)
qed

lemma zero_parsed: "parse_usize ''0'' = Some 0" "trim ''0'' = ''0''"
  using parse_usize_show [of 0] octet_field(3) by (simp_all add: zero_text field_value_def)

lemma unsatisfiable_sends:
  obtains msg where "says msg 416 ''application/octet-stream'' 0 None (Some (content_range_unsatisfied n))"
    "respond_unsatisfiable n = send_message msg []"
proof (rule that)
  let ?msg = "http_head (status_line 416 ''Range Not Satisfiable'') (unsatisfiable_headers n)"
  have "list_all header_ok (unsatisfiable_headers n)"
    using tokens octet_field content_range_unsatisfied_field by (simp add: unsatisfiable_headers_def header_ok_def)
  from http_head_parse [OF _ this, of "''Range Not Satisfiable''" 416]
  show "says ?msg 416 ''application/octet-stream'' 0 None (Some (content_range_unsatisfied n))"
    by (simp add: says_def unsatisfiable_headers_def head_header_def head_content_length_def eq_ignore_ascii_case_def
        ascii_lower_def HEADER_def zero_parsed)
  show "respond_unsatisfiable n = send_message ?msg []"
    by (rule ext) (simp add: respond_unsatisfiable_def send_head_only)
qed

text \<open>The status of the response that goes with the outcome of a write, and the range it names.\<close>

definition zc_code :: "bool \<Rightarrow> rdma_write_status \<Rightarrow> nat" where
  "zc_code part st = (case st of Complete _ \<Rightarrow> if part then 206 else 200 | _ \<Rightarrow> 413)"

definition zc_range :: "nat \<Rightarrow> nat \<Rightarrow> nat \<Rightarrow> bool \<Rightarrow> rdma_write_status \<Rightarrow> string option" where
  "zc_range base len whole part st =
     (if part \<and> (\<exists>n. st = Complete n) then Some (content_range base (base + len - 1) whole) else None)"

lemma zero_copy_sends:
  assumes "st \<noteq> Declined"
  shows "\<exists>msg code reason. zero_copy_status part st = Inr (code, reason)
    \<and> msg = http_head (status_line code reason) (zero_copy_headers base len whole part st)
    \<and> says msg (zc_code part st) ''application/octet-stream'' 0 (Some st) (zc_range base len whole part st)"
proof -
  obtain reason where z: "zero_copy_status part st = Inr (zc_code part st, reason)" "CHR 0x0D \<notin> set reason"
    using assms by (cases st; cases part) (auto simp: zero_copy_status_def zc_code_def)
  have "list_all header_ok (zero_copy_headers base len whole part st)"
    using tokens octet_field content_range_field plain_field [OF status_value_plain]
    by (simp add: zero_copy_headers_def header_ok_def)
  from http_head_parse [OF z(2) this, of "zc_code part st"]
  have "says (http_head (status_line (zc_code part st) reason) (zero_copy_headers base len whole part st))
      (zc_code part st) ''application/octet-stream'' 0 (Some st) (zc_range base len whole part st)"
    by (simp add: says_def zero_copy_headers_def zc_range_def head_header_def head_content_length_def
        eq_ignore_ascii_case_def ascii_lower_def HEADER_def zero_parsed)
  with z(1) show ?thesis by blast
qed

text \<open>A body written into the client's buffer is followed by a head that says how it went.\<close>

lemma serve_size_sends:
  obtains txts where "\<And>st. st \<noteq> Declined \<Longrightarrow>
      says (txts st) (zc_code part st) ''application/octet-stream'' 0 (Some st) (zc_range base len whole part st)"
    "serve_size_zero_copy req base len whole part ps =
       then_loop (serve_rdma_write_pooled req (of_nat len) (\<lambda>buf. pattern_fill_registered_from buf base len) ps)
         (\<lambda>st ps. if st = Declined then Some (Inl Panic, ps) else on_served (send_message (txts st) []) ps)"
proof -
  define txts where "txts st = (case zero_copy_status part st of
      Inr (code, reason) \<Rightarrow> http_head (status_line code reason) (zero_copy_headers base len whole part st) | _ \<Rightarrow> [])" for st
  show thesis
  proof (rule that)
    show "says (txts st) (zc_code part st) ''application/octet-stream'' 0 (Some st) (zc_range base len whole part st)"
      if "st \<noteq> Declined" for st
      using zero_copy_sends [OF that, of part base len whole] by (auto simp: txts_def)
    have joined: "then_loop (on_served (write_all b) ps) (\<lambda>_. on_served hord_flush)
        = on_served (\<lambda>s. then_loop (write_all b s) (\<lambda>_. hord_flush)) ps" for b ps
      by (cases "write_all b (snd ps)"; cases "fst (the (write_all b (snd ps)))")
         (auto simp: on_served_def then_loop_def split: prod.splits sum.splits)
    have "(case zero_copy_status part st of
            Inl e \<Rightarrow> Some (Inl e, ps)
          | Inr (code, reason) \<Rightarrow>
              then_loop (on_served (write_all (text_bytes (http_head (status_line code reason)
                  (zero_copy_headers base len whole part st)))) ps) (\<lambda>_. on_served hord_flush))
        = (if st = Declined then Some (Inl Panic, ps) else on_served (send_message (txts st) []) ps)" for st ps
      by (cases st) (auto simp: zero_copy_status_def txts_def joined send_head_only [abs_def])
    then show "serve_size_zero_copy req base len whole part ps =
       then_loop (serve_rdma_write_pooled req (of_nat len) (\<lambda>buf. pattern_fill_registered_from buf base len) ps)
         (\<lambda>st ps. if st = Declined then Some (Inl Panic, ps) else on_served (send_message (txts st) []) ps)"
      by (simp only: serve_size_zero_copy_def)
  qed
qed

end
