(* ===== verification/Demo_Client.thy ===== *)
theory Demo_Client
  imports Demo_Server
begin

text \<open>
  The demo client \<open>hord-demo/src/bin/client.rs\<close>: one GET over a fresh connection, with an optional
  byte range and an optional destination buffer, and the body taken from the stream or from
  that buffer. What the client prints the server reads, and what the server answers the client
  takes in and verifies.
\<close>

section \<open>The request\<close>

definition DEFAULT_ZC_BUF :: nat where "DEFAULT_ZC_BUF = 2 ^ 20"

definition offer_zero_copy ::
  "bool \<Rightarrow> nat \<Rightarrow> hord_stream \<Rightarrow> zero_copy_request option res \<times> hord_stream" where
  "offer_zero_copy requested capacity s =
     (if \<not> requested \<or> \<not> zero_copy_negotiated s \<or> capacity = 0 then (Inr None, s)
      else and_then (zc_new capacity s) (\<lambda>z s. (Inr (Some z), s)))"

definition request_headers ::
  "string \<Rightarrow> string option \<Rightarrow> zero_copy_request option \<Rightarrow> (string \<times> string) list" where
  "request_headers server rng zc =
     [(''Host'', server), (''User-Agent'', ''hord-client/0.1''), (''Connection'', ''close'')]
     @ (case rng of None \<Rightarrow> [] | Some spec \<Rightarrow> [(''Range'', ''bytes='' @ spec)])
     @ (case zc of None \<Rightarrow> [] | Some z \<Rightarrow> [(HEADER, req_header_value (zc_request z))])"

definition build_request :: "string \<Rightarrow> string \<Rightarrow> string option \<Rightarrow> zero_copy_request option \<Rightarrow> string" where
  "build_request server path rng zc = http_head (''GET '' @ path @ '' HTTP/1.1'') (request_headers server rng zc)"

section \<open>Taking delivery\<close>

datatype delivery_source = ByRdmaWrite | NothingTooLarge | ByStream

record delivery =
  body_len :: nat
  source :: delivery_source
  verified :: bool

definition receive_body ::
  "head \<Rightarrow> bytes \<Rightarrow> zero_copy_request option \<Rightarrow> nat \<Rightarrow> string \<Rightarrow> hord_stream
     \<Rightarrow> (delivery res \<times> hord_stream) option" where
  "receive_body h leftover zc range_base path s =
     (case (zc, Option.bind (head_header h HEADER) parse_status) of
        (Some z, Some (Complete bytes_written)) \<Rightarrow>
          (let n = unat bytes_written in
           if n > zc_capacity z then Some (Inl (io_err InvalidData), s)
           else case verify_zero_copy_at (zc_buf z) range_base n path (smem s) of
                  Inl e \<Rightarrow> Some (Inl e, s)
                | Inr (Inl off) \<Rightarrow> Some (Inl (io_err InvalidData), s)
                | Inr (Inr v) \<Rightarrow> Some (Inr \<lparr>body_len = n, source = ByRdmaWrite, verified = v\<rparr>, s))
      | (Some z, Some (TooLarge object_size)) \<Rightarrow>
          Some (Inr \<lparr>body_len = 0, source = NothingTooLarge, verified = False\<rparr>, s)
      | _ \<Rightarrow>
          (case head_content_length h of
             None \<Rightarrow> Some (Inl (io_err InvalidData), s)
           | Some content_length \<Rightarrow>
               then_loop (read_body hord_read leftover content_length s) (\<lambda>body s.
                 let status = fst (snd (head_start h)) in
                 case verify_stream_body_at body (status = ''200'' \<or> status = ''206'') path range_base of
                   Inl off \<Rightarrow> Some (Inl (io_err InvalidData), s)
                 | Inr v \<Rightarrow> Some (Inr \<lparr>body_len = length body, source = ByStream, verified = v\<rparr>, s))))"

section \<open>The exchange\<close>

datatype client_result = RangeNotSatisfiable "string option" | Delivered delivery

text \<open>The answer: its head, then its body where the head says it is.\<close>

definition read_response ::
  "(bytes \<Rightarrow> string) \<Rightarrow> zero_copy_request option \<Rightarrow> nat \<Rightarrow> string \<Rightarrow> hord_stream
     \<Rightarrow> (client_result res \<times> hord_stream) option" where
  "read_response utf8 zc range_base path s =
     then_loop (read_head hord_read s) (\<lambda>(head_bytes, leftover) s.
       case head_parse (utf8 head_bytes) of
         Inl e \<Rightarrow> Some (Inl e, s)
       | Inr h \<Rightarrow>
           if fst (snd (head_start h)) = ''416''
           then Some (Inr (RangeNotSatisfiable (head_header h ''Content-Range'')), s)
           else then_loop (receive_body h leftover zc range_base path s) (\<lambda>d s. Some (Inr (Delivered d), s)))"

definition run_request ::
  "(bytes \<Rightarrow> string) \<Rightarrow> string \<Rightarrow> string \<Rightarrow> bool \<Rightarrow> nat option \<Rightarrow> string option \<Rightarrow> hord_stream
     \<Rightarrow> (client_result res \<times> hord_stream) option" where
  "run_request utf8 server path want_zc buf_len rng s =
     (let whole = size_from_path path;
          (range_base, range_len) = resolve_range rng whole;
          capacity = (case buf_len of Some n \<Rightarrow> n | None \<Rightarrow>
                        (case range_len of Some n \<Rightarrow> n | None \<Rightarrow>
                           (case whole of Some n \<Rightarrow> n | None \<Rightarrow> DEFAULT_ZC_BUF)))
      in then_loop (Some (offer_zero_copy want_zc capacity s)) (\<lambda>zc s.
         then_loop (write_all (text_bytes (build_request server path rng zc)) s) (\<lambda>_ s.
         then_loop (hord_flush s) (\<lambda>_ s.
         read_response utf8 zc range_base path s))))"

definition client_run ::
  "(bytes \<Rightarrow> string) \<Rightarrow> nat \<Rightarrow> nat \<Rightarrow> bool \<Rightarrow> connection \<Rightarrow> string \<Rightarrow> string \<Rightarrow> bool \<Rightarrow> nat option
     \<Rightarrow> string option \<Rightarrow> client_result res option" where
  "client_run utf8 budget now addr_ok c server path want_zc buf_len rng =
     (case hord_connect budget now addr_ok c hord_config_default of
        Inl e \<Rightarrow> Some (Inl e)
      | Inr s \<Rightarrow> map_option fst (run_request utf8 server path want_zc buf_len rng s))"

section \<open>The server reads what the client prints\<close>

lemma req_value_plain: "req_header_value r \<noteq> []" "list_all (\<lambda>c. \<not> is_whitespace c) (req_header_value r)"
proof -
  have "list_all (\<lambda>c. \<not> is_whitespace c) (show_radix k n)" if "2 \<le> k" "k \<le> 16" for k n
    using show_radix_plain(1) [OF that] by (auto simp: list_all_iff)
  then show "req_header_value r \<noteq> []" "list_all (\<lambda>c. \<not> is_whitespace c) (req_header_value r)"
    by (simp_all add: req_header_value_def is_whitespace_def split: option.split)
qed

text \<open>What a caller passes: a host, a path and a range without blanks at the ends or line breaks.\<close>

definition request_ok :: "string \<Rightarrow> string \<Rightarrow> string option \<Rightarrow> bool" where
  "request_ok server path rng \<longleftrightarrow>
     field_value server \<and> CHR 0x0D \<notin> set path \<and> CHR '' '' \<notin> set path
     \<and> (case rng of None \<Rightarrow> True | Some spec \<Rightarrow> spec \<noteq> [] \<and> field_value (''bytes='' @ spec))"

lemma request_headers_ok:
  assumes "request_ok server path rng"
  shows "list_all header_ok (request_headers server rng zc)"
  using assms tokens plain_field [OF req_value_plain]
  by (auto simp: request_headers_def header_ok_def request_ok_def split: option.splits)
     (auto simp: field_value_def trim_def is_whitespace_def)

lemma request_round_trip:
  assumes ok: "request_ok server path rng"
  shows "head_parse (build_request server path rng zc) =
    Inr \<lparr>head_start = (''GET'', path, ''HTTP/1.1''), head_headers = request_headers server rng zc\<rparr>"
proof -
  have "splitn3 (''GET '' @ path @ '' HTTP/1.1'') = (''GET'', path, ''HTTP/1.1'')"
    using split_once_append [of "CHR '' ''" "''GET''" "path @ '' HTTP/1.1''"]
      split_once_append [of "CHR '' ''" path "''HTTP/1.1''"] ok
    by (simp add: splitn3_def request_ok_def)
  moreover have "head_line (''GET '' @ path @ '' HTTP/1.1'')" using ok by (simp add: head_line_def request_ok_def)
  ultimately show ?thesis
    unfolding build_request_def http_head_def by (metis head_round_trip request_headers_ok [OF ok])
qed

lemma request_headers_lookup:
  fixes server rng zc start
  defines "h \<equiv> \<lparr>head_start = start, head_headers = request_headers server rng zc\<rparr>"
  shows "head_header h ''Range'' = map_option (\<lambda>spec. ''bytes='' @ spec) rng"
    "head_header h HEADER = map_option (\<lambda>z. req_header_value (zc_request z)) zc"
  by (cases rng; cases zc; simp add: h_def request_headers_def head_header_def eq_ignore_ascii_case_def
      ascii_lower_def HEADER_def)+

section \<open>The client is safe\<close>

lemma offer_zero_copy_world:
  assumes "world_ok s"
  shows "safe_outcome world_ok (offer_zero_copy req cap s)"
proof (cases "\<not> req \<or> \<not> zero_copy_negotiated s \<or> cap = 0")
  case True
  then show ?thesis using assms by (simp only: offer_zero_copy_def if_True safe_outcome_simps)
next
  case False
  have w: "world_ok (snd (register_remote_writable n s))" for n
    unfolding register_remote_writable_def by (rule register_world [OF assms])
  have "fst (register_remote_writable n s) \<noteq> Inl Panic" for n
    by (auto simp: register_remote_writable_def on_conn_eq register_buffer_def Let_def split: prod.split)
  moreover have "fst (and_then (zc_new n s) (\<lambda>z s. (Inr (Some z), s))) = map_sum id (\<lambda>b. Some (zc_from_buffer b)) (fst (register_remote_writable n s))"
    "snd (and_then (zc_new n s) (\<lambda>z s. (Inr (Some z), s))) = snd (register_remote_writable n s)" for n
    by (cases "register_remote_writable n s"; cases "fst (register_remote_writable n s)"; simp add: zc_new_def)+
  ultimately show ?thesis
    unfolding offer_zero_copy_def if_not_P [OF False] safe_outcome_def
    using w [of cap] by (cases "fst (register_remote_writable cap s)") auto
qed

lemma read_body_safe:
  assumes "read_body rd body sz s = Some y" and "P s" and rd: "\<And>n s r. P s \<Longrightarrow> rd n s = Some r \<Longrightarrow> safe_outcome P r"
  shows "safe_outcome P y"
  using assms(1,2)
proof (induction "sz - length body" arbitrary: body s rule: less_induct)
  case less
  show ?case
  proof (cases "length body < sz")
    case False
    then show ?thesis using less.prems by (auto simp: read_body.simps [of rd body sz s] safe_outcome_def)
  next
    case True
    then obtain r where r: "rd (min (sz - length body) (2 ^ 20)) s = Some r"
      using less.prems(1) by (cases "rd (min (sz - length body) (2 ^ 20)) s") (auto simp: read_body.simps [of rd body sz s])
    have sr: "safe_outcome P r" by (rule rd [OF less.prems(2) r])
    show ?thesis
    proof (cases "\<exists>got. fst r = Inr got \<and> got \<noteq> []")
      case False
      then show ?thesis
        using less.prems(1) True r sr
        by (auto simp: read_body.simps [of rd body sz s] safe_outcome_def split: sum.splits if_splits)
    next
      case nonempty: True
      then obtain got where got: "fst r = Inr got" "got \<noteq> []" by blast
      then have "read_body rd (body @ got) sz (snd r) = Some y"
        using less.prems(1) True r by (simp add: read_body.simps [of rd body sz s])
      moreover have "sz - length (body @ got) < sz - length body" using got(2) True by (cases got) auto
      ultimately show ?thesis using less.hyps [of "body @ got" "snd r"] sr by (simp add: safe_outcome_def)
    qed
  qed
qed

text \<open>Reading the destination buffer within its length does not panic.\<close>

lemma verify_zc_loop_safe: "n \<le> rb_len buf \<Longrightarrow> verify_zc_loop buf base n off m \<noteq> Inl Panic"
proof (induction buf base n off m rule: verify_zc_loop.induct)
  case (1 buf base n off m)
  show ?case
  proof (cases "off < n")
    case True
    define tk where "tk = min FILL_CHUNK (n - off)"
    have "off + tk \<le> rb_len buf" using True 1(2) by (simp add: tk_def)
    then have "tk \<le> rb_len buf \<and> off \<le> rb_len buf - tk" by linarith
    then obtain bs where co: "copy_out buf off tk m = Inr bs" by (simp add: copy_out_def)
    show ?thesis
      using 1(1) [OF True tk_def co] 1(2) co True
      by (subst verify_zc_loop.simps) (auto simp: Let_def tk_def [symmetric] split: option.split)
  qed (subst verify_zc_loop.simps, simp)
qed

lemma receive_body_world:
  assumes run: "receive_body h leftover zc base path s = Some y" and ok: "world_ok s"
  shows "safe_outcome world_ok y"
proof -
  have vz: "verify_zero_copy_at (zc_buf z) base n path m \<noteq> Inl Panic" if "\<not> n > zc_capacity z" for z n m
    using verify_zc_loop_safe [of n "zc_buf z"] that by (simp add: verify_zero_copy_at_def zc_capacity_def)
  have st: "safe_outcome world_ok y"
    if "then_loop (read_body hord_read leftover n s) (\<lambda>body s.
                 let status = fst (snd (head_start h)) in
                 case verify_stream_body_at body (status = ''200'' \<or> status = ''206'') path base of
                   Inl off \<Rightarrow> Some (Inl (io_err InvalidData), s)
                 | Inr v \<Rightarrow> Some (Inr \<lparr>body_len = length body, source = ByStream, verified = v\<rparr>, s)) = Some y" for n
    using that
    by (rule then_loop_safe)
       (use read_body_safe [of hord_read leftover n s _ world_ok] blocking_world(1) ok
         in \<open>auto simp: safe_outcome_def Let_def split: sum.splits\<close>)
  show ?thesis
    using run ok vz st
    by (auto simp: receive_body_def Let_def safe_outcome_def
        split: option.splits prod.splits rdma_write_status.splits sum.splits if_splits)
qed

lemma read_response_world:
  assumes run: "read_response utf8 zc base path s = Some y" and ok: "world_ok s"
  shows "safe_outcome world_ok y"
  using run unfolding read_response_def
proof (rule then_loop_safe)
  fix hb u
  assume k: "(\<lambda>(head_bytes, leftover) s.
       case head_parse (utf8 head_bytes) of
         Inl e \<Rightarrow> Some (Inl e, s)
       | Inr h \<Rightarrow>
           if fst (snd (head_start h)) = ''416''
           then Some (Inr (RangeNotSatisfiable (head_header h ''Content-Range'')), s)
           else then_loop (receive_body h leftover zc base path s) (\<lambda>d s. Some (Inr (Delivered d), s))) hb u = Some y"
    and u: "world_ok u"
  have rb: "safe_outcome world_ok y"
    if "then_loop (receive_body h leftover zc base path u) (\<lambda>d s. Some (Inr (Delivered d), s)) = Some y" for h leftover
    using that by (rule then_loop_safe) (use receive_body_world u in \<open>auto simp: safe_outcome_def\<close>)
  show "safe_outcome world_ok y"
    using k u rb by (cases hb) (auto simp: head_parse_def split: sum.splits list.splits if_splits)
qed (use read_head_safe [of hord_read s _ world_ok] blocking_world(1) ok in blast)

lemma run_request_world:
  assumes run: "run_request utf8 server path want_zc buf_len rng s = Some y" and ok: "world_ok s"
  shows "safe_outcome world_ok y"
proof -
  have sent: "safe_outcome world_ok y"
    if "then_loop (write_all bs t) (\<lambda>_ s. then_loop (hord_flush s) (\<lambda>_ s. read_response utf8 zc base path s)) = Some y"
      "world_ok t" for bs t zc base
    using that(1)
  proof (rule then_loop_safe)
    fix a u
    assume k: "then_loop (hord_flush u) (\<lambda>_ s. read_response utf8 zc base path s) = Some y" and u: "world_ok u"
    from k show "safe_outcome world_ok y"
      by (rule then_loop_safe) (use blocking_world(3) u read_response_world in blast)+
  qed (use write_all_world that(2) in blast)
  show ?thesis
    using run unfolding run_request_def Let_def case_prod_beta
    by (rule then_loop_safe) (use offer_zero_copy_world [OF ok] sent in auto)
qed

section \<open>The client takes in what the server answers\<close>

lemma status_text: "show_radix 10 200 = ''200''" "show_radix 10 206 = ''206''" "show_radix 10 416 = ''416''"
  by code_simp+

lemma pattern_verified:
  "size_from_path path \<noteq> None \<Longrightarrow> verify_stream_body_at (pattern_fill_from n base) True path base = Inr True"
  using first_mismatch_None [of base "pattern_fill_from n base"] by (simp add: verify_stream_body_at_def)

text \<open>
  A response that has arrived: when the device takes what is posted, it is read without waiting,
  and its body is delivered whole, taken from the stream, and verified.
\<close>

lemma response_delivered:
  fixes status reason ct zc cr len base
  defines "hs \<equiv> respond_headers len ct zc cr"
  defines "txt \<equiv> http_head (status_line status reason) hs"
  assumes utf: "decodes_ascii utf8" "ascii txt"
    and txts: "CHR 0x0D \<notin> set reason" "field_value ct" "\<And>v. cr = Some v \<Longrightarrow> field_value v"
    and small: "length txt \<le> MAX_HEAD_BYTES"
    and st: "status = 200 \<or> status = 206" and len: "len \<le> u64_max" and path: "size_from_path path \<noteq> None"
    and q: "queue_ok s" "posts_work (conn s)"
    and arr: "rx_bytes s = text_bytes txt @ pattern_fill_from len base"
  shows "\<exists>s'. read_response utf8 None base path s
    = Some (Inr (Delivered \<lparr>body_len = len, source = ByStream, verified = True\<rparr>), s')"
proof -
  let ?h = "\<lparr>head_start = (''HTTP/1.1'', show_radix 10 status, reason), head_headers = hs\<rparr>"
  let ?ls = "status_line status reason # map header_line hs"
  have ok: "list_all header_ok hs" unfolding hs_def by (rule respond_headers_ok [OF txts(2,3)])
  note parse = http_head_parse [OF txts(1) ok, of status]
  have lines: "?ls \<noteq> []" "list_all head_line ?ls" "length (head_text ?ls) \<le> MAX_HEAD_BYTES"
    using ok header_line_ok txts(1) show10_field [of status] small
    by (auto simp: list_all_iff head_line_def status_line_def field_value_def txt_def http_head_def)
  obtain rest s1 where r: "read_head hord_read s = Some (Inr (text_bytes txt, rest), s1)"
    and R: "queue_ok s1" "posts_work (conn s1)" "rest @ rx_bytes s1 = pattern_fill_from len base"
    using hbuf.read_head_buffered [OF lines q, of "[]"] arr by (auto simp: read_head_def http_head_def txt_def)
  have p: "head_parse (utf8 (text_bytes txt)) = Inr ?h" using utf parse by (simp add: decodes_ascii_def txt_def)
  have st': "show_radix 10 status \<noteq> ''416''" "show_radix 10 status = ''200'' \<or> show_radix 10 status = ''206''"
    by (rule disjE [OF st]; simp add: status_text)+
  obtain s2 where b: "read_body hord_read rest (length (pattern_fill_from len base)) s1 = Some (Inr (pattern_fill_from len base), s2)"
    using hbuf.read_body_buffered [OF R] by blast
  have cl: "head_content_length ?h = Some len" unfolding hs_def by (rule respond_headers_lookup(1) [OF len])
  have "receive_body ?h rest None base path s1 = Some (Inr \<lparr>body_len = len, source = ByStream, verified = True\<rparr>, s2)"
    using b cl st'(2) pattern_verified [OF path] by (auto simp: receive_body_def)
  then show ?thesis using st'(1) by (simp add: read_response_def r p)
qed

end
