(* ===== verification/Demo_Server_Async.thy ===== *)
theory Demo_Server_Async
  imports Demo_Client Async_Serve
begin

text \<open>
  The async demo server \<open>hord-demo/src/bin/server_async.rs\<close>: the request handler hyper calls, the
  streamed pattern body, and the shutdown loop of a connection. hyper's request is a method, a
  path and a header lookup; \<open>builds\<close> says which heads hyper's response builder accepts. The
  handler follows the same routes as the blocking server, stated once as \<open>route\<close>.
\<close>

section \<open>The streamed body\<close>

definition CHUNK :: nat where "CHUNK = 256 * 1024"

record pattern_body =
  pb_offset :: nat
  pb_end :: nat

definition pattern_body_new :: "nat \<Rightarrow> pattern_body" where
  "pattern_body_new whole = \<lparr>pb_offset = 0, pb_end = whole\<rparr>"

definition pattern_body_range :: "nat \<Rightarrow> nat \<Rightarrow> pattern_body" where
  "pattern_body_range start len = \<lparr>pb_offset = start, pb_end = start + len\<rparr>"

definition poll_frame :: "pattern_body \<Rightarrow> bytes option \<times> pattern_body" where
  "poll_frame b =
     (if pb_offset b \<ge> pb_end b then (None, b)
      else let n = min CHUNK (pb_end b - pb_offset b)
           in (Some (map (\<lambda>i. pattern_byte (pb_offset b + i)) [0..<n]), b\<lparr>pb_offset := pb_offset b + n\<rparr>))"

definition is_end_stream :: "pattern_body \<Rightarrow> bool" where
  "is_end_stream b \<longleftrightarrow> pb_offset b \<ge> pb_end b"

definition size_hint :: "pattern_body \<Rightarrow> nat" where
  "size_hint b = pb_end b - pb_offset b"

text \<open>The frames hyper takes from a body until it ends.\<close>

function frames :: "pattern_body \<Rightarrow> bytes list" where
  "frames b = (case poll_frame b of (None, _) \<Rightarrow> [] | (Some f, b') \<Rightarrow> f # frames b')"
  by pat_completeness auto
termination
  by (relation "measure size_hint")
     (auto simp: size_hint_def poll_frame_def CHUNK_def Let_def split: if_splits)

declare frames.simps [simp del]

datatype demo_body = FullBody bytes | EmptyBody | PatternBody pattern_body

fun body_bytes :: "demo_body \<Rightarrow> bytes" where
  "body_bytes (FullBody bs) = bs"
| "body_bytes EmptyBody = []"
| "body_bytes (PatternBody b) = concat (frames b)"

section \<open>Responses\<close>

record http_request =
  hq_method :: string
  hq_path :: string
  hq_header :: "string \<Rightarrow> string option"

record http_response =
  rs_status :: nat
  rs_headers :: "(string \<times> string) list"
  rs_body :: demo_body

definition response_header :: "http_response \<Rightarrow> string \<Rightarrow> string option" where
  "response_header r name =
     map_option snd (List.find (\<lambda>(k, v). eq_ignore_ascii_case k name) (rs_headers r))"

type_synonym head_check = "nat \<Rightarrow> (string \<times> string) list \<Rightarrow> bool"

text \<open>\<open>Builder::body(..).expect("valid response")\<close>: a head the builder refuses is a panic.\<close>

definition build_response :: "head_check \<Rightarrow> nat \<Rightarrow> (string \<times> string) list \<Rightarrow> demo_body \<Rightarrow> http_response res" where
  "build_response builds status hs body =
     (if builds status hs then Inr \<lparr>rs_status = status, rs_headers = hs, rs_body = body\<rparr> else Inl Panic)"

definition respond_async ::
  "head_check \<Rightarrow> nat \<Rightarrow> string \<Rightarrow> demo_body \<Rightarrow> rdma_write_status option \<Rightarrow> http_response res" where
  "respond_async builds status content_type body zc =
     build_response builds status
       ((''content-type'', content_type)
        # (case zc of None \<Rightarrow> [] | Some st \<Rightarrow> [(HEADER, status_header_value st)])) body"

definition zc_response :: "head_check \<Rightarrow> nat \<Rightarrow> rdma_write_status \<Rightarrow> string option \<Rightarrow> http_response res" where
  "zc_response builds status_code zc cr =
     build_response builds status_code
       ([(''content-type'', ''application/octet-stream''), (HEADER, status_header_value zc)]
        @ (case cr of None \<Rightarrow> [] | Some v \<Rightarrow> [(''content-range'', v)])) EmptyBody"

definition range_response :: "head_check \<Rightarrow> demo_body \<Rightarrow> string \<Rightarrow> rdma_write_status option \<Rightarrow> http_response res" where
  "range_response builds body cr zc =
     build_response builds 206
       ([(''content-type'', ''application/octet-stream''), (''content-range'', cr)]
        @ (case zc of None \<Rightarrow> [] | Some st \<Rightarrow> [(HEADER, status_header_value st)])) body"

definition unsatisfiable_response :: "head_check \<Rightarrow> nat \<Rightarrow> http_response res" where
  "unsatisfiable_response builds whole =
     build_response builds 416
       [(''content-type'', ''application/octet-stream''), (''content-range'', content_range_unsatisfied whole)] EmptyBody"

section \<open>The handler\<close>

text \<open>A body being written: what is left to answer once the write has resolved.\<close>

record zc_serving =
  zs_future :: serve_future
  zs_base :: nat
  zs_len :: nat
  zs_total :: nat
  zs_partial :: bool

datatype handler = Answered http_response | Writing zc_serving

definition range_hdr :: "nat \<Rightarrow> nat \<Rightarrow> nat \<Rightarrow> bool \<Rightarrow> rdma_write_status \<Rightarrow> string option" where
  "range_hdr base len whole part st =
     (case st of
        Complete _ \<Rightarrow> if part then Some (content_range base (base + len - 1) whole) else None
      | _ \<Rightarrow> None)"

definition zc_outcome ::
  "head_check \<Rightarrow> nat \<Rightarrow> nat \<Rightarrow> nat \<Rightarrow> bool \<Rightarrow> rdma_write_status res \<Rightarrow> http_response res" where
  "zc_outcome builds base len whole part r =
     (case r of
        Inr (Complete n) \<Rightarrow>
          zc_response builds (if part then 206 else 200) (Complete n) (range_hdr base len whole part (Complete n))
      | Inr (TooLarge n) \<Rightarrow> zc_response builds 413 (TooLarge n) None
      | Inr Declined \<Rightarrow> Inl Panic
      | Inl Panic \<Rightarrow> Inl Panic
      | Inl e \<Rightarrow> respond_async builds 500 ''text/plain'' (FullBody (text_bytes (''zero-copy serve failed'' @ LF))) None)"

definition serve_zero_copy ::
  "head_check \<Rightarrow> rdma_write_req \<Rightarrow> nat \<Rightarrow> nat \<Rightarrow> nat \<Rightarrow> bool \<Rightarrow> serving \<Rightarrow> handler res \<times> serving" where
  "serve_zero_copy builds req base len whole part pa =
     (case async_serve_pooled req (of_nat len) (\<lambda>buf. pattern_fill_registered_from buf base len) pa of
        (Inl e, pa') \<Rightarrow> (map_sum id Answered (zc_outcome builds base len whole part (Inl e)), pa')
      | (Inr (Inl st), pa') \<Rightarrow> (map_sum id Answered (zc_outcome builds base len whole part (Inr st)), pa')
      | (Inr (Inr sf), pa') \<Rightarrow>
          (Inr (Writing \<lparr>zs_future = sf, zs_base = base, zs_len = len, zs_total = whole, zs_partial = part\<rparr>), pa'))"

definition poll_handler ::
  "head_check \<Rightarrow> zc_serving \<Rightarrow> serving \<Rightarrow> (handler res \<times> serving) option" where
  "poll_handler builds z pa =
     map_option (\<lambda>(r, sf, pa').
         case r of
           Pending \<Rightarrow> (Inr (Writing (z\<lparr>zs_future := sf\<rparr>)), pa')
         | Ready x \<Rightarrow>
             (map_sum id Answered (zc_outcome builds (zs_base z) (zs_len z) (zs_total z) (zs_partial z) x), pa'))
       (poll_serve (zs_future z) pa)"

definition serve_async :: "head_check \<Rightarrow> http_request \<Rightarrow> serving \<Rightarrow> handler res \<times> serving" where
  "serve_async builds q pa =
     (let raw_header = hq_header q HEADER;
          zc_req = (if zero_copy_negotiated (a_stream (snd pa)) then Option.bind raw_header parse_req else None);
          declined = (if raw_header \<noteq> None then Some Declined else None);
          answer = (\<lambda>r. (map_sum id Answered r, pa))
      in if hq_method q \<noteq> ''GET''
         then answer (respond_async builds 405 ''text/plain'' (FullBody (text_bytes (''only GET is supported'' @ LF))) declined)
         else if hq_path q = ''/''
         then answer (respond_async builds 200 ''text/plain''
                (FullBody (text_bytes (''HORD async server. Try GET /size/<bytes>.'' @ LF))) declined)
         else case strip_prefix ''/size/'' (hq_path q) of
           None \<Rightarrow> answer (respond_async builds 404 ''text/plain'' (FullBody (text_bytes (''not found'' @ LF))) declined)
         | Some rest \<Rightarrow>
             (case parse_usize rest of
                None \<Rightarrow> answer (respond_async builds 400 ''text/plain'' (FullBody (text_bytes (''bad size'' @ LF))) declined)
              | Some n \<Rightarrow>
                  if n \<le> MAX_BODY
                  then (case (case hq_header q ''range'' of Some r \<Rightarrow> parse_range r n | None \<Rightarrow> Full) of
                          Unsatisfiable \<Rightarrow> answer (unsatisfiable_response builds n)
                        | Range start fin \<Rightarrow>
                            (let len = fin - start + 1 in
                             case zc_req of
                               Some req \<Rightarrow> serve_zero_copy builds req start len n True pa
                             | None \<Rightarrow> answer (range_response builds (PatternBody (pattern_body_range start len))
                                          (content_range start fin n) declined))
                        | Full \<Rightarrow>
                            (case zc_req of
                               Some req \<Rightarrow> serve_zero_copy builds req 0 n n False pa
                             | None \<Rightarrow> answer (respond_async builds 200 ''application/octet-stream''
                                          (PatternBody (pattern_body_new n)) declined)))
                  else answer (respond_async builds 413 ''text/plain''
                         (FullBody (text_bytes (''size exceeds server limit'' @ LF))) declined)))"

section \<open>A connection and its shutdown\<close>

text \<open>
  What the \<open>select!\<close> of \<open>serve_connection\<close> sees: hyper's connection ends, or the shutdown signal
  changes (its sender gone, or to a value). Winding down is asked of hyper, which then ends.
\<close>

datatype conn_event = ConnEnded | SignalChanged bool bool
datatype conn_exit = ConnFinished | WoundDown

fun conn_loop :: "bool \<Rightarrow> conn_event list \<Rightarrow> conn_exit option" where
  "conn_loop winding_down evs =
     (if winding_down then Some WoundDown
      else case evs of
        [] \<Rightarrow> None
      | ConnEnded # _ \<Rightarrow> Some ConnFinished
      | SignalChanged gone v # rest \<Rightarrow> conn_loop (gone \<or> v) rest)"

declare conn_loop.simps [simp del]

definition serve_connection :: "bool \<Rightarrow> conn_event list \<Rightarrow> conn_exit option" where
  "serve_connection signalled evs = conn_loop signalled evs"

definition parse_workers :: "string list \<Rightarrow> nat option" where
  "parse_workers args = (case args of [] \<Rightarrow> None | v # _ \<Rightarrow> parse_usize v)"

fun server_async_args ::
  "string list \<Rightarrow> string \<times> nat \<times> nat option \<Rightarrow> bool + string \<times> nat \<times> nat option" where
  "server_async_args [] (bind, port, workers) = Inr (bind, port, workers)"
| "server_async_args (arg # args) (bind, port, workers) =
     (if arg = ''--bind''
      then (case args of [] \<Rightarrow> Inr (bind, port, workers) | v # rest \<Rightarrow> server_async_args rest (v, port, workers))
      else if arg = ''--port''
      then (case args of
              [] \<Rightarrow> Inr (bind, port, workers)
            | v # rest \<Rightarrow> server_async_args rest (bind, case parse_u16 v of Some p \<Rightarrow> p | None \<Rightarrow> port, workers))
      else if arg = ''--workers'' then server_async_args (tl args) (bind, port, parse_workers args)
      else if arg = ''-h'' \<or> arg = ''--help'' then Inl True
      else Inl False)"

section \<open>The body is the pattern\<close>

lemma frames_pattern: "concat (frames b) = pattern_fill_from (size_hint b) (pb_offset b)"
proof (induction b rule: frames.induct)
  case (1 b)
  show ?case
  proof (cases "pb_offset b \<ge> pb_end b")
    case True
    then show ?thesis
      by (subst frames.simps) (simp add: poll_frame_def size_hint_def pattern_fill_from_def)
  next
    case False
    define n where "n = min CHUNK (size_hint b)"
    define b' where "b' = b\<lparr>pb_offset := pb_offset b + n\<rparr>"
    have p: "poll_frame b = (Some (pattern_fill_from n (pb_offset b)), b')"
      using False by (simp add: poll_frame_def n_def b'_def pattern_fill_from_def size_hint_def Let_def)
    have "concat (frames b') = pattern_fill_from (size_hint b') (pb_offset b')" using 1 p by simp
    moreover have "size_hint b = n + size_hint b'" "pb_offset b' = pb_offset b + n"
      by (simp_all add: size_hint_def b'_def n_def)
    ultimately show ?thesis by (subst frames.simps) (simp add: p pattern_fill_from_append)
  qed
qed

text \<open>Every frame carries something and at most a chunk, so no body is materialised at once.\<close>

lemma frames_bounded: "f \<in> set (frames b) \<Longrightarrow> 0 < length f \<and> length f \<le> CHUNK"
proof (induction b rule: frames.induct)
  case (1 b)
  have c: "0 < CHUNK" by (simp add: CHUNK_def)
  show ?case
  proof (cases "poll_frame b")
    case (Pair o' b')
    then show ?thesis
      using 1 c by (subst (asm) (2) frames.simps) (auto simp: poll_frame_def Let_def split: option.splits if_splits)
  qed
qed

lemma body_ends: "is_end_stream b \<longleftrightarrow> frames b = []" "length (concat (frames b)) = size_hint b"
  by (subst frames.simps, simp add: is_end_stream_def poll_frame_def Let_def)
     (simp add: frames_pattern pattern_fill_from_def)

section \<open>Heads the response builder accepts\<close>

definition header_name :: "string \<Rightarrow> bool" where
  "header_name k \<longleftrightarrow> k \<noteq> [] \<and> list_all (\<lambda>c. let n = of_char c :: nat in n = 45 \<or> 65 \<le> n \<and> n \<le> 90 \<or> 97 \<le> n \<and> n \<le> 122) k"

definition printable :: "string \<Rightarrow> bool" where
  "printable v \<longleftrightarrow> list_all (\<lambda>c. 32 \<le> (of_char c :: nat) \<and> (of_char c :: nat) < 127) v"

text \<open>hyper's builder takes a three-digit status, header names of letters and printable values.\<close>

definition accepts :: "head_check \<Rightarrow> bool" where
  "accepts builds \<longleftrightarrow>
     (\<forall>status hs. 100 \<le> status \<and> status < 1000 \<and> list_all (\<lambda>(k, v). header_name k \<and> printable v) hs
        \<longrightarrow> builds status hs)"

lemma header_names: "header_name ''content-type''" "header_name ''content-range''" "header_name HEADER"
  by (simp_all add: header_name_def HEADER_def)

lemma printable_append [simp]: "printable (v @ w) \<longleftrightarrow> printable v \<and> printable w"
  by (simp add: printable_def)

lemma printable_show10: "printable (show_radix 10 n)"
  unfolding printable_def list_all_iff
proof
  fix c assume "c \<in> set (show_radix 10 n)"
  then obtain d where "d < 10" "c = digit_char d" using show_radix_digits [of 10 c n] by auto
  then show "32 \<le> (of_char c :: nat) \<and> (of_char c :: nat) < 127" by simp
qed

lemma printable_values:
  "printable (status_header_value st)" "printable (content_range a b n)" "printable (content_range_unsatisfied n)"
  "printable ''text/plain''" "printable ''application/octet-stream''"
proof -
  have txts: "printable ''status=complete;bytes_written=''" "printable ''status=too_large;object_size=''"
    "printable ''status=declined''" "printable ''bytes ''" "printable ''-''" "printable ''/''" "printable ''bytes */''"
    by (simp_all add: printable_def)
  show "printable (status_header_value st)"
    using txts printable_show10 by (cases st) (simp_all only: status_header_value_def rdma_write_status.case printable_append simp_thms)
  show "printable (content_range a b n)" "printable (content_range_unsatisfied n)"
    using txts printable_show10 by (simp_all only: content_range_def content_range_unsatisfied_def printable_append simp_thms)
  show "printable ''text/plain''" "printable ''application/octet-stream''" by (simp_all add: printable_def)
qed

lemmas head_fields = header_names printable_values

text \<open>So every response of the handler is built, with the fields it was given.\<close>

definition carries ::
  "http_response \<Rightarrow> nat \<Rightarrow> string \<Rightarrow> bytes \<Rightarrow> rdma_write_status option \<Rightarrow> string option \<Rightarrow> bool" where
  "carries r status ct body zc cr \<longleftrightarrow>
     rs_status r = status \<and> body_bytes (rs_body r) = body
     \<and> response_header r ''Content-Type'' = Some ct \<and> response_header r ''Content-Range'' = cr
     \<and> response_header r HEADER = map_option status_header_value zc"

lemma same_names:
  "eq_ignore_ascii_case ''content-type'' ''Content-Type''" "eq_ignore_ascii_case ''content-range'' ''Content-Range''"
  "eq_ignore_ascii_case HEADER HEADER"
  "\<not> eq_ignore_ascii_case ''content-type'' ''Content-Range''" "\<not> eq_ignore_ascii_case ''content-type'' HEADER"
  "\<not> eq_ignore_ascii_case ''content-range'' HEADER" "\<not> eq_ignore_ascii_case HEADER ''Content-Range''"
  by (simp_all only: HEADER_def) code_simp+

lemmas header_lookup = response_header_def same_names

lemma built:
  assumes "accepts builds" "100 \<le> status" "status < 1000" "list_all (\<lambda>(k, v). header_name k \<and> printable v) hs"
  shows "build_response builds status hs body = Inr \<lparr>rs_status = status, rs_headers = hs, rs_body = body\<rparr>"
  using assms by (simp add: build_response_def accepts_def)

lemma respond_async_built:
  assumes "accepts builds" "100 \<le> status" "status < 1000" "printable ct"
  shows "\<exists>r. respond_async builds status ct body zc = Inr r \<and> carries r status ct (body_bytes body) zc None"
  unfolding respond_async_def
  by (cases zc; subst built [OF assms(1-3)])
     (simp_all add: head_fields assms(4), simp_all add: carries_def header_lookup)

lemma zc_response_built:
  assumes "accepts builds" "100 \<le> status" "status < 1000" "\<And>v. cr = Some v \<Longrightarrow> printable v"
  shows "\<exists>r. zc_response builds status st cr = Inr r \<and> carries r status ''application/octet-stream'' [] (Some st) cr"
  unfolding zc_response_def
  by (cases cr; subst built [OF assms(1-3)])
     (simp_all add: head_fields assms(4), simp_all add: carries_def header_lookup)

lemma range_response_built:
  assumes "accepts builds" "printable cr"
  shows "\<exists>r. range_response builds body cr zc = Inr r
    \<and> carries r 206 ''application/octet-stream'' (body_bytes body) zc (Some cr)"
  unfolding range_response_def
  by (cases zc; subst built [OF assms(1)])
     (simp_all add: head_fields assms(2), simp_all add: carries_def header_lookup)

lemma unsatisfiable_response_built:
  assumes "accepts builds"
  shows "\<exists>r. unsatisfiable_response builds n = Inr r
    \<and> carries r 416 ''application/octet-stream'' [] None (Some (content_range_unsatisfied n))"
  unfolding unsatisfiable_response_def
  by (subst built [OF assms]) (simp_all add: head_fields, simp_all add: carries_def header_lookup)

text \<open>The answer to a write that has been done, or was too large for the client's buffer.\<close>

lemma zc_outcome_built:
  assumes "accepts builds" and "st \<noteq> Declined"
  shows "\<exists>r. zc_outcome builds base len whole part (Inr st) = Inr r
    \<and> carries r (zc_code part st) ''application/octet-stream'' [] (Some st) (zc_range base len whole part st)"
proof (cases st)
  case (Complete n)
  have hdr: "range_hdr base len whole part st = zc_range base len whole part st"
    by (simp add: Complete range_hdr_def zc_range_def)
  have "\<exists>r. zc_response builds (if part then 206 else 200) st (range_hdr base len whole part st) = Inr r
    \<and> carries r (if part then 206 else 200) ''application/octet-stream'' [] (Some st) (range_hdr base len whole part st)"
    by (rule zc_response_built [OF assms(1)]) (auto simp: range_hdr_def head_fields split: rdma_write_status.splits if_splits)
  then show ?thesis using Complete hdr by (auto simp: zc_code_def zc_outcome_def)
next
  case (TooLarge n)
  then show ?thesis
    using zc_response_built [OF assms(1), of 413 None st] by (auto simp: zc_code_def zc_outcome_def zc_range_def)
qed (use assms(2) in simp)

section \<open>Both servers follow one routing\<close>

text \<open>
  What a request is answered with, whoever serves it: a response on the stream (status, type,
  body, zero-copy status, range), a refusal of the range, or a write of part of the object.
\<close>

datatype route =
    OnStream nat string bytes "rdma_write_status option" "string option"
  | NotSatisfiable nat
  | ByWrite rdma_write_req nat nat nat bool

text \<open>The part of an object of \<open>n\<close> bytes that is asked for: offset, length, and whether it is a range.\<close>

definition asked_part :: "string option \<Rightarrow> nat \<Rightarrow> (nat \<times> nat \<times> bool) option" where
  "asked_part rng n =
     (case rng of
        None \<Rightarrow> Some (0, n, False)
      | Some v \<Rightarrow> (case parse_range v n of
                      Full \<Rightarrow> Some (0, n, False)
                    | Range start fin \<Rightarrow> Some (start, fin - start + 1, True)
                    | Unsatisfiable \<Rightarrow> None))"

definition route_of ::
  "string \<Rightarrow> bool \<Rightarrow> string \<Rightarrow> string \<Rightarrow> string option \<Rightarrow> string option \<Rightarrow> route" where
  "route_of greeting negotiated meth path rng hdr =
     (let declined = (if hdr \<noteq> None then Some Declined else None);
          note = (\<lambda>status msg. OnStream status ''text/plain'' (text_bytes (msg @ LF)) declined None)
      in if meth \<noteq> ''GET'' then note 405 ''only GET is supported''
         else if path = ''/'' then note 200 greeting
         else case strip_prefix ''/size/'' path of
           None \<Rightarrow> note 404 ''not found''
         | Some rest \<Rightarrow>
             (case parse_usize rest of
                None \<Rightarrow> note 400 ''bad size''
              | Some n \<Rightarrow>
                  if n > MAX_BODY then note 413 ''size exceeds server limit''
                  else (case asked_part rng n of
                          None \<Rightarrow> NotSatisfiable n
                        | Some (base, len, part) \<Rightarrow>
                            (case (if negotiated then Option.bind hdr parse_req else None) of
                               Some req \<Rightarrow> ByWrite req base len n part
                             | None \<Rightarrow> OnStream (if part then 206 else 200) ''application/octet-stream''
                                          (pattern_fill_from len base) declined
                                          (if part then Some (content_range base (base + len - 1) n) else None)))))"

definition reason_phrase :: "nat \<Rightarrow> string" where
  "reason_phrase status =
     (if status = 200 then ''OK'' else if status = 206 then ''Partial Content''
      else if status = 400 then ''Bad Request'' else if status = 404 then ''Not Found''
      else if status = 405 then ''Method Not Allowed'' else ''Content Too Large'')"

fun follow_blocking :: "route \<Rightarrow> served_conn \<Rightarrow> (unit res \<times> served_conn) option" where
  "follow_blocking (OnStream status ct body zc cr) ps = on_served (respond status (reason_phrase status) body ct zc cr) ps"
| "follow_blocking (NotSatisfiable n) ps = on_served (respond_unsatisfiable n) ps"
| "follow_blocking (ByWrite req base len whole part) ps = serve_size_zero_copy req base len whole part ps"

text \<open>
  Following a route, blocking: a message whose head says what the route says, then its body; or a
  write of the part into the client's buffer, then a message that says how it went.
\<close>

fun follows_blocking :: "route \<Rightarrow> served_conn \<Rightarrow> (unit res \<times> served_conn) option \<Rightarrow> bool" where
  "follows_blocking (OnStream status ct body zc cr) ps out \<longleftrightarrow>
     (\<exists>msg. out = on_served (send_message msg body) ps \<and> says msg status ct (length body) zc cr)"
| "follows_blocking (NotSatisfiable n) ps out \<longleftrightarrow>
     (\<exists>msg. out = on_served (send_message msg []) ps
        \<and> says msg 416 ''application/octet-stream'' 0 None (Some (content_range_unsatisfied n)))"
| "follows_blocking (ByWrite req base len whole part) ps out \<longleftrightarrow>
     (\<exists>msgs. out = then_loop (serve_rdma_write_pooled req (of_nat len) (\<lambda>buf. pattern_fill_registered_from buf base len) ps)
           (\<lambda>st ps. if st = Declined then Some (Inl Panic, ps) else on_served (send_message (msgs st) []) ps)
        \<and> (\<forall>st. st \<noteq> Declined \<longrightarrow> says (msgs st) (zc_code part st) ''application/octet-stream'' 0 (Some st)
             (zc_range base len whole part st)))"

text \<open>Following it asynchronously: the same as a response of hyper's, the write as a future.\<close>

fun follows_async :: "head_check \<Rightarrow> route \<Rightarrow> serving \<Rightarrow> handler res \<times> serving \<Rightarrow> bool" where
  "follows_async builds (OnStream status ct body zc cr) pa out \<longleftrightarrow>
     (\<exists>r. out = (Inr (Answered r), pa) \<and> carries r status ct body zc cr)"
| "follows_async builds (NotSatisfiable n) pa out \<longleftrightarrow>
     (\<exists>r. out = (Inr (Answered r), pa)
        \<and> carries r 416 ''application/octet-stream'' [] None (Some (content_range_unsatisfied n)))"
| "follows_async builds (ByWrite req base len whole part) pa out \<longleftrightarrow>
     (\<exists>q. async_serve_pooled req (of_nat len) (\<lambda>buf. pattern_fill_registered_from buf base len) pa = (q, snd out)
        \<and> (\<forall>sf. q = Inr (Inr sf) \<longrightarrow> fst out = Inr (Writing
             \<lparr>zs_future = sf, zs_base = base, zs_len = len, zs_total = whole, zs_partial = part\<rparr>))
        \<and> (\<forall>st. q = Inr (Inl st) \<and> st \<noteq> Declined \<longrightarrow> (\<exists>r. fst out = Inr (Answered r)
             \<and> carries r (zc_code part st) ''application/octet-stream'' [] (Some st) (zc_range base len whole part st))))
     \<and> (\<forall>sf pa1 st sf' pa2. poll_serve sf pa1 = Some (Ready (Inr st), sf', pa2) \<and> st \<noteq> Declined \<longrightarrow>
          (\<exists>r. poll_handler builds \<lparr>zs_future = sf, zs_base = base, zs_len = len, zs_total = whole, zs_partial = part\<rparr> pa1
               = Some (Inr (Answered r), pa2)
             \<and> carries r (zc_code part st) ''application/octet-stream'' [] (Some st) (zc_range base len whole part st)))"

text \<open>The first step of that, as the handler takes it.\<close>

fun takes_route :: "head_check \<Rightarrow> route \<Rightarrow> serving \<Rightarrow> handler res \<times> serving \<Rightarrow> bool" where
  "takes_route builds (OnStream status ct body zc cr) pa out \<longleftrightarrow>
     (\<exists>r. out = (Inr (Answered r), pa) \<and> carries r status ct body zc cr)"
| "takes_route builds (NotSatisfiable n) pa out \<longleftrightarrow>
     (\<exists>r. out = (Inr (Answered r), pa)
        \<and> carries r 416 ''application/octet-stream'' [] None (Some (content_range_unsatisfied n)))"
| "takes_route builds (ByWrite req base len whole part) pa out \<longleftrightarrow>
     out = serve_zero_copy builds req base len whole part pa"

text \<open>A route whose fields can be sent as they are.\<close>

fun route_ok :: "route \<Rightarrow> bool" where
  "route_ok (OnStream status ct body zc cr) \<longleftrightarrow>
     field_value ct \<and> length body \<le> u64_max \<and> (\<forall>v. cr = Some v \<longrightarrow> field_value v)"
| "route_ok (NotSatisfiable n) \<longleftrightarrow> True"
| "route_ok (ByWrite req base len whole part) \<longleftrightarrow> True"

lemma follow_blocking_follows: "route_ok rt \<Longrightarrow> follows_blocking rt ps (follow_blocking rt ps)"
proof (cases rt)
  case (OnStream status ct body zc cr)
  assume ok: "route_ok rt"
  have "CHR 0x0D \<notin> set (reason_phrase status)" by (simp add: reason_phrase_def)
  then obtain msg where "says msg status ct (length body) zc cr"
    "respond status (reason_phrase status) body ct zc cr = send_message msg body"
    by (rule respond_sends [of "reason_phrase status" ct cr body status zc]) (use ok OnStream in auto)
  then show ?thesis using OnStream by auto
next
  case (NotSatisfiable n)
  show ?thesis by (rule unsatisfiable_sends [of n]) (auto simp: NotSatisfiable)
next
  case (ByWrite req base len whole part)
  show ?thesis by (rule serve_size_sends [of part base len whole req ps]) (auto simp: ByWrite)
qed

lemma asked_part_bounds: "asked_part rng n = Some (base, len, part) \<Longrightarrow> base + len \<le> n"
  using parse_range_bounds [of _ n base]
  by (auto simp: asked_part_def split: option.splits range_spec.splits) (fastforce dest: parse_range_bounds)

lemma route_of_ok: "length greeting < 1000 \<Longrightarrow> route_ok (route_of greeting neg meth path rng hdr)"
  using asked_part_bounds [of rng]
  by (auto simp: route_of_def Let_def octet_field content_range_field MAX_BODY_def pattern_fill_from_def
      split: option.split) fastforce+

lemma serve_zero_copy_follows:
  assumes "accepts builds"
  shows "follows_async builds (ByWrite req base len whole part) pa (serve_zero_copy builds req base len whole part pa)"
proof -
  let ?carries = "\<lambda>r st. carries r (zc_code part st) ''application/octet-stream'' [] (Some st) (zc_range base len whole part st)"
  have built: "\<exists>r. zc_outcome builds base len whole part (Inr st) = Inr r \<and> ?carries r st" if "st \<noteq> Declined" for st
    by (rule zc_outcome_built [OF assms that])
  obtain q pa' where q: "async_serve_pooled req (of_nat len) (\<lambda>buf. pattern_fill_registered_from buf base len) pa = (q, pa')"
    by (rule prod.exhaust)
  have "\<exists>r. poll_handler builds \<lparr>zs_future = sf, zs_base = base, zs_len = len, zs_total = whole, zs_partial = part\<rparr> pa1
      = Some (Inr (Answered r), pa2) \<and> ?carries r st"
    if "poll_serve sf pa1 = Some (Ready (Inr st), sf', pa2)" "st \<noteq> Declined" for sf pa1 st sf' pa2
    using built [OF that(2)] that(1) by (auto simp: poll_handler_def)
  moreover have "\<exists>r. fst (serve_zero_copy builds req base len whole part pa) = Inr (Answered r) \<and> ?carries r st"
    if "q = Inr (Inl st)" "st \<noteq> Declined" for st
    using built [OF that(2)] that(1) q by (auto simp: serve_zero_copy_def)
  moreover have "snd (serve_zero_copy builds req base len whole part pa) = pa'"
    using q by (auto simp: serve_zero_copy_def split: sum.split)
  ultimately show ?thesis using q by (auto simp: serve_zero_copy_def)
qed

lemma takes_route_follows:
  assumes "accepts builds" and "takes_route builds rt pa out"
  shows "follows_async builds rt pa out"
  using assms(2) serve_zero_copy_follows [OF assms(1)] by (cases rt) (auto simp del: follows_async.simps(3))

lemma range_end: "parse_range v n = Range start fin \<Longrightarrow> start + (fin - start + 1) - 1 = fin"
  using parse_range_bounds [of v n start fin] by linarith

lemma answer_request_routed:
  assumes "head_start h = (meth, path, version)"
  shows "answer_request h ps = follow_blocking
    (route_of ''HORD prototype server. Try GET /size/<bytes>.'' (zero_copy_negotiated (snd ps)) meth path
       (head_header h ''Range'') (head_header h HEADER)) ps"
proof -
  have size: "answer_request h ps = follow_blocking (route_of g (zero_copy_negotiated (snd ps)) meth path
       (head_header h ''Range'') (head_header h HEADER)) ps"
    if "strip_prefix ''/size/'' path = Some rest" "parse_usize rest = Some n" "n \<le> MAX_BODY" "meth = ''GET''" "path \<noteq> ''/''"
    for rest n g
    using that assms range_end
    by (cases "head_header h ''Range''"; cases "head_header h HEADER"; cases "zero_copy_negotiated (snd ps)")
       (auto simp: answer_request_def route_of_def asked_part_def reason_phrase_def pattern_fill_def Let_def
         split: range_spec.split option.split)
  show ?thesis
  proof (cases "meth = ''GET'' \<and> path \<noteq> ''/'' \<and> (\<exists>rest n. strip_prefix ''/size/'' path = Some rest
      \<and> parse_usize rest = Some n \<and> n \<le> MAX_BODY)")
    case True
    then show ?thesis using size by blast
  next
    case False
    then show ?thesis
      using assms by (auto simp: answer_request_def route_of_def reason_phrase_def Let_def split: option.split)
  qed
qed

lemma serve_async_routed:
  assumes ok: "accepts builds"
  shows "takes_route builds
    (route_of ''HORD async server. Try GET /size/<bytes>.'' (zero_copy_negotiated (a_stream (snd pa))) (hq_method q)
       (hq_path q) (hq_header q ''range'') (hq_header q HEADER)) pa (serve_async builds q pa)"
    (is "takes_route builds (?route) pa _")
proof -
  define d where "d = (if hq_header q HEADER \<noteq> None then Some Declined else None)"
  have plain: "takes_route builds (OnStream status ct bs d None) pa
      (map_sum id Answered (respond_async builds status ct body d), pa)"
    if "100 \<le> status" "status < 1000" "printable ct" "body_bytes body = bs" for status ct bs body
    using respond_async_built [OF ok that(1-3), of body d] that(4) by auto
  have msg: "takes_route builds (OnStream status ''text/plain'' (text_bytes m) d None) pa
      (map_sum id Answered (respond_async builds status ''text/plain'' (FullBody (text_bytes m)) d), pa)"
    if "100 \<le> status" "status < 1000" for status m
    by (rule plain [OF that]) (simp_all only: head_fields body_bytes.simps)
  have rng: "takes_route builds (OnStream 206 ''application/octet-stream'' (pattern_fill_from len start) d
        (Some (content_range start fin n))) pa
      (map_sum id Answered (range_response builds (PatternBody (pattern_body_range start len)) (content_range start fin n) d), pa)"
    for start len fin n
    using range_response_built [OF ok printable_values(2) [of start fin n], of "PatternBody (pattern_body_range start len)" d]
    by (auto simp: frames_pattern size_hint_def pattern_body_range_def)
  have unsat: "takes_route builds (NotSatisfiable n) pa (map_sum id Answered (unsatisfiable_response builds n), pa)" for n
    using unsatisfiable_response_built [OF ok, of n] by auto
  have new: "body_bytes (PatternBody (pattern_body_new n)) = pattern_fill_from n 0" for n
    by (simp add: frames_pattern size_hint_def pattern_body_new_def)
  show ?thesis
  proof (cases "hq_method q = ''GET'' \<and> hq_path q \<noteq> ''/''")
    case False
    then show ?thesis
      unfolding serve_async_def route_of_def Let_def d_def [symmetric]
      by (cases "hq_method q = ''GET''") (simp_all del: takes_route.simps add: msg)
  next
    case get: True
    show ?thesis
    proof (cases "Option.bind (strip_prefix ''/size/'' (hq_path q)) parse_usize")
      case None
      then show ?thesis
        using get
        unfolding serve_async_def route_of_def Let_def d_def [symmetric]
        by (cases "strip_prefix ''/size/'' (hq_path q)") (simp_all del: takes_route.simps add: msg)
    next
      case (Some n)
      then obtain rest where rest: "strip_prefix ''/size/'' (hq_path q) = Some rest" "parse_usize rest = Some n"
        by (auto simp: bind_eq_Some_conv)
      note here = get rest
      show ?thesis
      proof (cases "n \<le> MAX_BODY")
        case False
        then show ?thesis
          using here
          unfolding serve_async_def route_of_def Let_def d_def [symmetric] by (simp del: takes_route.simps add: msg)
      next
        case True
        define zq where "zq = (if zero_copy_negotiated (a_stream (snd pa)) then Option.bind (hq_header q HEADER) parse_req else None)"
        define sp where "sp = (case hq_header q ''range'' of Some r \<Rightarrow> parse_range r n | None \<Rightarrow> Full)"
        have part: "asked_part (hq_header q ''range'') n = (case sp of Full \<Rightarrow> Some (0, n, False)
            | Range start fin \<Rightarrow> Some (start, fin - start + 1, True) | Unsatisfiable \<Rightarrow> None)"
          by (cases "hq_header q ''range''") (simp_all add: asked_part_def sp_def)
        have fin: "start + (fin - start + 1) - 1 = fin" if "sp = Range start fin" for start fin
          using that range_end by (cases "hq_header q ''range''") (simp_all add: sp_def del: One_nat_def)
        have whole: "takes_route builds (OnStream 200 ''application/octet-stream'' (pattern_fill_from n 0) d None) pa
            (map_sum id Answered (respond_async builds 200 ''application/octet-stream'' (PatternBody (pattern_body_new n)) d), pa)"
          by (rule plain [OF _ _ printable_values(5) new]) simp_all
        show ?thesis
          unfolding serve_async_def route_of_def Let_def d_def [symmetric] zq_def [symmetric]
          by (cases sp; cases zq) (use here True unsat rng whole fin in \<open>simp_all add: part sp_def [symmetric] del: takes_route.simps(1,2) One_nat_def\<close>)
      qed
    qed
  qed
qed

lemma zc_outcome_safe:
  assumes "accepts builds" and "r \<noteq> Inl Panic" and "r \<noteq> Inr Declined"
  shows "\<exists>x. zc_outcome builds base len whole part r = Inr x"
proof (cases r)
  case (Inl e)
  then show ?thesis
    using respond_async_built [OF assms(1), of 500 "''text/plain''"] assms(2) printable_values(4)
    by (cases e) (auto simp: zc_outcome_def)
next
  case (Inr st)
  then show ?thesis using zc_outcome_built [OF assms(1), of st] assms(3) by blast
qed

section \<open>A connection serves request after request\<close>

lemma release_source_pool: "fst (release_source l pa) = lease_return l (fst pa)"
  by (simp add: release_source_def lease_drop_def lease_return_def)

lemma start_body_pool:
  assumes "start_body l req plen tid fill pa = (r, pa')" and "pool_idle (lease_return l (fst pa))"
  shows "case r of Inr (Inr sf) \<Rightarrow> pool_idle (lease_return (sf_lease sf) (fst pa')) | _ \<Rightarrow> pool_idle (fst pa')"
  using assms by (auto simp: start_body_def release_source_pool split: prod.splits sum.splits)

text \<open>The lease a body is written from is the only one out, and gives the pool back as it was.\<close>

lemma async_serve_pooled_pool:
  assumes run: "async_serve_pooled req object_size fill pa = (r, pa')" and idle: "pool_idle (fst pa)"
  shows "case r of Inr (Inr sf) \<Rightarrow> pool_idle (lease_return (sf_lease sf) (fst pa')) | _ \<Rightarrow> pool_idle (fst pa')"
proof (cases "decide req object_size (split_mode_negotiated (a_stream (snd pa)))")
  case (Respond st)
  then show ?thesis using assms by (auto simp: async_serve_pooled_def)
next
  case (WriteBody plen slen tid)
  obtain q p1 s where acq: "pool_acquire register_source slen (fst pa, a_stream (snd pa)) = (q, p1, s)"
    by (metis surj_pair)
  have body: ?thesis if "q = Inr l" "pool_idle (lease_return l p1)" for l
    using start_body_pool [of l req plen tid fill "(p1, (snd pa)\<lparr>a_stream := s\<rparr>)" r pa'] run WriteBody acq that
    by (simp add: async_serve_pooled_def)
  show ?thesis
  proof (cases rule: pool_acquire_cases [OF idle acq decide_plan(3) [OF WriteBody], case_names failed pooled single])
    case failed
    then show ?thesis using run WriteBody acq idle by (auto simp: async_serve_pooled_def)
  next
    case (pooled b)
    then show ?thesis using body by blast
  next
    case (single b)
    then show ?thesis using body [OF single(1)] idle by (simp add: lease_return_def pool_idle_def)
  qed
qed

definition writing_ok :: "zc_serving \<Rightarrow> bool" where
  "writing_ok z \<longleftrightarrow> (\<exists>req. serve_ok req (of_nat (zs_len z)) (zs_future z))"

text \<open>Between two requests, or with a body being written for one, or dropped.\<close>

datatype phase = Idle | Handling zc_serving | Dropped

definition connection_ok :: "phase \<times> serving \<Rightarrow> bool" where
  "connection_ok c \<longleftrightarrow>
     (case fst c of
        Idle \<Rightarrow> serving_ok (snd c) \<and> pool_idle (fst (snd c))
      | Handling z \<Rightarrow> serving_ok (snd c) \<and> writing_ok z
          \<and> pool_idle (lease_return (sf_lease (zs_future z)) (fst (snd c)))
      | Dropped \<Rightarrow> writes_quiet (a_stream (snd (snd c))) \<and> pool_idle (fst (snd c)))"

definition phase_of :: "handler \<Rightarrow> phase" where
  "phase_of h = (case h of Answered _ \<Rightarrow> Idle | Writing z \<Rightarrow> Handling z)"

lemma served_not_declined: "served req n \<noteq> Declined" by (simp add: served_def)

lemma serve_zero_copy_safe:
  assumes acc: "accepts builds" and ok: "serving_ok pa" "pool_idle (fst pa)" and len: "len < 2 ^ 64"
    and run: "serve_zero_copy builds req base len whole part pa = (r, pa')"
  shows "\<exists>h. r = Inr h \<and> connection_ok (phase_of h, pa')"
proof -
  let ?fill = "\<lambda>buf. pattern_fill_registered_from buf base len"
  have un: "unat (of_nat len :: u64) = len" using len by (simp add: unat_of_nat take_bit_nat_eq_self_iff)
  obtain x pa1 where x: "async_serve_pooled req (of_nat len) ?fill pa = (x, pa1)" by (rule prod.exhaust)
  have fl: "fills ?fill (unat (of_nat len :: u64))" using pattern_fills [of base len] un by simp
  note ok1 = async_serve_pooled_ok [OF ok fl x]
  note pool1 = async_serve_pooled_pool [OF x ok(2)]
  consider (err) e where "x = Inl e" | (now) st where "x = Inr (Inl st)" | (wr) sf where "x = Inr (Inr sf)"
    by (metis sumE)
  then show ?thesis
  proof cases
    case err
    then obtain y where "zc_outcome builds base len whole part (Inl e) = Inr y"
      using zc_outcome_safe [OF acc, of "Inl e" base len whole part] ok1 by auto
    then show ?thesis using run x err ok1 pool1 by (auto simp: serve_zero_copy_def connection_ok_def phase_of_def)
  next
    case now
    then obtain y where "zc_outcome builds base len whole part (Inr st) = Inr y"
      using zc_outcome_safe [OF acc, of "Inr st" base len whole part] ok1 served_not_declined by auto
    then show ?thesis using run x now ok1 pool1 by (auto simp: serve_zero_copy_def connection_ok_def phase_of_def)
  next
    case wr
    then show ?thesis
      using run x ok1 pool1 by (auto simp: serve_zero_copy_def connection_ok_def phase_of_def writing_ok_def)
  qed
qed

lemma route_of_part: "route_of g neg meth path rng hdr = ByWrite req base len whole part \<Longrightarrow> len \<le> MAX_BODY"
  using parse_range_bounds
  by (fastforce simp: route_of_def asked_part_def Let_def split: if_splits option.splits range_spec.splits)

lemma serve_async_safe:
  assumes acc: "accepts builds" and ok: "connection_ok (Idle, pa)" and run: "serve_async builds q pa = (r, pa')"
  shows "\<exists>h. r = Inr h \<and> connection_ok (phase_of h, pa')"
proof -
  define rt where "rt = route_of ''HORD async server. Try GET /size/<bytes>.'' (zero_copy_negotiated (a_stream (snd pa)))
    (hq_method q) (hq_path q) (hq_header q ''range'') (hq_header q HEADER)"
  have f: "takes_route builds rt pa (r, pa')" using serve_async_routed [OF acc, of pa q] run by (simp add: rt_def)
  show ?thesis
  proof (cases rt)
    case (ByWrite req base len whole part)
    then have "len < 2 ^ 64" using route_of_part [OF rt_def [symmetric, THEN trans]] by (fastforce simp: MAX_BODY_def)
    then show ?thesis
      using f ByWrite ok serve_zero_copy_safe [OF acc, of pa len req base whole part r pa'] by (simp add: connection_ok_def)
  qed (use f ok in \<open>auto simp: phase_of_def\<close>)
qed

lemma poll_serve_pool:
  assumes "poll_serve sf pa = Some (r, sf', pa')"
  shows "sf_lease sf' = sf_lease sf" "r = Pending \<Longrightarrow> fst pa' = fst pa"
    "r \<noteq> Pending \<Longrightarrow> fst pa' = lease_return (sf_lease sf) (fst pa)"
proof -
  obtain q f b where "poll_drive_write (sf_write sf) (snd pa) = Some (q, f, b)"
    using assms by (auto simp: poll_serve_def)
  then show "sf_lease sf' = sf_lease sf" "r = Pending \<Longrightarrow> fst pa' = fst pa"
    "r \<noteq> Pending \<Longrightarrow> fst pa' = lease_return (sf_lease sf) (fst pa)"
    using assms by (cases q; auto simp: poll_serve_def release_source_pool)+
qed

lemma poll_handler_safe:
  assumes acc: "accepts builds" and ok: "connection_ok (Handling z, pa)"
  shows "\<exists>h pa'. poll_handler builds z pa = Some (Inr h, pa') \<and> connection_ok (phase_of h, pa')
    \<and> (\<forall>r. h = Answered r \<and> rs_status r \<in> {200, 206} \<longrightarrow> write_ids (a_stream (snd pa')) = {#})"
proof -
  from ok obtain req where sf: "serve_ok req (of_nat (zs_len z)) (zs_future z)" and w: "serving_ok pa"
    and pool: "pool_idle (lease_return (sf_lease (zs_future z)) (fst pa))"
    by (auto simp: connection_ok_def writing_ok_def)
  obtain r sf' pa' where run: "poll_serve (zs_future z) pa = Some (r, sf', pa')" and ok': "serving_ok pa'"
    and r: "r \<noteq> Ready (Inl Panic)" "r = Pending \<longrightarrow> serve_ok req (of_nat (zs_len z)) sf'"
      "\<And>st. r = Ready (Inr st) \<Longrightarrow> st = served req (of_nat (zs_len z)) \<and> write_ids (a_stream (snd pa')) = {#}"
    using poll_serve_ok [OF sf w] by blast
  note P = poll_serve_pool [OF run]
  show ?thesis
  proof (cases r)
    case Pending
    then show ?thesis
      using run ok' r(2) pool P by (auto simp: poll_handler_def connection_ok_def phase_of_def writing_ok_def)
  next
    case (Ready x)
    have nd: "x \<noteq> Inl Panic" "x \<noteq> Inr Declined" using r(1) r(3) [of Declined] Ready served_not_declined [of req "of_nat (zs_len z)"] by auto
    obtain y where y: "zc_outcome builds (zs_base z) (zs_len z) (zs_total z) (zs_partial z) x = Inr y"
      using zc_outcome_safe [OF acc nd] by blast
    have "write_ids (a_stream (snd pa')) = {#}" if "rs_status y \<in> {200, 206}"
    proof (cases x)
      case (Inl e)
      have "rs_status y = 500"
        using y Inl
        by (cases e) (auto simp: zc_outcome_def respond_async_def build_response_def split: if_splits)
      then show ?thesis using that by simp
    qed (use r(3) Ready in blast)
    then show ?thesis
      using run Ready y ok' pool P by (auto simp: poll_handler_def connection_ok_def phase_of_def)
  qed
qed

text \<open>
  The steps hyper takes with a connection, one request at a time: it calls the handler, polls it
  to its answer, reads, writes and flushes the stream, sees the fds change, and may drop a
  handler half way.
\<close>

inductive hyper_step :: "head_check \<Rightarrow> phase \<times> serving \<Rightarrow> phase \<times> serving \<Rightarrow> bool" for builds where
  request: "serve_async builds q pa = (Inr h, pa') \<Longrightarrow> hyper_step builds (Idle, pa) (phase_of h, pa')"
| poll: "poll_handler builds z pa = Some (Inr h, pa') \<Longrightarrow> hyper_step builds (Handling z, pa) (phase_of h, pa')"
| reads: "ph \<noteq> Dropped \<Longrightarrow> poll_read n a = Some (r, b) \<Longrightarrow> hyper_step builds (ph, p, a) (ph, p, b)"
| writes: "ph \<noteq> Dropped \<Longrightarrow> poll_write buf a = Some (w, b) \<Longrightarrow> hyper_step builds (ph, p, a) (ph, p, b)"
| flushes: "ph \<noteq> Dropped \<Longrightarrow> poll_flush a = Some (f, b) \<Longrightarrow> hyper_step builds (ph, p, a) (ph, p, b)"
| wakes: "a_stream b = a_stream a \<Longrightarrow> hyper_step builds (ph, p, a) (ph, p, b)"
| drops: "hyper_step builds (Handling z, pa) (Dropped, snd (cancel_serve (zs_future z) pa))"

lemma polls_world:
  assumes "world_ok (a_stream a)"
  shows "poll_read n a = Some (r, b) \<Longrightarrow> world_ok (a_stream b)" "poll_write buf a = Some (w, b) \<Longrightarrow> world_ok (a_stream b)"
    "poll_flush a = Some (f, b) \<Longrightarrow> world_ok (a_stream b)"
proof -
  have h: "write_ok (a_stream a) \<and> fixtures (a_stream a) = fixtures (a_stream a)" using assms by (simp add: world_ok_def)
  note F = frozen.poll_functions_safe [OF h]
  show "poll_read n a = Some (r, b) \<Longrightarrow> world_ok (a_stream b)" "poll_write buf a = Some (w, b) \<Longrightarrow> world_ok (a_stream b)"
    "poll_flush a = Some (f, b) \<Longrightarrow> world_ok (a_stream b)"
    using F(1) [of n "(r, b)"] F(2) [of buf "(w, b)"] F(3) [of "(f, b)"] world_ok_frozen [OF assms]
    by (auto simp: poll_outcome_def)
qed

lemma connection_ok_world:
  "connection_ok (ph, p, a) \<Longrightarrow> ph \<noteq> Dropped \<Longrightarrow> world_ok (a_stream a)"
  by (cases ph) (simp_all add: connection_ok_def)

lemma connection_ok_update:
  "connection_ok (ph, p, a) \<Longrightarrow> ph \<noteq> Dropped \<Longrightarrow> world_ok (a_stream b) \<Longrightarrow> connection_ok (ph, p, b)"
  by (cases ph) (simp_all add: connection_ok_def)

lemma connection_ok_stream:
  "connection_ok (ph, p, a) \<Longrightarrow> a_stream b = a_stream a \<Longrightarrow> connection_ok (ph, p, b)"
  by (cases ph) (simp_all add: connection_ok_def)

lemma cancel_connection_ok:
  assumes "connection_ok (Handling z, pa)"
  shows "connection_ok (Dropped, snd (cancel_serve (zs_future z) pa))"
proof -
  have "wf_armed (sf_write (zs_future z))" "write_ok (a_stream (snd pa))"
    using assms by (auto simp: connection_ok_def writing_ok_def serve_ok_def world_ok_def)
  then show ?thesis
    using cancel_serve_ok(2) [of "zs_future z" pa] assms
    by (simp add: connection_ok_def cancel_serve_run Let_def release_source_pool)
qed

lemma hyper_step_ok:
  assumes "accepts builds" and "hyper_step builds c c'" and "connection_ok c"
  shows "connection_ok c'"
  using assms(2,3)
proof cases
  case (request q pa h pa')
  then show ?thesis using serve_async_safe [OF assms(1), of pa q "Inr h" pa'] assms(3) by auto
next
  case (poll z pa h pa')
  then show ?thesis using poll_handler_safe [OF assms(1), of z pa] assms(3) by auto
next
  case (drops z pa)
  then show ?thesis using cancel_connection_ok assms(3) by simp
qed (use assms(3) polls_world connection_ok_world connection_ok_update connection_ok_stream in \<open>metis+\<close>)

lemma hyper_steps_ok:
  assumes "accepts builds" and "(hyper_step builds)\<^sup>*\<^sup>* c c'" and "connection_ok c"
  shows "connection_ok c'"
  using assms(2,3) by induction (auto intro: hyper_step_ok [OF assms(1)])

lemma connection_ok_new:
  "world_ok (a_stream a) \<Longrightarrow> connection_ok (Idle, source_pool_new SOURCE_POOL_CAP SOURCE_POOL_BUF_SIZE, a)"
  by (simp add: connection_ok_def pool_idle_new)

section \<open>Winding down\<close>

definition signal_set :: "conn_event \<Rightarrow> bool" where
  "signal_set e \<longleftrightarrow> (case e of ConnEnded \<Rightarrow> False | SignalChanged gone v \<Rightarrow> gone \<or> v)"

text \<open>
  A connection is wound down when the signal is set, or is dropped, before hyper's connection
  ends; a toggle back to \<open>false\<close> is ignored, and the loop waits as long as nothing happens.
\<close>

lemma conn_loop_exit:
  "conn_loop False evs =
     (case dropWhile (\<lambda>e. e \<noteq> ConnEnded \<and> \<not> signal_set e) evs of
        [] \<Rightarrow> None
      | e # _ \<Rightarrow> Some (if signal_set e then WoundDown else ConnFinished))"
proof (induction evs)
  case (Cons e evs)
  then show ?case by (cases e) (auto simp: conn_loop.simps signal_set_def)
qed (simp add: conn_loop.simps)

end
