(* ===== verification/Demo_Client_Async.thy ===== *)
theory Demo_Client_Async
  imports Demo_Server_Async
begin

text \<open>
  The async demo client \<open>hord-demo/src/bin/client_async.rs\<close>: one GET through hyper, and the
  protocol-splitting client, which issues many and collects their payloads by transfer id; and
  the argument loops of both clients. \<open>client_io\<close> is hyper at work on the shared stream: it sends a
  request and comes back with the response, an error, or nothing before the deadline.
\<close>

section \<open>Arguments\<close>

record client_opts =
  o_server :: string
  o_port :: nat
  o_path :: string
  o_zero_copy :: bool
  o_zc_buf :: "nat option"
  o_range :: "string option"
  o_split :: bool
  o_count :: nat
  o_quiet :: bool

definition next_arg :: "string list \<Rightarrow> string option" where
  "next_arg args = (case args of [] \<Rightarrow> None | v # _ \<Rightarrow> Some v)"

definition arg_or :: "'a option \<Rightarrow> 'a \<Rightarrow> 'a" where
  "arg_or v d = (case v of None \<Rightarrow> d | Some x \<Rightarrow> x)"

fun client_args :: "string list \<Rightarrow> client_opts \<Rightarrow> bool + client_opts" where
  "client_args [] o' = Inr o'"
| "client_args (arg # args) o' =
     (if arg = ''--server'' then client_args (tl args) (o'\<lparr>o_server := arg_or (next_arg args) (o_server o')\<rparr>)
      else if arg = ''--port''
      then client_args (tl args) (o'\<lparr>o_port := arg_or (Option.bind (next_arg args) parse_u16) (o_port o')\<rparr>)
      else if arg = ''--path'' then client_args (tl args) (o'\<lparr>o_path := arg_or (next_arg args) (o_path o')\<rparr>)
      else if arg = ''--zero-copy'' then client_args args (o'\<lparr>o_zero_copy := True\<rparr>)
      else if arg = ''--zc-buf'' then client_args (tl args) (o'\<lparr>o_zc_buf := Option.bind (next_arg args) parse_usize\<rparr>)
      else if arg = ''--range'' then client_args (tl args) (o'\<lparr>o_range := next_arg args\<rparr>)
      else if arg = ''--quiet'' then client_args args (o'\<lparr>o_quiet := True\<rparr>)
      else if arg = ''-h'' \<or> arg = ''--help'' then Inl True
      else Inl False)"

fun client_async_args :: "string list \<Rightarrow> client_opts \<Rightarrow> bool + client_opts" where
  "client_async_args [] o' = Inr o'"
| "client_async_args (arg # args) o' =
     (if arg = ''--server'' then client_async_args (tl args) (o'\<lparr>o_server := arg_or (next_arg args) (o_server o')\<rparr>)
      else if arg = ''--port''
      then client_async_args (tl args) (o'\<lparr>o_port := arg_or (Option.bind (next_arg args) parse_u16) (o_port o')\<rparr>)
      else if arg = ''--path'' then client_async_args (tl args) (o'\<lparr>o_path := arg_or (next_arg args) (o_path o')\<rparr>)
      else if arg = ''--zero-copy'' then client_async_args args (o'\<lparr>o_zero_copy := True\<rparr>)
      else if arg = ''--zc-buf'' then client_async_args (tl args) (o'\<lparr>o_zc_buf := Option.bind (next_arg args) parse_usize\<rparr>)
      else if arg = ''--range'' then client_async_args (tl args) (o'\<lparr>o_range := next_arg args\<rparr>)
      else if arg = ''--split'' then client_async_args args (o'\<lparr>o_split := True\<rparr>)
      else if arg = ''--count''
      then client_async_args (tl args) (o'\<lparr>o_count := arg_or (Option.bind (next_arg args) parse_usize) (o_count o')\<rparr>)
      else if arg = ''--quiet'' then client_async_args args (o'\<lparr>o_quiet := True\<rparr>)
      else if arg = ''-h'' \<or> arg = ''--help'' then Inl True
      else Inl False)"

section \<open>One exchange\<close>

definition offer_zero_copy_async ::
  "bool \<Rightarrow> nat \<Rightarrow> async_stream \<Rightarrow> zero_copy_request option res \<times> async_stream" where
  "offer_zero_copy_async requested capacity a =
     (if \<not> requested then (Inr None, a)
      else if \<not> zero_copy_negotiated (a_stream a) then (Inr None, a)
      else if capacity = 0 then (Inr None, a)
      else and_then (async_register_remote_writable capacity a) (\<lambda>b a. (Inr (Some (zc_from_buffer b)), a)))"

definition request_headers_async ::
  "string \<Rightarrow> string option \<Rightarrow> zero_copy_request option \<Rightarrow> (string \<times> string) list" where
  "request_headers_async server rng dest =
     [(''host'', server), (''user-agent'', ''hord-client-async/0.1''), (''connection'', ''close'')]
     @ (case rng of None \<Rightarrow> [] | Some spec \<Rightarrow> [(''range'', ''bytes='' @ spec)])
     @ (case dest of None \<Rightarrow> [] | Some z \<Rightarrow> [(HEADER, req_header_value (zc_request z))])"

record hyper_reply =
  hr_status :: nat
  hr_header :: "string \<Rightarrow> string option"
  hr_body :: bytes

type_synonym request_check = "string \<Rightarrow> (string \<times> string) list \<Rightarrow> bool"
type_synonym client_io =
  "string \<Rightarrow> (string \<times> string) list \<Rightarrow> async_stream \<Rightarrow> hyper_reply res option \<times> async_stream"

record exchange =
  xc_status :: nat
  xc_zc_status :: "rdma_write_status option"
  xc_content_range :: "string option"
  xc_body :: bytes

definition exchange_of :: "bool \<Rightarrow> hyper_reply res option \<Rightarrow> exchange res" where
  "exchange_of offered out =
     (case out of
        None \<Rightarrow> Inl (io_err TimedOut)
      | Some (Inl e) \<Rightarrow> Inl e
      | Some (Inr r) \<Rightarrow>
          Inr \<lparr>xc_status = hr_status r,
               xc_zc_status = (if offered then Option.bind (hr_header r HEADER) parse_status else None),
               xc_content_range = hr_header r ''content-range'', xc_body = hr_body r\<rparr>)"

definition take_delivery ::
  "exchange \<Rightarrow> zero_copy_request option \<Rightarrow> nat \<Rightarrow> string \<Rightarrow> memory \<Rightarrow> delivery res" where
  "take_delivery x dest range_base path m =
     (case xc_zc_status x of
        Some (Complete bytes_written) \<Rightarrow>
          (case dest of
             None \<Rightarrow> Inl Panic
           | Some z \<Rightarrow>
               (let n = unat bytes_written in
                if n > zc_capacity z then Inl (io_err ErrOther)
                else case verify_zero_copy_at (zc_buf z) range_base n path m of
                       Inl e \<Rightarrow> Inl e
                     | Inr (Inl off) \<Rightarrow> Inl (io_err ErrOther)
                     | Inr (Inr v) \<Rightarrow> Inr \<lparr>body_len = n, source = ByRdmaWrite, verified = v\<rparr>))
      | Some (TooLarge object_size) \<Rightarrow> Inr \<lparr>body_len = 0, source = NothingTooLarge, verified = False\<rparr>
      | _ \<Rightarrow>
          (case verify_stream_body_at (xc_body x) (xc_status x = 200 \<or> xc_status x = 206) path range_base of
             Inl off \<Rightarrow> Inl (io_err ErrOther)
           | Inr v \<Rightarrow> Inr \<lparr>body_len = length (xc_body x), source = ByStream, verified = v\<rparr>))"

definition run_async ::
  "client_io \<Rightarrow> request_check \<Rightarrow> string \<Rightarrow> string \<Rightarrow> bool \<Rightarrow> nat option \<Rightarrow> string option \<Rightarrow> async_stream
     \<Rightarrow> client_result res \<times> async_stream" where
  "run_async io builds server path want_zc buf_len rng a =
     (let whole = size_from_path path;
          (range_base, range_len) = resolve_range rng whole;
          capacity = (case buf_len of Some n \<Rightarrow> n | None \<Rightarrow>
                        (case range_len of Some n \<Rightarrow> n | None \<Rightarrow>
                           (case whole of Some n \<Rightarrow> n | None \<Rightarrow> DEFAULT_ZC_BUF)))
      in and_then (offer_zero_copy_async want_zc capacity a) (\<lambda>dest a.
         let hs = request_headers_async server rng dest in
         if \<not> builds path hs then (Inl (io_err InvalidInput), a)
         else let p = io path hs a in
         and_then (exchange_of (dest \<noteq> None) (fst p), snd p) (\<lambda>x a.
         if xc_status x = 416 then (Inr (RangeNotSatisfiable (xc_content_range x)), a)
         else and_then (take_delivery x dest range_base path (smem (a_stream a)), a) (\<lambda>d a. (Inr (Delivered d), a)))))"

section \<open>The protocol-splitting client\<close>

text \<open>One destination per transfer, each with its index as transfer id.\<close>

fun register_split :: "nat list \<Rightarrow> nat \<Rightarrow> async_stream \<Rightarrow> zero_copy_request list res \<times> async_stream" where
  "register_split [] capacity a = (Inr [], a)"
| "register_split (i # is) capacity a =
     and_then (async_register_remote_writable capacity a) (\<lambda>b a.
     and_then (register_split is capacity a) (\<lambda>zs a. (Inr (zc_with_id (of_nat i) (zc_from_buffer b) # zs), a)))"

fun issue_split_requests ::
  "client_io \<Rightarrow> request_check \<Rightarrow> string \<Rightarrow> string \<Rightarrow> zero_copy_request list \<Rightarrow> async_stream \<Rightarrow> unit res \<times> async_stream" where
  "issue_split_requests io builds server path [] a = (Inr (), a)"
| "issue_split_requests io builds server path (z # zs) a =
     (let hs = [(''host'', server), (''user-agent'', ''hord-client-async/0.1''), (HEADER, req_header_value (zc_request z))] in
      if \<not> builds path hs then (Inl (io_err InvalidInput), a)
      else case io path hs a of
        (None, a) \<Rightarrow> (Inl (io_err TimedOut), a)
      | (Some (Inl e), a) \<Rightarrow> (Inl e, a)
      | (Some (Inr r), a) \<Rightarrow>
          (case Option.bind (hr_header r HEADER) parse_status of
             Some (Complete _) \<Rightarrow> issue_split_requests io builds server path zs a
           | _ \<Rightarrow> (Inl (io_err ErrOther), a)))"

text \<open>
  Waiting for a transfer under a deadline: the future is polled, and again after each wake-up
  that comes in time. \<open>None\<close> is the deadline.
\<close>

fun await_completion ::
  "(async_stream \<Rightarrow> async_stream) list \<Rightarrow> async_stream \<Rightarrow> (u32 option res option \<times> async_stream) option" where
  "await_completion ws a =
     (case poll_split_completion a of
        None \<Rightarrow> None
      | Some (Ready r, b) \<Rightarrow> Some (Some r, b)
      | Some (Pending, b) \<Rightarrow> (case ws of [] \<Rightarrow> Some (None, b) | w # ws' \<Rightarrow> await_completion ws' (w b)))"

declare await_completion.simps [simp del]

definition verify_landed :: "zero_copy_request \<Rightarrow> nat option \<Rightarrow> string \<Rightarrow> memory \<Rightarrow> bool res" where
  "verify_landed z object_size path m =
     (case object_size of
        None \<Rightarrow> Inr False
      | Some n \<Rightarrow>
          (case verify_zero_copy (zc_buf z) (min n (zc_capacity z)) path m of
             Inl e \<Rightarrow> Inl e
           | Inr (Inl off) \<Rightarrow> Inl (io_err ErrOther)
           | Inr (Inr v) \<Rightarrow> Inr v))"

text \<open>\<open>waits k\<close> are the wake-ups that come while the client waits with \<open>k\<close> transfers seen.\<close>

function collect_split_loop ::
  "(nat \<Rightarrow> (async_stream \<Rightarrow> async_stream) list) \<Rightarrow> zero_copy_request list \<Rightarrow> nat option \<Rightarrow> string
     \<Rightarrow> u32 list \<Rightarrow> nat \<Rightarrow> async_stream \<Rightarrow> ((u32 list \<times> nat) res \<times> async_stream) option" where
  "collect_split_loop waits reqs object_size path seen good a =
     (if length seen < length reqs
      then (case await_completion (waits (length seen)) a of
              None \<Rightarrow> None
            | Some (None, b) \<Rightarrow> Some (Inl (io_err TimedOut), b)
            | Some (Some (Inl e), b) \<Rightarrow> Some (Inl e, b)
            | Some (Some (Inr None), b) \<Rightarrow> Some (Inl (io_err ErrOther), b)
            | Some (Some (Inr (Some i)), b) \<Rightarrow>
                if i \<in> set seen then Some (Inl (io_err ErrOther), b)
                else if length reqs \<le> unat i then Some (Inl (io_err ErrOther), b)
                else (case verify_landed (reqs ! unat i) object_size path (smem (a_stream b)) of
                        Inl e \<Rightarrow> Some (Inl e, b)
                      | Inr v \<Rightarrow>
                          collect_split_loop waits reqs object_size path (i # seen) (if v then good + 1 else good) b))
      else Some (Inr (seen, good), a))"
  by pat_completeness auto
termination
  by (relation "measure (\<lambda>(_, reqs, _, _, seen, _, _). length reqs - length seen)") auto

declare collect_split_loop.simps [simp del]

definition collect_split_completions ::
  "(nat \<Rightarrow> (async_stream \<Rightarrow> async_stream) list) \<Rightarrow> zero_copy_request list \<Rightarrow> nat option \<Rightarrow> string
     \<Rightarrow> async_stream \<Rightarrow> (nat res \<times> async_stream) option" where
  "collect_split_completions waits reqs object_size path a =
     then_loop (collect_split_loop waits reqs object_size path [] 0 a) (\<lambda>(seen, good) a. Some (Inr good, a))"

definition run_split ::
  "client_io \<Rightarrow> request_check \<Rightarrow> (nat \<Rightarrow> (async_stream \<Rightarrow> async_stream) list) \<Rightarrow> string \<Rightarrow> string \<Rightarrow> nat option
     \<Rightarrow> nat \<Rightarrow> async_stream \<Rightarrow> (nat res \<times> async_stream) option" where
  "run_split io builds waits server path buf_len cnt a =
     (if cnt = 0 then Some (Inl (io_err ErrOther), a)
      else if \<not> zero_copy_negotiated (a_stream a) \<or> \<not> split_mode_negotiated (a_stream a)
      then Some (Inl (io_err ErrOther), a)
      else let object_size = size_from_path path;
               capacity = max 1 (case buf_len of Some n \<Rightarrow> n | None \<Rightarrow>
                                   (case object_size of Some n \<Rightarrow> n | None \<Rightarrow> DEFAULT_ZC_BUF))
      in then_loop (Some (register_split [0..<cnt] capacity a)) (\<lambda>reqs a.
         then_loop (Some (issue_split_requests io builds server path reqs a)) (\<lambda>_ a.
         collect_split_completions waits reqs object_size path a)))"

section \<open>Both clients offer and take the same\<close>

lemma offer_zero_copy_same:
  "offer_zero_copy_async req cap a = on_stream (offer_zero_copy req cap) a"
  by (auto simp: offer_zero_copy_async_def offer_zero_copy_def on_stream_def async_register_remote_writable_def
      zc_new_def Let_def and_then_def split: prod.split sum.split)

lemma show10_inj:
  assumes "show_radix 10 m = show_radix 10 n"
  shows "m = n"
proof -
  have "parse_digits 10 (max m n) 0 (show_radix 10 k) = Some k" if "k \<le> max m n" for k
    by (rule parse_show_radix) (use that in simp_all)
  from this [OF max.cobounded1] this [OF max.cobounded2] have "Some m = Some n" unfolding assms by (rule trans [OF sym])
  then show ?thesis by (rule option.inject [THEN iffD1])
qed

text \<open>
  What the blocking client makes of a head and the body that follows it, the async client makes
  of hyper's response with the same status, zero-copy status and body.
\<close>

lemma clients_agree:
  assumes hdr: "Option.bind (head_header h HEADER) parse_status = Option.bind (hr_header r HEADER) parse_status"
    and status: "fst (snd (head_start h)) = show_radix 10 (hr_status r)"
    and len: "head_content_length h = Some n" and body: "read_body hord_read leftover n s = Some (Inr (hr_body r), s')"
    and x: "exchange_of (zc \<noteq> None) (Some (Inr r)) = Inr x"
  shows "(\<exists>t. receive_body h leftover zc base path s = Some (Inr d, t)) \<longleftrightarrow> take_delivery x zc base path (smem s) = Inr d"
proof -
  have st: "(show_radix 10 (hr_status r) = ''200'') = (hr_status r = 200)" "(show_radix 10 (hr_status r) = ''206'') = (hr_status r = 206)"
    using show10_inj status_text by metis+
  have x': "xc_status x = hr_status r" "xc_body x = hr_body r"
    "xc_zc_status x = (if zc \<noteq> None then Option.bind (hr_header r HEADER) parse_status else None)"
    using x by (auto simp: exchange_of_def)
  show ?thesis
    unfolding receive_body_def take_delivery_def hdr x' status
    by (cases zc; cases "Option.bind (hr_header r HEADER) parse_status")
       (simp_all add: len body st Let_def then_loop_def split: rdma_write_status.split sum.split)
qed

section \<open>The client does not panic\<close>

lemma take_delivery_safe:
  assumes "exchange_of (dest \<noteq> None) out = Inr x"
  shows "take_delivery x dest base path m \<noteq> Inl Panic"
proof -
  have vz: "verify_zero_copy_at (zc_buf z) base n path m \<noteq> Inl Panic" if "\<not> n > zc_capacity z" for z n
    using verify_zc_loop_safe [of n "zc_buf z"] that by (simp add: verify_zero_copy_at_def zc_capacity_def)
  have "xc_zc_status x = None" if "dest = None"
    using assms that by (auto simp: exchange_of_def split: option.splits sum.splits)
  then show ?thesis
    using vz by (auto simp: take_delivery_def Let_def split: option.splits rdma_write_status.splits sum.splits)
qed

lemma verify_landed_safe: "verify_landed z object_size path m \<noteq> Inl Panic"
proof -
  have "verify_zero_copy (zc_buf z) (min n (zc_capacity z)) path m \<noteq> Inl Panic" for n
    using verify_zc_loop_safe [of "min n (zc_capacity z)" "zc_buf z"]
    by (simp add: verify_zero_copy_def verify_zero_copy_at_def zc_capacity_def)
  then show ?thesis by (auto simp: verify_landed_def split: option.splits sum.splits)
qed

text \<open>A wait comes back, at the latest with its deadline, and keeps the endpoint.\<close>

lemma await_completion_ok:
  assumes "write_ok (a_stream a)" and "\<And>w b. w \<in> set ws \<Longrightarrow> write_ok (a_stream b) \<Longrightarrow> write_ok (a_stream (w b))"
  shows "\<exists>r b. await_completion ws a = Some (r, b) \<and> write_ok (a_stream b) \<and> r \<noteq> Some (Inl Panic)"
  using assms
proof (induction ws arbitrary: a)
  case Nil
  obtain r b where p: "poll_split_completion a = Some (r, b)" using polls_return(4) [of a] by blast
  then show ?case
    using wr.poll_functions_safe(4) [OF Nil(1) p]
    by (cases r) (auto simp: await_completion.simps poll_outcome_def)
next
  case (Cons w ws)
  obtain r b where p: "poll_split_completion a = Some (r, b)" using polls_return(4) [of a] by blast
  note ok = wr.poll_functions_safe(4) [OF Cons(2) p]
  show ?case
  proof (cases r)
    case Pending
    then have "write_ok (a_stream (w b))" using ok Cons(3) by (simp add: poll_outcome_def)
    from Cons(1) [OF this] Cons(3) show ?thesis using p Pending by (simp add: await_completion.simps [of "w # ws"])
  qed (use p ok in \<open>simp add: await_completion.simps poll_outcome_def\<close>)
qed

lemma collect_split_loop_ok:
  assumes "write_ok (a_stream a)"
    and "\<And>k w b. w \<in> set (waits k) \<Longrightarrow> write_ok (a_stream b) \<Longrightarrow> write_ok (a_stream (w b))"
  shows "\<exists>r b. collect_split_loop waits reqs object_size path seen good a = Some (r, b)
    \<and> write_ok (a_stream b) \<and> r \<noteq> Inl Panic"
  using assms
proof (induction waits reqs object_size path seen good a rule: collect_split_loop.induct)
  case (1 waits reqs object_size path seen good a)
  show ?case
  proof (cases "length seen < length reqs")
    case False
    then show ?thesis using 1(2) by (simp add: collect_split_loop.simps)
  next
    case True
    obtain r b where aw: "await_completion (waits (length seen)) a = Some (r, b)" "write_ok (a_stream b)" "r \<noteq> Some (Inl Panic)"
      using await_completion_ok [OF 1(2)] 1(3) by blast
    show ?thesis
    proof (cases "\<exists>i v. r = Some (Inr (Some i)) \<and> i \<notin> set seen \<and> unat i < length reqs
        \<and> verify_landed (reqs ! unat i) object_size path (smem (a_stream b)) = Inr v")
      case True': True
      then obtain i v where i: "r = Some (Inr (Some i))" "i \<notin> set seen" "unat i < length reqs"
        "verify_landed (reqs ! unat i) object_size path (smem (a_stream b)) = Inr v" by blast
      have "\<not> length reqs \<le> unat i" using i(3) by simp
      note IH = 1(1) [OF True aw(1) refl i(1) refl refl i(2) this i(4) aw(2)]
      have "collect_split_loop waits reqs object_size path seen good a =
          collect_split_loop waits reqs object_size path (i # seen) (if v then good + 1 else good) b"
        using True i aw(1) by (subst collect_split_loop.simps) simp
      then show ?thesis using IH 1(3) by simp
    next
      case False
      then show ?thesis
        using True aw verify_landed_safe
        by (subst collect_split_loop.simps) (auto simp: not_le split: option.split sum.split)
    qed
  qed
qed

section \<open>Every transfer is collected once\<close>

lemma verify_landed_holds:
  assumes "verify_landed z (size_from_path path) path m = Inr v" and "size_from_path path \<noteq> None"
  shows "v"
proof -
  obtain n where n: "size_from_path path = Some n" using assms(2) by blast
  have "verify_zc_loop buf base k off m \<noteq> Inr (Inr False)" for buf base k off
    by (induction buf base k off m rule: verify_zc_loop.induct)
       (subst verify_zc_loop.simps, auto simp: Let_def split: sum.split option.split)
  then show ?thesis
    using assms(1) n by (cases v) (auto simp: verify_landed_def verify_zero_copy_def verify_zero_copy_at_def split: sum.splits)
qed

text \<open>
  A collection that succeeds has seen each transfer exactly once, none that was not asked for,
  and, where the object's size is known, has verified every payload.
\<close>

lemma collect_split_loop_once:
  assumes "collect_split_loop waits reqs object_size path seen good a = Some (Inr (seen', good'), b)"
    and "distinct seen" "\<forall>i \<in> set seen. unat i < length reqs"
    and "size_from_path path \<noteq> None" "object_size = size_from_path path" "good = length seen"
  shows "distinct seen' \<and> unat ` set seen' = {..<length reqs} \<and> good' = length reqs"
  using assms
proof (induction waits reqs object_size path seen good a rule: collect_split_loop.induct)
  case (1 waits reqs object_size path seen good a)
  have card: "card (unat ` set xs) = length xs" if "distinct xs" for xs :: "u32 list"
    using that distinct_card [of xs] by (subst card_image) (auto simp: inj_on_def word_unat_eq_iff)
  have sub: "unat ` set seen \<subseteq> {..<length reqs}" using 1(4) by auto
  show ?case
  proof (cases "length seen < length reqs")
    case False
    then have ends: "seen' = seen" "good' = good" using 1(2) by (simp_all add: collect_split_loop.simps)
    have "length seen \<le> length reqs" using card_mono [OF _ sub] card [OF 1(3)] by simp
    with False have len: "length seen = length reqs" by simp
    then have "unat ` set seen = {..<length reqs}"
      using card [OF 1(3)] sub by (intro card_subset_eq) simp_all
    then show ?thesis using ends 1(3,7) len by simp
  next
    case True
    obtain r c where aw: "await_completion (waits (length seen)) a = Some (r, c)"
      using 1(2) True by (subst (asm) collect_split_loop.simps) (auto split: option.splits)
    obtain i v where i: "r = Some (Inr (Some i))" "i \<notin> set seen" "\<not> length reqs \<le> unat i"
        "verify_landed (reqs ! unat i) object_size path (smem (a_stream c)) = Inr v"
      and rest: "collect_split_loop waits reqs object_size path (i # seen) (if v then good + 1 else good) c = Some (Inr (seen', good'), b)"
      using 1(2) True aw by (subst (asm) collect_split_loop.simps) (auto split: option.splits sum.splits if_splits)
    have v: v by (rule verify_landed_holds [of _ path]) (use i(4) 1(5,6) in simp_all)
    show ?thesis
      by (rule 1(1) [OF True aw refl i(1) refl refl i(2-4) rest]) (use v i(2,3) 1(3-7) in auto)
  qed
qed

text \<open>The transfers are advertised under their indices, each with a destination of its own.\<close>

lemma register_split_ids:
  assumes "register_split is cap a = (Inr zs, b)"
  shows "map (\<lambda>z. (req_id (zc_request z), zc_capacity z)) zs = map (\<lambda>i. (Some (of_nat i), cap)) is"
  using assms
proof (induction "is" arbitrary: a zs)
  case (Cons i "is")
  obtain r c where reg: "async_register_remote_writable cap a = (r, c)" by (rule prod.exhaust)
  with Cons(2) obtain buf zs' where r: "r = Inr buf" and rest: "register_split is cap c = (Inr zs', b)"
    and zs: "zs = zc_with_id (of_nat i) (zc_from_buffer buf) # zs'"
    by (auto simp: and_then_def split: sum.splits prod.splits)
  have "rb_len buf = cap"
    using reg r by (auto simp: async_register_remote_writable_def on_stream_def register_remote_writable_def on_conn_eq
        register_buffer_def Let_def split: prod.splits if_splits)
  then show ?case
    using Cons(1) [OF rest] zs by (simp add: zc_request_def zc_with_id_def zc_from_buffer_def zc_capacity_def)
qed simp

lemma collect_split_map:
  "collect_split_completions waits reqs object_size path a =
     map_option (\<lambda>(r, b). (map_sum id snd r, b)) (collect_split_loop waits reqs object_size path [] 0 a)"
proof (cases "collect_split_loop waits reqs object_size path [] 0 a")
  case (Some p)
  then show ?thesis
    by (cases "fst p") (auto simp: collect_split_completions_def then_loop_def split: prod.split)
qed (simp add: collect_split_completions_def then_loop_def)

lemma run_split_all:
  assumes "run_split io builds waits server path buf_len cnt a = Some (Inr good, b)" and "size_from_path path \<noteq> None"
  shows "good = cnt"
proof -
  from assms(1) obtain cap reqs a2 where reg: "fst (register_split [0..<cnt] cap a) = Inr reqs"
    and col: "collect_split_completions waits reqs (size_from_path path) path a2 = Some (Inr good, b)"
    unfolding run_split_def Let_def then_loop_def
    by (auto split: if_splits sum.splits prod.splits)
  obtain seen where "collect_split_loop waits reqs (size_from_path path) path [] 0 a2 = Some (Inr (seen, good), b)"
    using col unfolding collect_split_map by (auto split: prod.splits) (metis (no_types, lifting) map_sum.simps(1,2) old.sum.exhaust prod.collapse sum.distinct(1) sum.inject(2))
  then have "good = length reqs" using collect_split_loop_once [OF _ _ _ assms(2)] by fastforce
  moreover have "length reqs = cnt"
    using arg_cong [OF register_split_ids [of "[0..<cnt]" cap a reqs "snd (register_split [0..<cnt] cap a)"], of length] reg
    by (simp add: prod_eq_iff)
  ultimately show ?thesis by simp
qed

end
