(* ===== verification/Demo_Correctness.thy ===== *)
theory Demo_Correctness
  imports Demo_Client_Async Example_Async
begin

text \<open>
  The properties of the demo programs: the two servers answer alike, the async server serves
  request after request, a response reaches the client whole, and the splitting client collects
  every transfer once.
\<close>

section \<open>Examples\<close>

definition ex_builds :: head_check where "ex_builds status hs \<longleftrightarrow> True"

lemma ex_builds_accepts: "accepts ex_builds"
  by (simp add: accepts_def ex_builds_def)

definition ex_get :: http_request where
  "ex_get = \<lparr>hq_method = ''GET'', hq_path = ''/size/3'', hq_header = (\<lambda>_. None)\<rparr>"

lemma show_3: "show_radix 10 3 = ''3''" by code_simp

lemma ex_route: "route_of g neg ''GET'' ''/size/3'' None None
    = OnStream 200 ''application/octet-stream'' (pattern_fill_from 3 0) None None"
proof -
  have "strip_prefix ''/size/'' ''/size/3'' = Some ''3''" "parse_usize ''3'' = Some 3"
    using parse_usize_show [of 3] by (simp_all add: show_3)
  then show ?thesis by (simp add: route_of_def asked_part_def MAX_BODY_def)
qed

text \<open>An endpoint with one large message received: a response of three bytes.\<close>

definition ex_response_head :: string where
  "ex_response_head = http_head (status_line 200 ''OK'') (respond_headers 3 ''application/octet-stream'' None None)"

definition ex_response :: bytes where
  "ex_response = text_bytes ex_response_head @ pattern_fill_from 3 0"

definition ex_answered :: hord_stream where
  "ex_answered = ex_stream
     \<lparr>conn := ex_conn\<lparr>mem := write_mem (\<lambda>_. 0) 8 ex_response, rq := [], regions := [], brk := 2000\<rparr>,
      msg_size := 256, payload_cap := 248, recv_pool := 0, split_base := 2,
      recv := \<lparr>rb_addr = 0, rb_len = 512, rb_lkey = 1, rb_rkey = 1\<rparr>,
      send := \<lparr>rb_addr = 512, rb_len = 768, rb_lkey = 2, rb_rkey = 2\<rparr>,
      hs_buf := \<lparr>rb_addr = 1300, rb_len = 64, rb_lkey = 3, rb_rkey = 3\<rparr>,
      rx_ready := [\<lparr>rm_slot = 0, rm_start = 8, rm_end = 8 + length ex_response\<rparr>]\<rparr>"


lemma ex_head_text: "ex_response_head = ''HTTP/1.1 200 OK'' @ CRLF @ ''Content-Type: application/octet-stream'' @ CRLF
    @ ''Content-Length: 3'' @ CRLF @ ''Connection: close'' @ CRLF @ CRLF"
  by (simp add: ex_response_head_def http_head_def status_line_def respond_headers_def header_line_def status_text show_3)

lemma ex_response_length: "length ex_response = 100"
  by (simp add: ex_response_def ex_head_text text_bytes_def pattern_fill_from_def CRLF_def)

lemma ex_head_ascii: "ascii ex_response_head"
  by (simp add: ascii_def ex_head_text CRLF_def)

definition ex_utf8 :: "bytes \<Rightarrow> string" where "ex_utf8 bs = map (\<lambda>b. char_of (unat b)) bs"

lemma ex_decodes: "decodes_ascii ex_utf8"
  by (simp add: decodes_ascii_def ex_utf8_def text_bytes_def o_def)

lemma ex_answered_rx: "rx_bytes ex_answered = ex_response"
  by (simp add: rx_bytes_def msg_bytes_def slot_buf_def ex_answered_def ex_read_own)

lemma ex_answered_ok: "queue_ok ex_answered"
proof -
  have layout: "layout_ok ex_answered"
    by (simp add: layout_ok_def span_disjoint_def pool_buffers_def ex_answered_def)
  have owned: "recv_owned ex_answered = {#0#}" "send_owned ex_answered = {#0, 1#}" "ctrl_in_flight ex_answered = 0"
    by (simp_all add: ex_answered_def owned_defs slot_bound_def wr_id_simps del: One_nat_def)
  have geo: "geometry ex_answered"
    by (simp add: geometry_def ENVELOPE_LEN_def CTRL_SEND_SLOTS_def slot_bound_def ex_answered_def)
  have posted: "recv_posted_ok ex_answered"
    by (simp add: recv_posted_ok_def ex_answered_def)
  have slots: "recv_slots ex_answered = 2" "send_pool ex_answered = 2" by (simp_all add: ex_answered_def recv_slots_def)
  have "stream_ok ex_answered"
    unfolding stream_ok_def owned slots ex_recv_slots using geo posted
    by (simp add: cq_ok_def u32_max_def ready_ok_def ex_answered_def recv_slots_def slot_off_def ENVELOPE_LEN_def
        ex_response_length del: mset_upt One_nat_def)
  with layout show ?thesis by (simp add: queue_ok_def)
qed

section \<open>The servers\<close>







text \<open>
  C21. A connection of the async server stays intact over any number of requests. Whatever hyper
  does with it, the handler neither panics nor fails to return, the endpoint keeps its invariant,
  between requests the source pool has all its buffers, a body is answered with success only
  after the NIC is done with it, and a handler dropped half way leaves no write behind.
\<close>

theorem async_server_invariant:
  assumes "accepts builds" and "world_ok (a_stream a)"
    and "(hyper_step builds)\<^sup>*\<^sup>* (Idle, source_pool_new SOURCE_POOL_CAP SOURCE_POOL_BUF_SIZE, a) (ph, pa)"
  shows "connection_ok (ph, pa)
    \<and> (ph = Idle \<longrightarrow> (\<forall>q. \<exists>h pa'. serve_async builds q pa = (Inr h, pa')))
    \<and> (\<forall>z. ph = Handling z \<longrightarrow> (\<exists>h pa'. poll_handler builds z pa = Some (Inr h, pa')
         \<and> (\<forall>r. h = Answered r \<and> rs_status r \<in> {200, 206} \<longrightarrow> write_ids (a_stream (snd pa')) = {#})))"
proof -
  have ok: "connection_ok (ph, pa)" by (rule hyper_steps_ok [OF assms(1,3) connection_ok_new [OF assms(2)]])
  have "\<exists>h pa'. serve_async builds q pa = (Inr h, pa')" if "ph = Idle" for q
    using serve_async_safe [OF assms(1) ok [unfolded that], of q "fst (serve_async builds q pa)" "snd (serve_async builds q pa)"]
    by (metis prod.collapse)
  moreover have "\<exists>h pa'. poll_handler builds z pa = Some (Inr h, pa')
      \<and> (\<forall>r. h = Answered r \<and> rs_status r \<in> {200, 206} \<longrightarrow> write_ids (a_stream (snd pa')) = {#})" if "ph = Handling z" for z
    using poll_handler_safe [OF assms(1) ok [unfolded that]] by blast
  ultimately show ?thesis using ok by blast
qed

theorem async_server_invariant_witness:
  "\<exists>pa. (hyper_step ex_builds)\<^sup>*\<^sup>* (Idle, source_pool_new SOURCE_POOL_CAP SOURCE_POOL_BUF_SIZE, ex_async ex_writer) (Idle, pa)
     \<and> connection_ok (Idle, pa) \<and> (\<forall>q. \<exists>h pa'. serve_async ex_builds q pa = (Inr h, pa'))"
proof -
  let ?pa = "(source_pool_new SOURCE_POOL_CAP SOURCE_POOL_BUF_SIZE, ex_async ex_writer)"
  have "takes_route ex_builds (OnStream 200 ''application/octet-stream'' (pattern_fill_from 3 0) None None) ?pa
      (serve_async ex_builds ex_get ?pa)"
    using serve_async_routed [OF ex_builds_accepts, of ?pa ex_get] by (simp add: ex_get_def ex_route del: takes_route.simps)
  then obtain r where "serve_async ex_builds ex_get ?pa = (Inr (Answered r), ?pa)" by auto
  then have "(hyper_step ex_builds)\<^sup>*\<^sup>* (Idle, ?pa) (Idle, ?pa)"
    using hyper_step.request [of ex_builds ex_get ?pa "Answered r" ?pa] by (simp add: phase_of_def)
  from this async_server_invariant [OF ex_builds_accepts _ this] ex_writer_ok show ?thesis by auto
qed

section \<open>The clients\<close>

text \<open>
  A buffer the client offers reaches the server as it was registered: the request the client
  prints is parsed, and a server that has negotiated zero copy writes the part of the object that
  was asked for to exactly the address, key and length in it.
\<close>

theorem offer_reaches_server:
  assumes "request_ok server path rng" and "strip_prefix ''/size/'' path = Some rest" and "parse_usize rest = Some n"
    and "n \<le> MAX_BODY" and "zero_copy_negotiated (snd ps)"
    and "asked_part (map_option (\<lambda>spec. ''bytes='' @ spec) rng) n = Some (base, len, part)"
  shows "\<exists>h. head_parse (build_request server path rng (Some z)) = Inr h
    \<and> answer_request h ps = serve_size_zero_copy (zc_request z) base len n part ps"
proof -
  have "path \<noteq> ''/''" using assms(2) by auto
  then show ?thesis
    using assms
    by (auto simp: request_round_trip answer_request_routed request_headers_lookup route_of_def parse_req_header_value)
qed

text \<open>
  C38. A response of the server that has arrived reaches the client whole: when the device takes
  what is posted, the response is read without waiting for more, and its body is delivered with
  its length, taken from the stream, and verified at its offset in the object.
\<close>

theorem answer_delivered:
  assumes "decodes_ascii utf8" and "ascii (http_head (status_line status reason) (respond_headers len ct zc cr))"
    and "length (http_head (status_line status reason) (respond_headers len ct zc cr)) \<le> MAX_HEAD_BYTES"
    and "CHR 0x0D \<notin> set reason" and "field_value ct" and "\<And>v. cr = Some v \<Longrightarrow> field_value v"
    and "status = 200 \<or> status = 206" and "len \<le> u64_max" and "size_from_path path \<noteq> None"
    and "queue_ok s" and "posts_work (conn s)"
    and "rx_bytes s = text_bytes (http_head (status_line status reason) (respond_headers len ct zc cr))
      @ pattern_fill_from len base"
  shows "\<exists>s'. read_response utf8 None base path s
    = Some (Inr (Delivered \<lparr>body_len = len, source = ByStream, verified = True\<rparr>), s')"
  using response_delivered [of utf8 status reason len ct zc cr path s base] assms by blast

theorem answer_delivered_witness:
  "\<exists>s'. read_response ex_utf8 None 0 ''/size/3'' ex_answered
     = Some (Inr (Delivered \<lparr>body_len = 3, source = ByStream, verified = True\<rparr>), s')"
proof -
  have "size_from_path ''/size/3'' \<noteq> None"
    using parse_usize_show [of 3] by (simp add: size_from_path_def show_3)
  moreover have "length (http_head (status_line 200 ''OK'') (respond_headers 3 ''application/octet-stream'' None None)) \<le> MAX_HEAD_BYTES"
    using ex_response_length by (simp add: ex_response_def ex_response_head_def MAX_HEAD_BYTES_def)
  moreover have "posts_work (conn ex_answered)" by (simp add: posts_work_def ex_answered_def)
  ultimately show ?thesis
    using answer_delivered [OF ex_decodes, of 200 "''OK''" 3 "''application/octet-stream''" None None "''/size/3''" ex_answered 0]
      ex_head_ascii ex_answered_ok ex_answered_rx octet_field(1)
    by (simp add: ex_response_def ex_response_head_def)
qed

text \<open>
  C32. The collection of split transfers ends, at the latest when a deadline passes, without a
  panic and with the endpoint intact; and when it succeeds on an object of known size, every
  transfer that was asked for has completed exactly once, no other has, and every payload was
  verified.
\<close>

theorem split_collected_once:
  assumes "write_ok (a_stream a)"
    and "\<And>k w b. w \<in> set (waits k) \<Longrightarrow> write_ok (a_stream b) \<Longrightarrow> write_ok (a_stream (w b))"
    and "size_from_path path \<noteq> None"
  shows "\<exists>r b. collect_split_loop waits reqs (size_from_path path) path [] 0 a = Some (r, b)
    \<and> collect_split_completions waits reqs (size_from_path path) path a = Some (map_sum id snd r, b)
    \<and> write_ok (a_stream b) \<and> r \<noteq> Inl Panic
    \<and> (\<forall>seen good. r = Inr (seen, good) \<longrightarrow>
         distinct seen \<and> unat ` set seen = {..<length reqs} \<and> good = length reqs)"
proof -
  obtain r b where run: "collect_split_loop waits reqs (size_from_path path) path [] 0 a = Some (r, b)"
    "write_ok (a_stream b)" "r \<noteq> Inl Panic"
    using collect_split_loop_ok [OF assms(1), of waits] assms(2) by blast
  then show ?thesis
    using collect_split_loop_once [of waits reqs "size_from_path path" path "[]" 0 a _ _ b] assms(3)
    by (fastforce simp: collect_split_map)
qed

definition ex_landed :: async_stream where
  "ex_landed = ex_async (ex_stream\<lparr>completed_transfers := [0]\<rparr>)"

definition ex_dest :: zero_copy_request where
  "ex_dest = zc_with_id 0 (zc_from_buffer \<lparr>rb_addr = 180, rb_len = 20, rb_lkey = 4, rb_rkey = 4\<rparr>)"

lemma ex_landed_ok: "write_ok (a_stream ex_landed)"
  using wr.P_take [OF ex_write_ok] by (simp add: ex_landed_def)

lemma ex_size_0: "size_from_path ''/size/0'' = Some 0"
  by (simp add: size_from_path_def zero_parsed)

lemma ex_collected:
  obtains b where "collect_split_loop (\<lambda>_. []) [ex_dest] (Some 0) ''/size/0'' [] 0 ex_landed = Some (Inr ([0], 1), b)"
  by (simp add: collect_split_loop.simps await_completion.simps poll_split_completion_def poll_until.simps on_stream_def
      next_transfer_def next_completed_transfer_def ex_landed_def verify_landed_def verify_zero_copy_def
      verify_zero_copy_at_def ex_size_0 verify_zc_loop.simps Let_def)

theorem split_collected_once_witness:
  "\<exists>b. collect_split_loop (\<lambda>_. []) [ex_dest] (Some 0) ''/size/0'' [] 0 ex_landed = Some (Inr ([0], 1), b)
     \<and> collect_split_completions (\<lambda>_. []) [ex_dest] (Some 0) ''/size/0'' ex_landed = Some (Inr 1, b)
     \<and> write_ok (a_stream b)"
proof (rule ex_collected)
  fix b assume "collect_split_loop (\<lambda>_. []) [ex_dest] (Some 0) ''/size/0'' [] 0 ex_landed = Some (Inr ([0], 1), b)"
  then show ?thesis using split_collected_once [OF ex_landed_ok, of "\<lambda>_. []" "''/size/0''" "[ex_dest]"] by (simp add: ex_size_0)
qed

end
