(* ===== verification/Spec2Isabelle.thy ===== *)
theory Spec2Isabelle
  imports Async_Correctness Demo_Correctness
begin

text \<open>
  \<^bold>\<open>HORD: a byte stream, one-sided writes and HTTP over RDMA.\<close>

  \<^bold>\<open>The program.\<close> HORD carries a byte stream over an RDMA reliable connection. Each end registers a
  pool of receive slots and a pool of send slots; a message is an 8-byte envelope and a payload,
  sent from one slot into one slot of the peer; credits in the envelope say how many slots the
  peer has. The first message of each end is a 16-byte handshake that negotiates sizes, zero
  copy and split mode. On top of the stream a server can deliver a body by writing it into
  memory the client has registered and named in an HTTP header (\<open>X-HORD-RDMA-Write\<close>), plainly or
  with a 32-bit immediate that signals the transfer on the client's completion queue (split
  mode). The crates: \<open>hord-core\<close> (verbs and connection manager), \<open>hord-stream\<close> (the stream and the
  writes), \<open>hord-zerocopy\<close> (header codec, policy, source pool), \<open>hord-async\<close> (the same stream under a
  poll-based reactor, split handles, a server runtime), \<open>hord-demo\<close> (HTTP helpers, two servers,
  two clients).

  \<^bold>\<open>How the code is modelled.\<close> A struct is a record, an enum a datatype, \<open>u8\<close> to \<open>u64\<close> are words
  where their width matters (envelopes, identifiers, keys, credits on the wire) and naturals
  with explicit bounds elsewhere. A method on \<open>&mut self\<close> is a function from the state to the
  result and the state it leaves, on the error path too. Errors are values: \<open>'a res\<close> is \<open>fault + 'a\<close>,
  where a fault is an \<open>io::Error\<close> kind or \<open>Panic\<close>; every index out of range, failed \<open>expect\<close> and
  \<open>unreachable!\<close> of the sources is a branch that yields \<open>Panic\<close>, and the safety theorems show that
  it is not reached. The environment is explicit: a connection holds scripts of what its NIC
  reports (arrivals, completions, at most one batch per poll), of what the connection manager
  reports, and of which verbs fail; an async stream adds scripts of what its two fds and the arm
  calls report. The theorems hold for every script, so for every peer, device and timing.
  Concurrency on one thread (tasks, handles, pump, hyper) is interleaving of steps.

  \<^bold>\<open>Loops, bounds and fuel.\<close> A loop over data is a \<open>fun\<close> or a \<open>function\<close> with a measure. A loop that may
  wait forever is a \<open>partial_function (option)\<close>, with \<open>None\<close> for not returning; what such a loop
  returns is proved by its induction rule, and that it returns is proved separately (the blocking
  calls in \<open>Release\<close>, the polls in \<open>Async_Stream\<close> and \<open>Write_Future\<close>, the collection of transfers and the
  reading of a response in the demo theories). There is no fuel: busy-polling ends when the
  script of the NIC is consumed or the CM channel reports the end, which the measures of
  \<open>Release\<close> and \<open>Reactor\<close> count.
  The one budget is the handshake's deadline, a number of idle polls.

  \<^bold>\<open>The theories.\<close>

  \<^item> \<open>Hord_Prelude\<close>: machine integers, faults, \<open>and_then\<close> and \<open>then_loop\<close> (the \<open>?\<close> operator), lists, maps of
    addresses to bytes. \<open>Rust_Text\<close>: \<open>trim\<close>, \<open>split_once\<close>, \<open>strip_prefix\<close>, checked integer parsing and
    printing. \<open>Wire_Codec\<close>: the locale of a fixed-length codec.
  \<^item> \<open>Envelope\<close>, \<open>Handshake\<close>: \<open>envelope.rs\<close> and \<open>handshake.rs\<close>, with exact codecs.
  \<^item> \<open>Transport\<close>: \<open>hord-core/src/lib.rs\<close>: registered memory, posting, polling, arming, the CM channel,
    connecting, accepting, shutting down. \<open>Listener\<close>: the listening endpoint and the registry of
    shared protection domains.
  \<^item> \<open>Work_Request\<close>: the lanes of a work-request identifier. \<open>Hord_Stream\<close>: configuration, sizing,
    construction, handshake, negotiation, completion handling, credits and posting of
    \<open>hord-stream/src/stream.rs\<close>. \<open>Stream_Ops\<close>: \<open>try_read\<close>, \<open>try_write\<close>, \<open>try_flush_stage\<close> and the blocking
    \<open>read\<close>, \<open>write\<close>, \<open>flush\<close>. \<open>Gather\<close>: segments, admission, packing, batches and the driver of
    one-sided writes.
  \<^item> \<open>Stream_Property\<close>: the locales \<open>pump_property\<close>, \<open>stream_property\<close> and \<open>stream_safe\<close>: a predicate
    that the elementary steps keep is kept by every operation, which then does not panic. They
    are interpreted for the endpoint invariant (\<open>Endpoint\<close>), the byte queues (\<open>Byte_Queue\<close>), the
    account of writes (\<open>Write_Safety\<close>) and what stays fixed while a source is lent.
  \<^item> \<open>Endpoint\<close>: geometry of the pools, exclusive ownership of every slot, bounds. \<open>Byte_Queue\<close>: the
    abstraction of an endpoint to two byte queues, and that operations dequeue and enqueue.
    \<open>Setup\<close>: set-up establishes all this (the staged accept of the async server is in
    \<open>Accept_Async\<close>). \<open>Blocking\<close>: the laws of the blocking calls.
    \<open>Release\<close>: blocked calls return. \<open>Sizing\<close>: queue depths, and that set-up builds the pools the
    configuration asks for. \<open>Endpoint_Run\<close>: the life of an endpoint as an inductive predicate
    (set-up, then operations in any order with any environment); what it reaches satisfies the
    invariant and keeps its size.
  \<^item> \<open>Header_Codec\<close>: \<open>hord-zerocopy/src/lib.rs\<close>. \<open>Zero_Copy\<close>: \<open>rdma.rs\<close>, with the pool as a
    \<open>lender\<close>. \<open>Serving\<close>: serving a body end to end.
  \<^item> \<open>Reactor\<close>, \<open>Async_Stream\<close>: \<open>poll_reactor\<close> and the poll functions of \<open>hord-async/src/lib.rs\<close>.
    \<open>Write_Future\<close>, \<open>Async_Serve\<close>: writes and serving as futures; \<open>serve_run\<close> is a body on its way
    through any number of pending polls, and cancelling one drops the locals it holds
    (\<open>held_locals\<close>) last declared first, recording the state each drop finds.
    \<open>Split_Pump\<close>: read half, write half, data plane and pump task as an interleaving with wakers;
    the ghost field \<open>sy_failed\<close> records that a handle's refused post closed the stream, which the
    code tells nobody. \<open>Accept_Async\<close>: the staged accept. \<open>Acceptor\<close>: \<open>listener.rs\<close>, the accept
    loop, the dealing of connections and the workers.
  \<^item> \<open>Http_Demo\<close>, \<open>Http_Text\<close>: \<open>hord-demo/src/lib.rs\<close> and heads as text; the locales \<open>byte_source\<close> and
    \<open>buffered_source\<close> say what a reader relies on; \<open>posts_work\<close> says that the device takes what is
    posted. \<open>Demo_Server\<close>, \<open>Demo_Client\<close>, \<open>Demo_Server_Async\<close>,
    \<open>Demo_Client_Async\<close>: the four programs of \<open>hord-demo/src/bin\<close>; \<open>Demo_Correctness\<close>: the locale
    \<open>routed_server\<close> both servers interpret, and the properties of the programs. \<open>says\<close> is what a
    client reads in the head of a message, \<open>carries\<close> what a response of hyper's carries;
    \<open>follows_blocking\<close> and \<open>follows_async\<close> say with them what each server sends for a route.
  \<^item> \<open>Example_State\<close>, \<open>Example_Async\<close>: a small endpoint the witnesses run. \<open>Async_Correctness\<close>: the
    properties of \<open>hord-async\<close>. This theory: the properties of the blocking stack.

  \<^bold>\<open>What is shown.\<close> One end keeps its invariant and never panics against any peer and device, in
  its blocking and its async form; the bytes read are the bytes received, in order, and the
  bytes accepted for writing are queued once, in order; end of stream is reported only when the
  connection is closed and drained; the NIC never writes over unread or queued bytes, and a
  source is given back only when no write of it is in flight, except on the paths the error
  properties name; polls always return, and blocked calls do once the end of the connection is
  on its way; the server runtime stays within its bounds and
  tears every connection down; and the programs on top answer, deliver and verify as meant.
  Where the code does not do what it says (a flush that reports a failed send as delivered, a
  driven write that returns with writes in flight, a message admitted to a full send queue, split mode
  that the ends disagree on, a handle left parked on a closed connection, a shared region that a
  connection on a second device cannot use), a theorem exhibits it.

  \<^bold>\<open>Parameters.\<close> Code outside the repository is an argument: what \<open>String::from_utf8_lossy\<close> makes of
  bytes (\<open>decodes_ascii\<close> is what is relied on), hyper's response builder (\<open>accepts\<close>) and exchange
  (\<open>client_io\<close>), the filler of a source (\<open>fills\<close>), the host's answer on parallelism.

  \<^bold>\<open>Not modelled.\<close> Logging, progress and summary output, timing and throughput, message texts of
  errors, environment variables; building runtimes and threads, Ctrl-C and the back-off sleep;
  accessors that read one field; ibverbs, librdmacm, tokio and hyper themselves, whose
  behaviour is in the scripts and parameters; memory reclamation by reference counts, except
  that a registration lives until its buffer is dropped; the depth of the send queue, which a
  device enforces by refusing a post (a scripted fault), and the casts of the depths to \<open>u32\<close>. The unit and integration tests are
  not part of the model.
\<close>

section \<open>Set-up and negotiation\<close>

text \<open>
  C1. Set-up establishes the invariant: a connection with idle queues that \<open>from_accepted\<close> or
  \<open>connect\<close> turns into a stream satisfies every invariant of this development, whatever the
  peer sends during the handshake and however the device behaves.
\<close>

theorem setup_establishes_invariant:
  assumes "fresh_conn c" and "config_ok cfg"
    and "from_accepted budget now c cfg = Inr s \<or> hord_connect budget now addr_ok c cfg = Inr s"
  shows "world_ok s \<and> write_ok s \<and> stream_ok s"
  using from_accepted_world [OF assms(1,2)] hord_connect_world [OF assms(1,2)] assms(3)
  by (auto simp: world_ok_def write_ok_def queue_ok_def)

theorem setup_establishes_invariant_witness:
  "\<exists>s. from_accepted 0 0 ex_fresh ex_config = Inr s \<and> split_mode s \<and> world_ok s"
proof (rule ex_setup)
  fix s assume "from_accepted 0 0 ex_fresh ex_config = Inr s" "split_mode s"
  with setup_establishes_invariant [OF ex_fresh_ok ex_config_ok, of 0 0 s] show ?thesis by blast
qed

text \<open>
  C33. Two ends that exchange the handshakes of their configurations agree on zero copy, and,
  when neither enables split mode with an empty transfer window, on split mode; the peer
  learns the receive window of a pool below \<open>2 ^ 16\<close> exactly.
\<close>

theorem negotiation_agrees:
  assumes "cfg_split_mode a \<longrightarrow> 0 < cfg_split_credits a" and "cfg_split_mode b \<longrightarrow> 0 < cfg_split_credits b"
    and "recv_pool_size a < 2 ^ 16"
  defines "zc \<equiv> cfg_zero_copy a \<and> zero_copy_capable (my_handshake b)"
  shows "zc = (cfg_zero_copy b \<and> zero_copy_capable (my_handshake a))
    \<and> negotiate_split (cfg_split_mode a) zc (my_handshake b) = negotiate_split (cfg_split_mode b) zc (my_handshake a)
    \<and> unat (hs_max_recv_buffers (my_handshake a)) = recv_pool_size a"
  using assms(1,2,3) unfolding zc_def
  by (auto simp: negotiate_split_def my_handshake_zero_copy my_handshake_split my_handshake_window)

theorem negotiation_agrees_witness:
  "negotiate_split True True (my_handshake hord_config_default) = negotiate_split True True (my_handshake ex_config)"
proof -
  have cfg: "cfg_split_mode ex_config" "0 < cfg_split_credits ex_config" "recv_pool_size ex_config < 2 ^ 16"
    "cfg_zero_copy ex_config" "cfg_split_mode hord_config_default" "0 < cfg_split_credits hord_config_default"
    "zero_copy_capable (my_handshake hord_config_default)"
    by (simp_all add: ex_config_def hord_config_default_def my_handshake_zero_copy)
  then show ?thesis using negotiation_agrees [of ex_config hord_config_default] by simp
qed

text \<open>
  Without that side condition the ends disagree: an end that enables split mode with a
  zero transfer window advertises no split mode, so its peer declines, but keeps its own flag
  and takes split mode as negotiated.
\<close>

theorem split_negotiation_gap:
  "let a = hord_config_default\<lparr>cfg_split_credits := 0\<rparr>; b = hord_config_default in
     negotiate_split (cfg_split_mode a) (cfg_zero_copy a \<and> zero_copy_capable (my_handshake b)) (my_handshake b)
     \<and> \<not> negotiate_split (cfg_split_mode b) (cfg_zero_copy b \<and> zero_copy_capable (my_handshake a)) (my_handshake a)"
  by (simp add: Let_def negotiate_split_def my_handshake_zero_copy my_handshake_split hord_config_default_def)

text \<open>
  A receive pool of \<open>2 ^ 16\<close> buffers is advertised as no window at all: the cast to
  \<open>u16\<close> wraps.
\<close>

theorem advertised_window_wraps:
  "unat (hs_max_recv_buffers (my_handshake cfg)) = recv_pool_size cfg mod 2 ^ 16"
  by (rule my_handshake_window)

text \<open>
  Waiting for a CM event is exact: it succeeds only when the first thing the channel
  reports, after any number of empty polls, is the awaited event with a working acknowledgement.
\<close>

theorem wait_event_exact:
  assumes "fst (wait_event want timeout c) = Inr ()"
  shows "wait_outcome want (cm_events c) = Some True"
  using assms wait_event_loop_success [of want timeout "c\<lparr>cm_faults := snd (next_fault (cm_faults c))\<rparr>"]
  by (auto simp: wait_event_def cm_call_def and_then_def split: prod.splits sum.splits if_splits)

text \<open>
  However often and in whatever order \<open>disconnect\<close> and \<open>shutdown\<close> are called, at most one
  disconnect is sent, and after a \<open>shutdown\<close> no work request can be posted any more.
\<close>

theorem disconnect_once:
  "disconnects_sent (fold (\<lambda>b. if b then shutdown else disconnect) bs c)
     = disconnects_sent c + (if disconnected c \<or> bs = [] then 0 else 1)
   \<and> fst (post_send i a l k (shutdown c)) = Inl (io_err ErrOther)
   \<and> fst (post_recv i a l k (shutdown c)) = Inl (io_err ErrOther)"
proof -
  have "disconnects_sent (fold (\<lambda>b. if b then shutdown else disconnect) bs c)
     = disconnects_sent c + (if disconnected c \<or> bs = [] then 0 else 1)"
    by (induction bs arbitrary: c) (simp_all add: shutdown_def disconnect_def do_disconnect_def)
  then show ?thesis by (simp add: post_send_def post_recv_def with_qp_def shutdown_def)
qed

section \<open>One endpoint\<close>

text \<open>
  C2. Every non-blocking operation of an established endpoint keeps the endpoint invariant
  (buffer geometry, exclusive ownership of receive and send slots, at most one control
  message in flight, bounded stage), whatever the NIC, the peer and the device do and on
  every error path.
\<close>

theorem endpoint_invariant:
  assumes "stream_ok s"
  shows "stream_ok (snd (drain_completions s)) \<and> stream_ok (snd (try_read n s))
    \<and> stream_ok (snd (try_write buf s)) \<and> stream_ok (snd (try_flush_stage s))
    \<and> stream_ok (snd (return_owed_credits urgent s)) \<and> stream_ok (snd (next_completed_transfer s))"
proof -
  have "length (tx_stage s) \<le> payload_cap s" using stream_okD(8) [OF assms] by simp
  with assms show ?thesis
    by (simp add: ok.drain_completions_pres ok.try_read_pres ok.try_write_pres
        ok.try_flush_stage_pres ok.return_owed_credits_pres ok.next_completed_transfer_pres)
qed

theorem endpoint_invariant_witness:
  "stream_ok ex_stream \<and> stream_ok (snd (try_read 2 ex_stream))
   \<and> stream_ok (snd (drain_completions ex_stream)) \<and> stream_ok (snd (try_write [1, 2, 3] ex_stream))"
  using endpoint_invariant [OF ex_stream_ok, of 2 "[1, 2, 3]" True] ex_stream_ok by simp

text \<open>
  No non-blocking operation of an endpoint that keeps the invariant panics: no copy
  outside a registered buffer, no index underflow, no missing split buffer, for every
  completion the NIC can report.
\<close>

theorem endpoint_never_panics:
  assumes "stream_ok s"
  shows "fst (drain_completions s) \<noteq> Inl Panic \<and> fst (try_read n s) \<noteq> Inl Panic
    \<and> fst (try_write buf s) \<noteq> Inl Panic \<and> fst (try_flush_stage s) \<noteq> Inl Panic
    \<and> fst (return_owed_credits urgent s) \<noteq> Inl Panic"
  using assms
  by (simp add: drain_completions_def ok.drain_loop_safe ok.try_read_safe ok.try_write_safe
      ok.try_flush_stage_safe return_owed_credits_def ok.maybe_return_credits_safe)

text \<open>
  C5. The receive side is a byte queue: a successful \<open>try_read\<close> returns the oldest bytes that
  were received and not yet read, as many as fit and are there, and leaves the rest in order.
\<close>

theorem try_read_fifo:
  assumes "queue_ok s" and "0 < n" and "try_read n s = (Inr (Some bs), s')"
  shows "rx_bytes s = bs @ rx_bytes s' \<and> length bs = min n (length (rx_bytes s))"
  using try_read_refines [of s n bs s'] assms by (simp add: queue_ok_def)

theorem try_read_fifo_witness:
  "queue_ok ex_stream \<and> rx_bytes ex_stream = [13, 10] @ rx_bytes (snd (try_read 2 ex_stream))"
proof -
  have "try_read 2 ex_stream = (Inr (Some [13, 10]), snd (try_read 2 ex_stream))"
    using ex_read by (metis prod.collapse)
  from try_read_fifo [OF ex_queue_ok _ this] show ?thesis using ex_queue_ok by simp
qed

text \<open>
  C6. The send side is a byte queue: \<open>try_write\<close> reports how many bytes it took, and exactly
  those are appended to what is queued for the wire or staged.
\<close>

theorem try_write_fifo:
  assumes "stream_ok s" and "try_write buf s = (Inr n, s')"
  shows "n \<le> length buf \<and> tx_bytes s' = tx_bytes s @ take n buf"
  using try_write_refines [OF assms] .

theorem try_write_fifo_witness:
  "stream_ok ex_stream \<and> fst (try_write [1, 2, 3] ex_stream) = Inr 3
   \<and> tx_bytes (snd (try_write [1, 2, 3] ex_stream)) = tx_bytes ex_stream @ [1, 2, 3]"
proof -
  have run: "fst (try_write [1, 2, 3] ex_stream) = Inr 3"
    by (simp add: try_write_def try_write_loop.simps)
  then have "try_write [1, 2, 3] ex_stream = (Inr 3, snd (try_write [1, 2, 3] ex_stream))"
    by (metis prod.collapse)
  from try_write_fifo [OF ex_stream_ok this] show ?thesis using ex_stream_ok run by simp
qed

text \<open>
  C8. The blocking \<open>read\<close>: what it returns continues the bytes received so far, extended by
  what arrived while it waited; it never returns more than asked, and it returns nothing
  (end of stream) only when the connection is closed and every received byte was read.
\<close>

theorem blocking_read_law:
  assumes "queue_ok s" and "hord_read n s = Some (Inr bs, s')"
  shows "(\<exists>arrived. rx_bytes s @ arrived = bs @ rx_bytes s') \<and> length bs \<le> n
    \<and> (0 < n \<and> bs = [] \<longrightarrow> peer_closed s' \<and> rx_bytes s' = [])"
  using hord_read_source(2) [OF assms] by (simp add: read_law_def)

theorem blocking_read_law_witness:
  "queue_ok ex_stream
   \<and> (\<exists>arrived. rx_bytes ex_stream @ arrived = [13, 10] @ rx_bytes (snd (the (hord_read 2 ex_stream))))"
proof -
  obtain s' where "try_read 2 ex_stream = (Inr (Some [13, 10]), s')"
    using ex_read by (metis prod.collapse)
  then have run: "hord_read 2 ex_stream = Some (Inr [13, 10], s')" by (simp add: hord_read.simps)
  from blocking_read_law [OF ex_queue_ok run] show ?thesis using ex_queue_ok run by simp
qed

text \<open>
  C7. The blocking calls keep the invariant, the accounting of one-sided writes included, and
  never panic, on every path on which they return.
\<close>

theorem blocking_operations_safe:
  assumes "write_ok s"
  shows "(hord_read n s = Some (r, s1) \<longrightarrow> write_ok s1 \<and> r \<noteq> Inl Panic)
    \<and> (hord_write data s = Some (w, s2) \<longrightarrow> write_ok s2 \<and> w \<noteq> Inl Panic)
    \<and> (hord_flush s = Some (f, s3) \<longrightarrow> write_ok s3 \<and> f \<noteq> Inl Panic)
    \<and> (poll_completed_transfer s = Some (t, s4) \<longrightarrow> write_ok s4 \<and> t \<noteq> Inl Panic)"
  using wr.hord_read_safe [of n s] wr.hord_write_safe [of data s] wr.hord_flush_safe [of s]
    wr.poll_completed_transfer_safe [of s] assms
  by (auto simp: safe_outcome_def)

theorem blocking_operations_safe_witness:
  "hord_flush ex_stream = Some (Inr (), ex_stream)
   \<and> hord_write [1, 2, 3] ex_stream = Some (Inr 3, snd (try_write [1, 2, 3] ex_stream))
   \<and> write_ok (snd (try_write [1, 2, 3] ex_stream))"
  using blocking_operations_safe [OF ex_write_ok] ex_write ex_flush by metis

text \<open>
  C9. The blocking \<open>write\<close> takes all of its data: what was queued before, followed by the
  data, is what went out meanwhile, followed by what is still queued.
\<close>

theorem blocking_write_law:
  assumes "queue_ok s" and "hord_write data s = Some (Inr n, s')"
  shows "n = length data \<and> (\<exists>sent. tx_bytes s @ data = sent @ tx_bytes s')"
  using hord_write_law [OF assms] by (simp add: write_law_def)

theorem blocking_write_law_witness:
  "\<exists>sent. tx_bytes ex_stream @ [1, 2, 3] = sent @ tx_bytes (snd (try_write [1, 2, 3] ex_stream))"
  using blocking_write_law [OF ex_queue_ok ex_write] by simp

text \<open>
  C13. A \<open>flush\<close> that succeeds leaves nothing behind: the stage is empty, no data message and
  no one-sided write is still owned by the NIC.
\<close>

theorem flush_empties_send_side:
  assumes "queue_ok s" and "hord_flush s = Some (Inr (), s')"
  shows "tx_bytes s' = [] \<and> \<not> sends_outstanding s' \<and> \<not> writes_pending s'"
  using hord_flush_law [OF assms] .

theorem flush_empties_send_side_witness: "tx_bytes ex_stream = []"
  using flush_empties_send_side [OF ex_queue_ok ex_flush] by simp

text \<open>
  C14. No blocking call waits forever once the connection ends: on a stream that is closed, or
  that watches a CM channel on which a disconnect, a device removal, a connect error or a
  failure is still to come, \<open>read\<close>, \<open>write\<close>, \<open>flush\<close> and the wait for a transfer all return.
\<close>

theorem blocked_calls_return:
  assumes "peer_closed s \<or> (cm_watch s \<and> list_ex ends_wait (cm_events (conn s)))"
  shows "(\<exists>r. hord_read n s = Some r) \<and> (\<exists>r. hord_write data s = Some r)
    \<and> (\<exists>r. hord_flush s = Some r) \<and> (\<exists>r. poll_completed_transfer s = Some r)"
proof -
  have "pending s" using assms by (auto simp: pending_def end_pending_def)
  then show ?thesis
    by (intro conjI hord_read_returns hord_write_returns hord_flush_returns poll_completed_transfer_returns)
qed

theorem blocked_calls_return_witness:
  "(\<exists>r. hord_read 5 ex_stream = Some r) \<and> (\<exists>r. hord_write (replicate 99 1) ex_stream = Some r)"
  using blocked_calls_return [of ex_stream 5 "replicate 99 1"] by (simp add: ends_wait_def)

section \<open>Completion processing\<close>

text \<open>
  \<open>drain_completions\<close> reaps everything the NIC has reported: on success the completion
  queue is empty and the count is bounded by what there was to report.
\<close>

theorem drain_completions_exhausts:
  assumes "drain_completions s = (Inr n, s')"
  shows "cq (conn s') = [] \<and> n + backlog (conn s') \<le> backlog (conn s)"
  using drain_loop_empty [of 0 s n s'] assms by (simp add: drain_completions_def)

text \<open>
  C23. The NIC never writes over live data: for an endpoint in any state that set-up and its own
  operations lead to (reads, writes, flushes, credit returns, one-sided writes, registrations of
  further buffers, in any order, with any peer and any device), polling the completion queue,
  with everything the NIC does meanwhile, changes neither the bytes received and not yet read nor
  the pool the queued messages are sent from. Receives land in posted slots only, which the
  operations keep apart from unread ones, and remote writes only in memory registered for them,
  which registration keeps apart from the pools.
\<close>

theorem nic_never_clobbers:
  assumes "config_ok cfg" and "endpoint_run cfg s"
  shows "rx_bytes (s\<lparr>conn := snd (poll (conn s))\<rparr>) = rx_bytes s
    \<and> read_mem (mem (snd (poll (conn s)))) (rb_addr (send s)) (rb_len (send s))
        = read_mem (smem s) (rb_addr (send s)) (rb_len (send s))"
proof -
  have q: "queue_ok s" using endpoint_run_ok [OF assms(2,1)] by (simp add: world_ok_def write_ok_def)
  then show ?thesis
    using rx_bytes_settle [of s] settle_send_stable [OF q] rx_bytes_mem [OF poll_mem [of "conn s"], of s]
    by (simp add: queue_ok_def poll_mem)
qed

theorem nic_never_clobbers_witness:
  "\<exists>s. endpoint_run ex_config s \<and> arrivals (conn (ex_arrives [7] s)) \<noteq> []
     \<and> rx_bytes ((ex_arrives [7] s)\<lparr>conn := snd (poll (conn (ex_arrives [7] s)))\<rparr>) = [5, 6]"
proof (rule ex_received)
  fix s assume s: "endpoint_run ex_config s" "rx_bytes s = [5, 6]"
  then have "rx_bytes (ex_arrives [7] s) = [5, 6]"
    using rx_bytes_mem [of "conn (ex_arrives [7] s)" "conn s" s] by (simp add: ex_arrives_def)
  with nic_never_clobbers [OF ex_config_ok ex_arrives_run [OF s(1), of "[7]"]] s(1) show ?thesis
    by (auto simp: ex_arrives_def)
qed

section \<open>One-sided writes\<close>

text \<open>
  C15. Posting a gather write, on every path: the invariant (slots, queue layout, and the
  counters that bound the requests the NIC may still be reading from) is kept, nothing
  panics, and on success either there was nothing to write or the requests of the plan, and
  only those, are posted in order with the immediate on the last one.
\<close>

theorem begin_write_outcomes:
  assumes "write_ok s" and "raddr < 2 ^ 64"
  shows "write_ok (snd (begin_rdma_write_gather_inner segs raddr rkey imm s))
    \<and> fst (begin_rdma_write_gather_inner segs raddr rkey imm s) \<noteq> Inl Panic
    \<and> (begin_rdma_write_gather_inner segs raddr rkey imm s = (Inr (), s') \<longrightarrow>
         write_wrs s segs imm = [] \<and> s' = s
         \<or> (\<exists>fs. s' = posted_state
              (gather_sends (length (write_wrs s segs imm)) raddr rkey imm 0 (write_wrs s segs imm))
              (length (write_wrs s segs imm)) (if imm \<noteq> None then 1 else 0) fs s))"
proof -
  have "begin_rdma_write_gather_inner segs raddr rkey imm s = (Inr (), s') \<Longrightarrow>
      write_wrs s segs imm = [] \<and> s' = s
      \<or> (\<exists>fs. s' = posted_state
           (gather_sends (length (write_wrs s segs imm)) raddr rkey imm 0 (write_wrs s segs imm))
           (length (write_wrs s segs imm)) (if imm \<noteq> None then 1 else 0) fs s)"
    by (cases rule: begin_gather_cases [OF write_ok_caps(1,2) [OF assms(1)] assms(2),
          where segs = segs and imm = imm and rkey = rkey]) auto
  then show ?thesis using begin_gather_write_ok [OF assms] by (auto simp: safe_outcome_def)
qed

theorem begin_write_outcomes_witness:
  "write_ok (snd (begin_rdma_write_gather_inner [ex_seg] 4096 9 (Some 7) ex_stream))"
  using begin_write_outcomes [OF ex_write_ok, of 4096 "[ex_seg]" 9 "Some 7"] by simp

text \<open>
  C17. The blocking gather write of any length keeps the invariant and never panics, and it
  is the sequence of its batches: the list cut at segment boundaries, each batch driven to
  completion at its own remote offset before the next is posted, the immediate on the last.
\<close>

theorem gather_all_is_batches:
  assumes "write_ok s" and "raddr < 2 ^ 64" and "segs \<noteq> []" and "0 < send_pool s"
  shows "rdma_write_gather_all_inner segs raddr rkey imm s =
      run_batches raddr rkey imm (gather_batches (max_send_sge (conn s)) (send_pool s) segs 0) s
    \<and> concat (map fst (gather_batches (max_send_sge (conn s)) (send_pool s) segs 0)) = segs
    \<and> (rdma_write_gather_all_inner segs raddr rkey imm s = Some (r, s') \<longrightarrow> write_ok s' \<and> r \<noteq> Inl Panic)"
  using gather_all_loop_batches [OF assms(1), of 0 segs raddr rkey imm 0]
    gather_batches_spec [OF assms(4), of "max_send_sge (conn s)" segs 0]
    rdma_write_gather_all_safe [of segs raddr rkey imm s "(r, s')"] assms
  by (simp add: rdma_write_gather_all_inner_def safe_outcome_def)

theorem gather_all_is_batches_witness:
  "rdma_write_gather_all_inner [ex_seg, ex_seg] 4096 9 None ex_writer =
     run_batches 4096 9 None (gather_batches 2 2 [ex_seg, ex_seg] 0) ex_writer"
  using gather_all_is_batches [OF ex_writer_ok(2), of 4096 "[ex_seg, ex_seg]" 9 None]
  by (simp add: ex_writer_def)

text \<open>
  A driven write that succeeds leaves no write request in the send queue or unreaped in
  the completion queue, on an open connection: the NIC is done with the source memory.
\<close>

theorem driven_write_releases_source:
  assumes "write_ok s"
    and "drive_write_all (begin_rdma_write_gather_inner segs (wrap64 raddr) rkey imm) s = Some (Inr (), s')"
  shows "write_ids s' = {#} \<and> \<not> writes_pending s' \<and> \<not> peer_closed s' \<and> write_ok s'"
proof -
  have "write_ok s'"
    using held.drive_write_all_safe [OF assms(2), of "fixtures s"] assms(1) by simp
  then show ?thesis
    using drive_write_all_released [OF assms(2)] drive_write_all_drained [OF assms(2)] by simp
qed

text \<open>
  C16. Packing a gather list: the requests \<open>plan_gather\<close> emits carry the bytes of the segments
  in order and nothing else, each at the remote offset where the previous one ended, none
  exceeds the SGE or byte limit of a request, and the count \<open>plan_gather\<close> returns is their
  number, whether its callback counts or posts.
\<close>

theorem gather_plan_correct:
  "concat (map (wr_data m) (gather_wrs max_sge segs)) = concat (map (seg_data m) segs)
   \<and> back_to_back 0 (gather_wrs max_sge segs)
   \<and> list_all (wr_within (clamp_sge max_sge)) (gather_wrs max_sge segs)
   \<and> plan_gather segs max_sge emit s =
       and_then (emit_all emit (gather_wrs max_sge segs) s)
         (\<lambda>_ s. (Inr (length (gather_wrs max_sge segs)), s))"
  by (intro conjI gather_wrs_data gather_wrs_contiguous gather_wrs_within plan_gather_emits)

text \<open>
  \<open>next_batch_len\<close> returns the longest prefix of a gather list whose requests fit the
  send pool (at least one segment), with the number of its bytes, so that posting the batch
  never exceeds the pool unless a single segment does.
\<close>

theorem next_batch_len_maximal:
  assumes "segs \<noteq> []" and "0 < budget"
  shows "\<exists>n. next_batch_len segs mx budget = Inr (n, sum_list (map seg_len (take n segs)))
    \<and> 1 \<le> n \<and> n \<le> length segs
    \<and> (length (gather_wrs mx (take n segs)) \<le> budget \<or> n = 1)
    \<and> (n < length segs \<longrightarrow> budget < length (gather_wrs mx (take (n + 1) segs)) \<or> n = 1)"
  using next_batch_len_spec [OF assms, of mx] by metis

text \<open>
  A write that is refused for lack of room while nothing is in flight cannot get room by
  waiting: the driver reports an error instead of spinning.
\<close>

theorem stalled_write_errors:
  assumes "begin_op s = (Inl (io_err WouldBlock), s)" and "\<not> sends_outstanding s" and "\<not> writes_pending s"
  shows "drive_write_all begin_op s = Some (Inl (io_err ErrOther), s)"
  using drive_write_all_stalled [of begin_op s] assms by simp

section \<open>Serving a body\<close>

text \<open>
  Serving a body from a freshly registered source: whatever happens, the invariant holds
  afterwards and the source is deregistered again; an answer is the one the policy promises
  (\<open>too_large\<close> exactly when the object exceeds the client's buffer, else \<open>complete\<close> with the
  object's size), and when a body was written the NIC is done with it.
\<close>

theorem serve_keeps_world:
  assumes "world_ok s" and "fills fill (unat object_size)"
    and "serve_rdma_write req object_size fill s = Some (r, s')"
  shows "world_ok s' \<and> r \<noteq> Inl Panic \<and> regions (conn s') = regions (conn s)
    \<and> (\<forall>st. r = Inr st \<longrightarrow>
         st = (if object_size > req_len req then TooLarge object_size else Complete object_size)
         \<and> (s' = s \<or> write_ids s' = {#}))"
  using serve_rdma_write_world [OF assms(1,3,2)] by (auto simp: safe_outcome_def served_def)

text \<open>
  C22. Serving from the source pool, whatever happens: the pool gets every buffer back (all it
  ever registered is free again, never more than its capacity), the registrations of the
  connection grow exactly by what the pool keeps, and the answer is again the policy's.
\<close>

theorem pooled_serve_conserves_pool:
  assumes "world_ok s" and "pool_idle p" and "fills fill (unat object_size)"
    and "serve_rdma_write_pooled req object_size fill (p, s) = Some (r, p', s')"
  shows "world_ok s' \<and> r \<noteq> Inl Panic \<and> pool_idle p'
    \<and> length (regions (conn s')) + sp_registered p = length (regions (conn s)) + sp_registered p'
    \<and> (\<forall>st. r = Inr st \<longrightarrow>
         st = (if object_size > req_len req then TooLarge object_size else Complete object_size))"
  using serve_pooled_world [OF assms(1,2,4,3)] by (simp add: served_def)

theorem pooled_serve_conserves_pool_witness:
  "serve_rdma_write_pooled ex_req 9 ex_fill (source_pool_new 2 64, ex_stream)
     = Some (Inr (TooLarge 9), source_pool_new 2 64, ex_stream)
   \<and> pool_idle (source_pool_new 2 64)"
proof -
  have "fills ex_fill 9"
    by (simp add: fills_def ex_fill_def copy_in_def)
  moreover have run: "serve_rdma_write_pooled ex_req 9 ex_fill (source_pool_new 2 64, ex_stream)
      = Some (Inr (TooLarge 9), source_pool_new 2 64, ex_stream)"
    by (simp add: serve_rdma_write_pooled_def decide_def ex_req_def)
  ultimately show ?thesis
    using pooled_serve_conserves_pool [OF ex_world_ok pool_idle_new _ run] by simp
qed

text \<open>
  The server's decision stays inside the client's buffer: a body is written only when it
  fits, from a source that is long enough and never empty, and with an immediate exactly when
  split mode was negotiated and the client named the transfer.
\<close>

theorem decide_within_buffer:
  assumes "decide req object_size split = WriteBody plen slen tid"
  shows "plen = unat object_size \<and> plen \<le> unat (req_len req) \<and> plen \<le> slen \<and> 0 < slen
    \<and> tid = (if split then req_id req else None)"
proof -
  have "tid = (if split then req_id req else None)"
    using assms by (auto simp: decide_def Let_def split: if_splits option.splits)
  then show ?thesis using decide_plan [OF assms] by simp
qed

text \<open>
  C36. The \<open>X-HORD-RDMA-Write\<close> header values print and parse back, for every request and every
  status; no two requests, and no two statuses, share a value.
\<close>

theorem header_round_trip:
  "parse_req (req_header_value r) = Some r \<and> parse_status (status_header_value st) = Some st"
  by (simp add: parse_req_header_value parse_status_header_value)

section \<open>The demo's HTTP framing\<close>

text \<open>
  Reading a head from a HORD stream loses nothing: the head, the bytes read beyond it, and
  what is still unread are what was unread before plus what arrived; at most 64 KiB and one
  read are buffered.
\<close>

theorem read_head_lossless:
  assumes "queue_ok s" and "read_head hord_read s = Some (Inr (h, rest), s')"
  shows "queue_ok s' \<and> (\<exists>arrived. rx_bytes s @ arrived = h @ rest @ rx_bytes s')
    \<and> length (h @ rest) \<le> MAX_HEAD_BYTES + 1024"
  using hstream.read_head_content [OF assms] by blast

text \<open>
  Reading a body likewise, and it has exactly the requested length unless more was
  already buffered.
\<close>

theorem read_body_exact:
  assumes "queue_ok s" and "read_body hord_read leftover sz s = Some (Inr body, s')"
  shows "length body = max sz (length leftover)
    \<and> (\<exists>arrived. leftover @ rx_bytes s @ arrived = body @ rx_bytes s')"
  using hstream.read_body_content [OF assms] by blast

text \<open>
  A byte range is answered inside the object: a satisfiable \<open>Range\<close> is non-empty and ends
  before the object does, an empty object never yields one, and the printed form of a range is
  read back as that range, clamped to the object.
\<close>

theorem range_inside_object:
  assumes "a \<le> b" and "b \<le> u64_max"
  shows "(parse_range v sz = Range c d \<longrightarrow> c \<le> d \<and> d < sz)
    \<and> parse_range (''bytes='' @ show_radix 10 a @ ''-'' @ show_radix 10 b) sz =
        (if sz \<le> a then Unsatisfiable else Range a (min b (sz - 1)))"
  using parse_range_bounds [of v sz c d] parse_range_show [of a b sz] assms by auto

text \<open>\<open>Content-Range\<close> values print and parse back for all 64-bit bounds.\<close>

theorem content_range_round_trip:
  assumes "a \<le> u64_max" and "b \<le> u64_max" and "n \<le> u64_max"
  shows "parse_content_range (content_range a b n) = Some (a, b, n)"
  using parse_content_range_show [OF assms] .

text \<open>
  Filling a registered buffer in chunks writes the pattern and verifying it in chunks
  accepts exactly the pattern: verification succeeds on a buffer if and only if its bytes are
  those of the object from the requested offset on.
\<close>

theorem pattern_fill_verifies:
  assumes "n \<le> rb_len buf" and "size_from_path path \<noteq> None"
  shows "(verify_zero_copy_at buf base n path m = Inr (Inr True) \<longleftrightarrow>
       read_mem m (rb_addr buf) n = pattern_fill_from n base)
    \<and> (\<exists>m'. pattern_fill_registered_from buf base n m = Inr m'
         \<and> verify_zero_copy_at buf base n path m' = Inr (Inr True))"
  using verify_zc_loop_spec [of 0 n buf base] fill_registered_loop_spec [of 0 n buf base m] assms
    read_write_same [of m "rb_addr buf" "pattern_fill_from n base"]
  by (auto simp: verify_zero_copy_at_def pattern_fill_registered_from_def)

section \<open>Wire formats\<close>

text \<open>
  C34. The envelope codec is exact: what \<open>encode\<close> writes at the front of a buffer decodes to
  the same envelope, the bytes behind it are kept, and a header of eight bytes decodes to
  exactly one envelope.
\<close>

theorem envelope_codec_exact:
  assumes "envelope_encode e out = Inr out'" and "length hdr = ENVELOPE_LEN"
  shows "envelope_decode out' = Inr e \<and> length out' = length out
    \<and> drop ENVELOPE_LEN out' = drop ENVELOPE_LEN out
    \<and> (envelope_decode hdr = Inr e' \<longleftrightarrow> hdr = envelope_bytes e')"
proof -
  have "out' = envelope_bytes e @ drop ENVELOPE_LEN out" and "ENVELOPE_LEN \<le> length out"
    using assms(1) by (auto simp: envelope_encode_def split: if_splits)
  then show ?thesis using env.dec_iff_enc [OF assms(2)] by (simp add: env.dec_enc_append)
qed

theorem envelope_codec_exact_witness:
  "envelope_decode [0, 0, 0, 3, 0, 1, 0, 0, 9] = Inr \<lparr>env_length = 3, env_credits = 1, env_flags = 0\<rparr>"
proof -
  have "envelope_encode \<lparr>env_length = 3, env_credits = 1, env_flags = 0\<rparr> [5, 5, 5, 5, 5, 5, 5, 5, 9]
      = Inr [0, 0, 0, 3, 0, 1, 0, 0, 9]"
    by (simp add: envelope_encode_def envelope_bytes_def ENVELOPE_LEN_def u32_to_be_bytes_def
        u16_to_be_bytes_def)
  from envelope_codec_exact [OF this length_envelope_bytes] show ?thesis by blast
qed

text \<open>
  C35. The handshake codec is exact on frames of sixteen bytes: a frame is accepted exactly
  when it is the encoding of a version-1 handshake, and then it decodes to that handshake; a
  14-byte frame of an older peer is read with zero transfer credits.
\<close>

theorem handshake_codec_exact:
  assumes "length frame = HANDSHAKE_LEN"
  shows "(handshake_decode frame = Inr h \<longleftrightarrow> hs_version h = VERSION \<and> frame = handshake_encode h)
    \<and> (handshake_decode frame = Inr h \<longrightarrow>
         handshake_decode (take 14 frame) = Inr (h\<lparr>hs_split_credits := 0\<rparr>))"
proof (intro conjI impI)
  show "handshake_decode frame = Inr h \<longleftrightarrow> hs_version h = VERSION \<and> frame = handshake_encode h"
    using hs.dec_iff_enc [OF assms] .
  assume "handshake_decode frame = Inr h"
  then show "handshake_decode (take 14 frame) = Inr (h\<lparr>hs_split_credits := 0\<rparr>)"
    using assms
    by (auto simp: handshake_decode_def HANDSHAKE_LEN_def subslice_def drop_take min_def split: if_splits)
qed

theorem handshake_codec_exact_witness:
  "handshake_decode (handshake_encode (handshake_new 65536 32)) = Inr (handshake_new 65536 32)
   \<and> handshake_decode (take 14 (handshake_encode (handshake_new 65536 32))) = Inr (handshake_new 65536 32)"
  using handshake_codec_exact [OF length_handshake_encode, of "handshake_new 65536 32" "handshake_new 65536 32"]
  by (simp add: handshake_new_def)

text \<open>
  A work-request identifier names its lane and its slot: for indices below \<open>2 ^ 60\<close> the
  five constructors never collide, and every identifier gives its index back.
\<close>

theorem wr_id_lanes_disjoint:
  assumes "i < slot_bound" and "j < slot_bound"
  shows "distinct [recv_wr_id i, send_wr_id j, ctrl_send_wr_id i, write_wr_id j, imm_write_wr_id i]
    \<and> slot_of (recv_wr_id i) = i \<and> slot_of (send_wr_id j) = j \<and> slot_of (ctrl_send_wr_id i) = i
    \<and> slot_of (write_wr_id j) = j \<and> slot_of (imm_write_wr_id i) = i"
proof -
  note I = wr_id_simps [OF assms(1)] and J = wr_id_simps [OF assms(2)]
  define lane where
    "lane w = (is_send w, is_send w \<and> is_ctrl_send w, is_write w, is_write w \<and> is_imm_write w)" for w
  let ?ids = "[recv_wr_id i, send_wr_id j, ctrl_send_wr_id i, write_wr_id j, imm_write_wr_id i]"
  have "map lane ?ids =
      [(False, False, False, False), (True, False, False, False), (True, True, False, False),
       (False, False, True, False), (False, False, True, True)]"
    by (simp only: list.map lane_def I J simp_thms)
  then have "distinct (map lane ?ids)" by (simp only:) simp
  then have "distinct ?ids" by (simp only: distinct_map)
  with I J show ?thesis by blast
qed

section \<open>Where the code misses its own contract\<close>

text \<open>
  \<open>flush\<close> can report success although the send it waited for failed: the failed
  completion closes the connection but also gives its slot back, so the loop finds nothing
  outstanding.
\<close>

theorem flush_hides_failed_send:
  "\<exists>s s'. hord_flush s = Some (Inr (), s') \<and> peer_closed s' \<and> \<not> peer_closed s"
proof (rule ex_failing_flush)
  fix s' assume "hord_flush ex_failing = Some (Inr (), s')" "peer_closed s'"
  moreover have "\<not> peer_closed ex_failing" by (simp add: ex_failing_def)
  ultimately show ?thesis by blast
qed

text \<open>
  The write driver can return with requests still in flight: an error while waiting (here
  a message too short for its envelope) ends the drain early.
\<close>

theorem driven_write_leaves_early:
  "\<exists>s s' seg. drive_write_all (begin_rdma_write_gather_inner [seg] 4096 9 None) s
      = Some (Inl (io_err InvalidData), s') \<and> writes_pending s' \<and> \<not> writes_pending s"
proof (rule ex_runt_driven)
  fix s' assume "drive_write_all (begin_rdma_write_gather_inner [ex_seg] 4096 9 None) ex_runt
      = Some (Inl (io_err InvalidData), s')" "writes_pending s'"
  moreover have "\<not> writes_pending ex_runt" by (simp add: ex_runt_def writes_pending_def)
  ultimately show ?thesis by blast
qed

text \<open>
  \<open>handle_completion\<close> looks at the opcode before the status, but the opcode of a failed
  completion is unspecified: a failed write whose report happens to carry the receive-with-
  immediate opcode closes the connection without being counted as finished.
\<close>

theorem failed_write_not_counted:
  assumes "is_write (wc_wr_id wc)" and "\<not> is_success wc"
  shows "writes_outstanding (snd (handle_completion wc s)) =
    (if wc_opcode wc = OpRecvRdmaWithImm then writes_outstanding s else writes_outstanding s - 1)"
  using assms by (auto simp: handle_completion_def Let_def)

end
